(* ===== verification/Prelude.thy ===== *)
theory Prelude
  imports Main "HOL-Library.Word" "HOL-Library.Multiset"
begin

unbundle bit_operations_syntax

text \<open>
  Shared vocabulary of the development: machine types, the panics of the Rust code as values,
  the build configuration (which assertions and overflow checks are compiled in), mutexes, and
  the generic list and word lemmas the component theories use.
\<close>

named_theorems res_simps \<open>rewriting of computations that may panic\<close>
named_theorems usize_simps \<open>machine integers read as natural numbers\<close>

section \<open>Machine types\<close>

text \<open>
  The binding is built for 64-bit targets: \<open>usize\<close>, \<open>Address\<close> and \<open>ObjectReference\<close> (a non-zero
  address) are 64-bit words.
\<close>

type_synonym usize = "64 word"
type_synonym address = "64 word"
type_synonym objref = "64 word"
type_synonym byte = "8 word"

text \<open>\<open>ObjectReference::from_raw_address\<close>: zero is not an object reference.\<close>

definition objref_from_raw_address :: "address \<Rightarrow> objref option" where
  "objref_from_raw_address a = (if a = 0 then None else Some a)"

section \<open>Panics\<close>

text \<open>
  A Rust panic is a value. The constructors tell apart the macro that raised it; \<open>UB\<close> stands for
  the points where an unsafe block is entered with an argument its contract excludes.
\<close>

datatype panic =
    Panic string
  | AssertFailed string
  | Overflow string
  | Unimplemented
  | Todo
  | Unreachable string
  | UB string

type_synonym 'a res = "panic + 'a"

definition bind_res :: "'a res \<Rightarrow> ('a \<Rightarrow> 'b res) \<Rightarrow> 'b res" where
  "bind_res m f = (case m of Inl e \<Rightarrow> Inl e | Inr x \<Rightarrow> f x)"

lemma bind_res_Inr [simp, res_simps]: "bind_res (Inr x) f = f x"
  by (simp add: bind_res_def)

lemma bind_res_Inl [simp, res_simps]: "bind_res (Inl e) f = Inl e"
  by (simp add: bind_res_def)

lemma bind_res_eq_Inr [res_simps]:
  "bind_res m f = Inr y \<longleftrightarrow> (\<exists>x. m = Inr x \<and> f x = Inr y)"
  by (cases m) auto

lemma bind_res_eq_Inl [res_simps]:
  "bind_res m f = Inl e \<longleftrightarrow> m = Inl e \<or> (\<exists>x. m = Inr x \<and> f x = Inl e)"
  by (cases m) auto

lemma bind_res_assoc: "bind_res (bind_res m f) g = bind_res m (\<lambda>x. bind_res (f x) g)"
  by (cases m) auto

lemma bind_res_cong [fundef_cong]:
  "m = m' \<Longrightarrow> (\<And>x. m' = Inr x \<Longrightarrow> f x = f' x) \<Longrightarrow> bind_res m f = bind_res m' f'"
  by (cases m') auto

text \<open>A loop over a list that stops at the first panic.\<close>

fun fold_res :: "('a \<Rightarrow> 's \<Rightarrow> 's res) \<Rightarrow> 'a list \<Rightarrow> 's \<Rightarrow> 's res" where
  "fold_res f [] s = Inr s"
| "fold_res f (x # xs) s = bind_res (f x s) (fold_res f xs)"

lemma fold_res_append:
  "fold_res f (xs @ ys) s = bind_res (fold_res f xs s) (fold_res f ys)"
  by (induction xs arbitrary: s) (auto simp: bind_res_assoc intro: bind_res_cong)

lemma fold_res_total:
  "(\<And>x s. f x s = Inr (g x s)) \<Longrightarrow> fold_res f xs s = Inr (fold g xs s)"
  by (induction xs arbitrary: s) auto

text \<open>Collecting the results of a fallible function over a list, in order.\<close>

fun map_res :: "('a \<Rightarrow> 'b res) \<Rightarrow> 'a list \<Rightarrow> 'b list res" where
  "map_res f [] = Inr []"
| "map_res f (x # xs) = bind_res (f x) (\<lambda>y. bind_res (map_res f xs) (\<lambda>ys. Inr (y # ys)))"

lemma map_res_total: "(\<And>x. x \<in> set xs \<Longrightarrow> f x = Inr (g x)) \<Longrightarrow> map_res f xs = Inr (map g xs)"
  by (induction xs) auto

lemma map_res_map: "map_res f (map h xs) = map_res (f \<circ> h) xs"
  by (induction xs) auto

lemma map_res_length: "map_res f xs = Inr ys \<Longrightarrow> length ys = length xs"
  by (induction xs arbitrary: ys) (auto simp: res_simps)

section \<open>Build configuration\<close>

text \<open>
  \<open>debug_assertions\<close> also turns on the arithmetic overflow checks (the dev profile);
  \<open>extra_assert_feature\<close> and \<open>clear_old_copy\<close> are the cargo features of \<open>mmtk/Cargo.toml\<close>.
\<close>

record build =
  debug_assertions :: bool
  extra_assert_feature :: bool
  clear_old_copy :: bool

definition debug_build :: build where
  "debug_build = \<lparr>debug_assertions = True, extra_assert_feature = False, clear_old_copy = False\<rparr>"

definition release_build :: build where
  "release_build = \<lparr>debug_assertions = False, extra_assert_feature = False, clear_old_copy = False\<rparr>"

lemma build_flags [simp]:
  "debug_assertions debug_build" "\<not> debug_assertions release_build"
  "\<not> extra_assert_feature debug_build" "\<not> extra_assert_feature release_build"
  "\<not> clear_old_copy debug_build" "\<not> clear_old_copy release_build"
  by (simp_all add: debug_build_def release_build_def)

definition assert :: "bool \<Rightarrow> string \<Rightarrow> unit res" where
  "assert b msg = (if b then Inr () else Inl (AssertFailed msg))"

definition debug_assert :: "build \<Rightarrow> bool \<Rightarrow> string \<Rightarrow> unit res" where
  "debug_assert cfg b msg = (if debug_assertions cfg then assert b msg else Inr ())"

text \<open>The macro \<open>extra_assert!\<close> of \<open>lib.rs\<close>.\<close>

definition extra_assert :: "build \<Rightarrow> bool \<Rightarrow> string \<Rightarrow> unit res" where
  "extra_assert cfg b msg =
     (if debug_assertions cfg \<or> extra_assert_feature cfg then assert b msg else Inr ())"

lemma assert_simps [simp, res_simps]:
  "assert True msg = Inr ()" "assert False msg = Inl (AssertFailed msg)"
  "debug_assert cfg True msg = Inr ()" "extra_assert cfg True msg = Inr ()"
  "debug_assert debug_build b msg = assert b msg" "debug_assert release_build b msg = Inr ()"
  "extra_assert debug_build b msg = assert b msg" "extra_assert release_build b msg = Inr ()"
  by (simp_all add: assert_def debug_assert_def extra_assert_def)

text \<open>\<open>a + b\<close> on \<open>usize\<close>: a panic under overflow checks, wrap-around without them.\<close>

definition usize_add :: "build \<Rightarrow> usize \<Rightarrow> usize \<Rightarrow> usize res" where
  "usize_add cfg a b =
     (if debug_assertions cfg \<and> unat a + unat b \<ge> 2 ^ 64
      then Inl (Overflow ''attempt to add with overflow'') else Inr (a + b))"

lemma unat_add_usize [usize_simps]: "unat (a + b :: usize) = (unat a + unat b) mod 2 ^ 64"
  by (simp add: unat_word_ariths)

lemma usize_add_fits:
  "unat a + unat b < 2 ^ 64 \<Longrightarrow> usize_add cfg a b = Inr (a + b) \<and> unat (a + b) = unat a + unat b"
  by (simp add: usize_add_def usize_simps)

lemma unat_of_nat_usize [usize_simps]: "n < 2 ^ 64 \<Longrightarrow> unat (of_nat n :: usize) = n"
  by (simp add: unat_of_nat)

lemma unat_usize_lt [simp]: "unat (a :: usize) < 2 ^ 64"
  using unsigned_less [of a] by simp

section \<open>Mutexes\<close>

text \<open>
  A \<open>std::sync::Mutex\<close>: whether some thread holds it, whether a panic poisoned it, and its data.
  A critical section of the binding contains no blocking call, so it is one atomic step: it reads
  the data and leaves it updated, and the lock is free again after it. \<open>try_lock().expect(msg)\<close>
  panics when the lock is held or poisoned; \<open>lock().unwrap()\<close> waits for the lock, so its section
  is taken when the lock is free, and panics when it is poisoned.
\<close>

record 'a mutex =
  mutex_held :: bool
  mutex_poisoned :: bool
  mutex_data :: 'a

definition mutex_new :: "'a \<Rightarrow> 'a mutex" where
  "mutex_new x = \<lparr>mutex_held = False, mutex_poisoned = False, mutex_data = x\<rparr>"

definition mutex_free :: "'a mutex \<Rightarrow> bool" where
  "mutex_free m \<longleftrightarrow> \<not> mutex_held m \<and> \<not> mutex_poisoned m"

definition try_lock_expect :: "string \<Rightarrow> 'a mutex \<Rightarrow> 'a res" where
  "try_lock_expect msg m =
     (if mutex_held m \<or> mutex_poisoned m then Inl (Panic msg) else Inr (mutex_data m))"

definition lock_unwrap :: "'a mutex \<Rightarrow> 'a res" where
  "lock_unwrap m = (if mutex_poisoned m then Inl (Panic ''PoisonError'') else Inr (mutex_data m))"

lemma mutex_new_simps [simp]:
  "mutex_data (mutex_new x) = x" "mutex_free (mutex_new x)"
  by (simp_all add: mutex_new_def mutex_free_def)

lemma try_lock_expect_free [simp, res_simps]:
  "mutex_free m \<Longrightarrow> try_lock_expect msg m = Inr (mutex_data m)"
  by (simp add: try_lock_expect_def mutex_free_def)

lemma try_lock_expect_Inr [res_simps]:
  "try_lock_expect msg m = Inr x \<longleftrightarrow> mutex_free m \<and> x = mutex_data m"
  by (auto simp: try_lock_expect_def mutex_free_def)

lemma lock_unwrap_free [simp, res_simps]:
  "mutex_free m \<Longrightarrow> lock_unwrap m = Inr (mutex_data m)"
  by (simp add: lock_unwrap_def mutex_free_def)

lemma mutex_free_update [simp]: "mutex_free (m\<lparr>mutex_data := x\<rparr>) = mutex_free m"
  by (simp add: mutex_free_def)

section \<open>Lists\<close>

lemma concat_snoc [simp]: "concat (xss @ [xs]) = concat xss @ xs"
  by simp

end
