(* ===== verification/Abi.thy ===== *)
theory Abi
  imports Prelude
begin

text \<open>
  The first half of \<open>mmtk/src/abi.rs\<close>: the constants shared with C, byte-addressed memory, the hidden
  header (\<open>HiddenHeader\<close>) and the layout of a Ruby object (\<open>RubyObjectAccess\<close>).
\<close>

section \<open>Constants\<close>

definition OBJREF_OFFSET :: usize where
  "OBJREF_OFFSET = 8"

definition MIN_OBJ_ALIGN :: usize where
  "MIN_OBJ_ALIGN = 8"

definition GC_THREAD_KIND_WORKER :: int where
  "GC_THREAD_KIND_WORKER = 1"

definition HIDDEN_SIZE_MASK :: usize where
  "HIDDEN_SIZE_MASK = 0x0000FFFFFFFFFFFF"

definition RUBY_FL_EXIVAR :: usize where
  "RUBY_FL_EXIVAR = push_bit 10 1"

lemma HIDDEN_SIZE_MASK_mask: "HIDDEN_SIZE_MASK = mask 48"
  by (simp add: HIDDEN_SIZE_MASK_def mask_eq_exp_minus_1)

section \<open>Memory\<close>

text \<open>The address space, byte by byte, and the little-endian load of a \<open>usize\<close>.\<close>

type_synonym memory = "address \<Rightarrow> byte"

definition load_bytes :: "memory \<Rightarrow> address \<Rightarrow> nat \<Rightarrow> byte list" where
  "load_bytes m a n = map (\<lambda>i. m (a + of_nat i)) [0..<n]"

primrec le_word :: "byte list \<Rightarrow> usize" where
  "le_word [] = 0"
| "le_word (b # bs) = ucast b OR push_bit 8 (le_word bs)"

primrec le_bytes :: "nat \<Rightarrow> usize \<Rightarrow> byte list" where
  "le_bytes 0 w = []"
| "le_bytes (Suc n) w = ucast w # le_bytes n (drop_bit 8 w)"

definition load_usize :: "memory \<Rightarrow> address \<Rightarrow> usize" where
  "load_usize m a = le_word (load_bytes m a 8)"

definition store_usize :: "address \<Rightarrow> usize \<Rightarrow> memory \<Rightarrow> memory" where
  "store_usize a w m =
     (\<lambda>b. if unat (b - a) < 8 then le_bytes 8 w ! unat (b - a) else m b)"

lemma load_bytes_cong:
  "(\<And>i. i < n \<Longrightarrow> m (a + of_nat i) = m' (a' + of_nat i)) \<Longrightarrow> load_bytes m a n = load_bytes m' a' n"
  by (simp add: load_bytes_def)

lemma load_usize_cong:
  "(\<And>i. i < 8 \<Longrightarrow> m (a + of_nat i) = m' (a' + of_nat i)) \<Longrightarrow> load_usize m a = load_usize m' a'"
  unfolding load_usize_def by (metis load_bytes_cong)

lemma length_le_bytes [simp]: "length (le_bytes n w) = n"
  by (induction n arbitrary: w) auto

lemma le_word_le_bytes: "le_word (le_bytes n w) = take_bit (8 * n) w"
proof (induction n arbitrary: w)
  case 0
  then show ?case by simp
next
  case (Suc n)
  show ?case
    by (rule bit_word_eqI) (auto simp: Suc bit_simps)
qed

lemma load_store_usize: "load_usize (store_usize a w m) a = w"
proof -
  have "load_bytes (store_usize a w m) a 8 = map (\<lambda>i. le_bytes 8 w ! i) [0..<8]"
    unfolding load_bytes_def store_usize_def
    by (rule map_cong) (auto simp: usize_simps)
  also have "\<dots> = le_bytes 8 w"
    by (metis length_le_bytes map_nth)
  finally show ?thesis
    by (simp add: load_usize_def le_word_le_bytes take_bit_word_eq_self)
qed

section \<open>The hidden header\<close>

record hidden_header =
  prefix :: usize

definition is_sane :: "hidden_header \<Rightarrow> bool" where
  "is_sane h \<longleftrightarrow> prefix h AND NOT HIDDEN_SIZE_MASK = 0"

definition assert_sane :: "build \<Rightarrow> hidden_header \<Rightarrow> unit res" where
  "assert_sane cfg h = extra_assert cfg (is_sane h) ''Hidden header is corrupted''"

definition header_payload_size :: "build \<Rightarrow> hidden_header \<Rightarrow> usize res" where
  "header_payload_size cfg h =
     bind_res (assert_sane cfg h) (\<lambda>_. Inr (prefix h AND HIDDEN_SIZE_MASK))"

lemma unat_and_size_mask: "unat (w AND HIDDEN_SIZE_MASK) = unat w mod 2 ^ 48"
proof -
  have "unat (w AND HIDDEN_SIZE_MASK) = take_bit 48 (unat w)"
    by (simp add: HIDDEN_SIZE_MASK_mask take_bit_eq_mask [symmetric] unsigned_take_bit_eq)
  then show ?thesis by (simp add: take_bit_eq_mod)
qed

lemma is_sane_iff_and: "is_sane h \<longleftrightarrow> prefix h AND HIDDEN_SIZE_MASK = prefix h"
proof -
  have "prefix h = (prefix h AND HIDDEN_SIZE_MASK) OR (prefix h AND NOT HIDDEN_SIZE_MASK)"
    by (metis bit.conj_disj_distrib bit.disj_cancel_right word_and_max)
  moreover have "w AND NOT HIDDEN_SIZE_MASK = 0" if "w AND HIDDEN_SIZE_MASK = w" for w :: usize
    using that by (metis and_zero_eq bit.conj_cancel_right and.assoc)
  ultimately show ?thesis
    unfolding is_sane_def by (metis or.right_neutral)
qed

lemma is_sane_iff: "is_sane h \<longleftrightarrow> unat (prefix h) < 2 ^ 48"
proof -
  have "prefix h AND HIDDEN_SIZE_MASK = prefix h \<longleftrightarrow> unat (prefix h) mod 2 ^ 48 = unat (prefix h)"
    by (simp only: word_unat_eq_iff unat_and_size_mask)
  then show ?thesis
    by (metis is_sane_iff_and mod_less mod_less_divisor zero_less_numeral zero_less_power)
qed

section \<open>The layout of a Ruby object\<close>

text \<open>
  An accessor is the object reference it wraps. \<open>suffix_size\<close> is the global
  \<open>BINDING_FAST_MUT.suffix_size\<close>, an argument here. Address arithmetic is word arithmetic, as
  \<open>Address::add\<close> and \<open>Address::sub\<close> on a transparent \<open>usize\<close>.
\<close>

record ruby_object_access =
  acc_objref :: objref

definition from_objref :: "objref \<Rightarrow> ruby_object_access" where
  "from_objref o' = \<lparr>acc_objref = o'\<rparr>"

definition prefix_size :: usize where
  "prefix_size = OBJREF_OFFSET"

definition obj_start :: "ruby_object_access \<Rightarrow> address" where
  "obj_start acc = acc_objref acc - prefix_size"

definition payload_addr :: "ruby_object_access \<Rightarrow> address" where
  "payload_addr acc = acc_objref acc"

definition hidden_header_of :: "memory \<Rightarrow> ruby_object_access \<Rightarrow> hidden_header" where
  "hidden_header_of m acc = \<lparr>prefix = load_usize m (obj_start acc)\<rparr>"

definition payload_size :: "build \<Rightarrow> memory \<Rightarrow> ruby_object_access \<Rightarrow> usize res" where
  "payload_size cfg m acc = header_payload_size cfg (hidden_header_of m acc)"

definition suffix_addr :: "build \<Rightarrow> memory \<Rightarrow> ruby_object_access \<Rightarrow> address res" where
  "suffix_addr cfg m acc =
     bind_res (payload_size cfg m acc) (\<lambda>n. Inr (acc_objref acc + n))"

definition obj_end :: "build \<Rightarrow> usize \<Rightarrow> memory \<Rightarrow> ruby_object_access \<Rightarrow> address res" where
  "obj_end cfg suffix_size m acc =
     bind_res (suffix_addr cfg m acc) (\<lambda>a. Inr (a + suffix_size))"

definition load_flags :: "memory \<Rightarrow> ruby_object_access \<Rightarrow> usize" where
  "load_flags m acc = load_usize m (acc_objref acc)"

definition has_exivar_flag :: "memory \<Rightarrow> ruby_object_access \<Rightarrow> bool" where
  "has_exivar_flag m acc \<longleftrightarrow> load_flags m acc AND RUBY_FL_EXIVAR \<noteq> 0"

text \<open>\<open>object_size\<close> adds \<open>usize\<close> values, which the dev profile checks for overflow.\<close>

definition object_size :: "build \<Rightarrow> usize \<Rightarrow> memory \<Rightarrow> ruby_object_access \<Rightarrow> usize res" where
  "object_size cfg suffix_size m acc =
     bind_res (payload_size cfg m acc) (\<lambda>n.
     bind_res (usize_add cfg prefix_size n) (\<lambda>t. usize_add cfg t suffix_size))"

lemma payload_size_cases:
  "payload_size cfg m acc =
     (if (debug_assertions cfg \<or> extra_assert_feature cfg) \<and> \<not> is_sane (hidden_header_of m acc)
      then Inl (AssertFailed ''Hidden header is corrupted'')
      else Inr (load_usize m (obj_start acc) AND HIDDEN_SIZE_MASK))"
  by (auto simp: payload_size_def header_payload_size_def assert_sane_def extra_assert_def
      assert_def hidden_header_of_def)

lemma payload_size_bound: "payload_size cfg m acc = Inr n \<Longrightarrow> unat n < 2 ^ 48"
  by (auto simp: payload_size_cases unat_and_size_mask split: if_splits)

lemma object_size_fits:
  assumes n: "payload_size cfg m acc = Inr n" and s: "unat s < 2 ^ 63"
  shows "\<exists>t. object_size cfg s m acc = Inr t \<and> unat t = 8 + unat n + unat s"
proof -
  have p: "unat prefix_size = 8"
    by (simp add: prefix_size_def OBJREF_OFFSET_def)
  have "unat n < 2 ^ 48"
    using n by (rule payload_size_bound)
  then have b: "unat prefix_size + unat n < 2 ^ 64" "8 + unat n + unat s < 2 ^ 64"
    using s p by simp_all
  note fst_add = usize_add_fits [OF b(1), of cfg]
  then have "unat (prefix_size + n) + unat s < 2 ^ 64"
    using b(2) p by simp
  note snd_add = usize_add_fits [OF this, of cfg]
  show ?thesis
    using n fst_add snd_add p by (simp add: object_size_def)
qed

section \<open>Properties\<close>

text \<open>
  The hidden header is sane exactly when its value fits in 48 bits. Reading the payload size of a sane
  header gives that value in every build; of a corrupted one it panics where the extra assertions are
  compiled in and gives the low 48 bits elsewhere.
\<close>

theorem hidden_header_size:
  "(is_sane h \<longleftrightarrow> unat (prefix h) < 2 ^ 48) \<and>
   (case header_payload_size cfg h of
      Inl e \<Rightarrow> (debug_assertions cfg \<or> extra_assert_feature cfg) \<and> \<not> unat (prefix h) < 2 ^ 48
    | Inr n \<Rightarrow> unat n = unat (prefix h) mod 2 ^ 48)"
  using is_sane_iff [of h]
  by (auto simp: header_payload_size_def assert_sane_def extra_assert_def assert_def unat_and_size_mask)

text \<open>
  The layout of an object: where its size is readable, prefix, payload and suffix follow one another
  without gap, the size is their sum without overflow, and the end is the start plus the size.
\<close>

theorem object_layout:
  assumes "payload_size cfg m acc = Inr n" and "unat s < 2 ^ 63"
  shows "\<exists>t. object_size cfg s m acc = Inr t \<and> unat t = 8 + unat n + unat s \<and>
    payload_addr acc = obj_start acc + prefix_size \<and>
    suffix_addr cfg m acc = Inr (payload_addr acc + n) \<and>
    obj_end cfg s m acc = Inr (obj_start acc + t)"
proof -
  obtain t where t: "object_size cfg s m acc = Inr t" "unat t = 8 + unat n + unat s"
    using object_size_fits [OF assms] by blast
  then have "t = prefix_size + n + s"
    using assms(1) by (auto simp: object_size_def usize_add_def split: if_splits)
  then show ?thesis
    using t assms(1) by (simp add: payload_addr_def obj_start_def suffix_addr_def obj_end_def)
qed

theorem object_layout_witness:
  "obj_end release_build 8 (store_usize 992 40 (\<lambda>_. 0)) (from_objref 1000) = Inr 1048"
proof -
  have "payload_size release_build (store_usize 992 40 (\<lambda>_. 0)) (from_objref 1000) = Inr 40"
    using load_store_usize [of 992 40 "\<lambda>_. 0"]
    by (simp add: payload_size_cases obj_start_def from_objref_def prefix_size_def OBJREF_OFFSET_def
        HIDDEN_SIZE_MASK_def)
  from object_layout [OF this, of 8] obtain t where "unat t = 56"
    "obj_end release_build 8 (store_usize 992 40 (\<lambda>_. 0)) (from_objref 1000) =
      Inr (obj_start (from_objref 1000) + t)"
    by auto
  moreover have "t = 56"
    using \<open>unat t = 56\<close> by (simp add: word_unat_eq_iff)
  ultimately show ?thesis
    by (simp add: obj_start_def from_objref_def prefix_size_def OBJREF_OFFSET_def)
qed

end
