(* ===== verification/Closure.thy ===== *)
theory Closure
  imports Abi
begin

text \<open>
  The object closure of \<open>mmtk/src/abi.rs\<close>: what a GC thread lends to the Ruby VM so that VM code
  can report the objects it visits (\<open>ObjectClosure\<close>), and the thread-local record that holds it
  (\<open>GCThreadTLS\<close>). The locale \<open>visitor_host\<close> is the contract the scanning, pinning and weak-table
  code relies on; the closure of the source interprets it.
\<close>

section \<open>VM code that calls back\<close>

text \<open>
  An upcall runs Ruby VM code, which may call the object closure of the GC thread with an object
  and a pin flag, go on with the object reference it gets back, and in the end returns. \<open>VM_visit\<close>
  is one such call with its continuation. The VM code itself is a parameter of the model.
\<close>

datatype 'r vmcode = VM_done 'r | VM_visit objref bool "objref \<Rightarrow> 'r vmcode"

primrec vm_bind :: "'r vmcode \<Rightarrow> ('r \<Rightarrow> 't vmcode) \<Rightarrow> 't vmcode" where
  "vm_bind (VM_done r) f = f r"
| "vm_bind (VM_visit ob pin k) f = VM_visit ob pin (\<lambda>x. vm_bind (k x) f)"

text \<open>The calls of VM code to a closure that answers every object with itself, and its result.\<close>

primrec visits :: "'r vmcode \<Rightarrow> (objref \<times> bool) list" where
  "visits (VM_done r) = []"
| "visits (VM_visit ob pin k) = (ob, pin) # visits (k ob)"

primrec vm_result :: "'r vmcode \<Rightarrow> 'r" where
  "vm_result (VM_done r) = r"
| "vm_result (VM_visit ob pin k) = vm_result (k ob)"

lemma visits_vm_bind [simp]: "visits (vm_bind c f) = visits c @ visits (f (vm_result c))"
  by (induction c) auto

lemma vm_result_vm_bind [simp]: "vm_result (vm_bind c f) = vm_result (f (vm_result c))"
  by (induction c) auto

section \<open>The object closure\<close>

text \<open>
  A visitor is the Rust closure behind \<open>rust_closure\<close>: it gets the object and the pin flag and may
  read and write its captured environment, of type \<open>'s\<close>. (Its worker argument is ignored by every
  closure of the binding.) \<open>c_function\<close> says which of the two C functions is installed.
\<close>

type_synonym 's visitor = "objref \<Rightarrow> bool \<Rightarrow> 's \<Rightarrow> (objref \<times> 's) res"

datatype closure_function = C_function_registered | C_function_unregistered

record 's object_closure =
  c_function :: closure_function
  rust_closure :: "'s visitor option"

definition object_closure_default :: "'s object_closure" where
  "object_closure_default = \<lparr>c_function = C_function_unregistered, rust_closure = None\<rparr>"

definition c_function_registered :: "'s visitor option \<Rightarrow> 's visitor" where
  "c_function_registered rc ob pin s =
     (case rc of None \<Rightarrow> Inl (UB ''null rust_closure'') | Some visit \<Rightarrow> visit ob pin s)"

definition c_function_unregistered :: "'s visitor option \<Rightarrow> 's visitor" where
  "c_function_unregistered rc ob pin s = Inl (Panic ''object_closure is not set.'')"

text \<open>The VM's call through the two fields of the closure.\<close>

definition call_object_closure :: "'s object_closure \<Rightarrow> 's visitor" where
  "call_object_closure oc ob pin s =
     (case c_function oc of
        C_function_registered \<Rightarrow> c_function_registered (rust_closure oc) ob pin s
      | C_function_unregistered \<Rightarrow> c_function_unregistered (rust_closure oc) ob pin s)"

text \<open>
  \<open>set_temporarily_and_run_code\<close>. The code \<open>f\<close> gets the closure object as it is while \<open>f\<close> runs and
  may leave it changed (a nested call would); whatever it leaves is overwritten by the default.
\<close>

definition set_temporarily_and_run_code ::
  "build \<Rightarrow> 's object_closure \<Rightarrow> 's visitor \<Rightarrow>
   ('s object_closure \<Rightarrow> 's \<Rightarrow> ('t \<times> 's object_closure \<times> 's) res) \<Rightarrow>
   's \<Rightarrow> ('t \<times> 's object_closure \<times> 's) res" where
  "set_temporarily_and_run_code cfg self visit_object f s =
     bind_res (debug_assert cfg (c_function self = C_function_unregistered)
       ''set_temporarily_and_run_code is recursively called.'') (\<lambda>_.
     bind_res (f (self\<lparr>c_function := C_function_registered, rust_closure := Some visit_object\<rparr>) s)
       (\<lambda>(result, _, s'). Inr (result, object_closure_default, s')))"

primrec run_vm_code :: "'r vmcode \<Rightarrow> 's object_closure \<Rightarrow> 's \<Rightarrow> ('r \<times> 's object_closure \<times> 's) res" where
  "run_vm_code (VM_done r) oc s = Inr (r, oc, s)"
| "run_vm_code (VM_visit ob pin k) oc s =
     bind_res (call_object_closure oc ob pin s) (\<lambda>(x, s'). run_vm_code (k x) oc s')"

text \<open>Reference: VM code run directly against a visitor, without the closure object.\<close>

primrec run_visitor :: "'s visitor \<Rightarrow> 'r vmcode \<Rightarrow> 's \<Rightarrow> ('r \<times> 's) res" where
  "run_visitor visit (VM_done r) s = Inr (r, s)"
| "run_visitor visit (VM_visit ob pin k) s =
     bind_res (visit ob pin s) (\<lambda>(x, s'). run_visitor visit (k x) s')"

lemma call_object_closure_simps [simp]:
  "call_object_closure \<lparr>c_function = C_function_registered, rust_closure = Some visit\<rparr> = visit"
  "call_object_closure object_closure_default ob pin s = Inl (Panic ''object_closure is not set.'')"
  by (simp_all add: call_object_closure_def c_function_registered_def c_function_unregistered_def
      object_closure_default_def fun_eq_iff)

lemma run_vm_code_registered:
  "run_vm_code c \<lparr>c_function = C_function_registered, rust_closure = Some visit\<rparr> s =
     bind_res (run_visitor visit c s)
       (\<lambda>(r, s'). Inr (r, \<lparr>c_function = C_function_registered, rust_closure = Some visit\<rparr>, s'))"
  by (induction c arbitrary: s) (auto simp: bind_res_assoc split: prod.splits intro: bind_res_cong)

lemma run_vm_code_installed:
  "run_vm_code c (oc\<lparr>c_function := C_function_registered, rust_closure := Some visit\<rparr>) s =
     bind_res (run_visitor visit c s)
       (\<lambda>(r, s'). Inr (r, oc\<lparr>c_function := C_function_registered, rust_closure := Some visit\<rparr>, s'))"
  using run_vm_code_registered [of c visit s] by (cases oc) simp

lemma set_temporarily_runs_visitor:
  "set_temporarily_and_run_code cfg object_closure_default visit (run_vm_code c) s =
     bind_res (run_visitor visit c s) (\<lambda>(r, s'). Inr (r, object_closure_default, s'))"
  by (auto simp: set_temporarily_and_run_code_def object_closure_default_def run_vm_code_registered
      bind_res_assoc split: prod.splits intro: bind_res_cong)

lemma run_visitor_vm_bind:
  "run_visitor visit (vm_bind c f) s =
     bind_res (run_visitor visit c s) (\<lambda>(r, s'). run_visitor visit (f r) s')"
  by (induction c arbitrary: s) (auto simp: bind_res_assoc split: prod.splits intro: bind_res_cong)

text \<open>What a client gets from the closure: VM code runs against its visitor.\<close>

definition run_with_closure ::
  "build \<Rightarrow> 's object_closure \<Rightarrow> 's visitor \<Rightarrow> 'r vmcode \<Rightarrow> 's \<Rightarrow> ('r \<times> 's) res" where
  "run_with_closure cfg self visit_object c s =
     bind_res (set_temporarily_and_run_code cfg self visit_object (run_vm_code c) s)
       (\<lambda>(r, _, s'). Inr (r, s'))"

lemma run_with_closure_default:
  "run_with_closure cfg object_closure_default visit c s = run_visitor visit c s"
  by (cases "run_visitor visit c s")
    (auto simp: run_with_closure_def set_temporarily_runs_visitor)

section \<open>The contract of a visitor host\<close>

text \<open>
  A client of the closure relies on two laws: code that makes no call leaves the environment alone,
  and each call goes to the client's visitor, whose answer the code continues with.
\<close>

locale visitor_host =
  fixes run :: "'s visitor \<Rightarrow> 'r vmcode \<Rightarrow> 's \<Rightarrow> ('r \<times> 's) res"
  assumes run_done: "run visit (VM_done r) s = Inr (r, s)"
    and run_visit: "run visit (VM_visit ob pin k) s =
      bind_res (visit ob pin s) (\<lambda>(x, s'). run visit (k x) s')"
begin

text \<open>A visitor that answers with the object itself sees exactly the visits of the code, in order.\<close>

lemma run_identity:
  "(\<And>ob pin s. (ob, pin) \<in> set (visits c) \<Longrightarrow> visit ob pin s = Inr (ob, g ob pin s)) \<Longrightarrow>
   run visit c s = Inr (vm_result c, fold (\<lambda>(ob, pin). g ob pin) (visits c) s)"
  by (induction c arbitrary: s) (auto simp: run_done run_visit)

text \<open>A property of the environment that every call keeps holds when the code returns.\<close>

lemma run_invariant:
  assumes "run visit c s = Inr (r, s')" and "I s"
    and "\<And>ob pin s x s'. visit ob pin s = Inr (x, s') \<Longrightarrow> I s \<Longrightarrow> I s'"
  shows "I s'"
  using assms(1,2)
proof (induction c arbitrary: s)
  case (VM_done r')
  then show ?case by (simp add: run_done)
next
  case (VM_visit ob pin k)
  then obtain x t where "visit ob pin s = Inr (x, t)" "run visit (k x) t = Inr (r, s')"
    by (auto simp: run_visit bind_res_eq_Inr)
  with VM_visit.IH [of "k x" t] VM_visit.prems(2) assms(3) show ?case
    by blast
qed

text \<open>If a call panics, so does the run: a panic of the visitor is never swallowed.\<close>

lemma run_first_panic:
  "visit ob pin s = Inl e \<Longrightarrow> run visit (VM_visit ob pin k) s = Inl e"
  by (simp add: run_visit)

end

interpretation closure_host: visitor_host "run_with_closure cfg object_closure_default" for cfg
  by unfold_locales (auto simp: run_with_closure_default)

section \<open>Reentrancy\<close>

text \<open>
  A nested call as code \<open>f\<close> of an outer one: the inner call on the same closure object, then the
  rest of the outer VM code on whatever closure object the inner call left.
\<close>

definition nested_code ::
  "build \<Rightarrow> 's visitor \<Rightarrow> 'u vmcode \<Rightarrow> 'r vmcode \<Rightarrow>
   's object_closure \<Rightarrow> 's \<Rightarrow> ('r \<times> 's object_closure \<times> 's) res" where
  "nested_code cfg inner_visit inner_code rest oc s =
     bind_res (set_temporarily_and_run_code cfg oc inner_visit (run_vm_code inner_code) s)
       (\<lambda>(_, oc', s'). run_vm_code rest oc' s')"

lemma nested_code_debug:
  "debug_assertions cfg \<Longrightarrow>
   set_temporarily_and_run_code cfg object_closure_default visit
     (nested_code cfg inner_visit inner_code rest) s =
   Inl (AssertFailed ''set_temporarily_and_run_code is recursively called.'')"
  by (simp add: set_temporarily_and_run_code_def nested_code_def object_closure_default_def
      debug_assert_def)

lemma nested_code_release:
  fixes inner_visit :: "'s visitor"
  assumes "\<not> debug_assertions cfg"
  shows "set_temporarily_and_run_code cfg object_closure_default visit
     (nested_code cfg inner_visit inner_code rest) s =
   bind_res (run_visitor inner_visit inner_code s) (\<lambda>(_, s').
     case rest of
       VM_done r \<Rightarrow> Inr (r, object_closure_default, s')
     | VM_visit ob pin k \<Rightarrow> Inl (Panic ''object_closure is not set.''))"
proof -
  have "set_temporarily_and_run_code cfg oc inner_visit (run_vm_code inner_code) s =
      bind_res (run_visitor inner_visit inner_code s)
        (\<lambda>(r, s'). Inr (r, object_closure_default, s'))" for oc :: "'s object_closure"
    using assms by (auto simp: set_temporarily_and_run_code_def debug_assert_def
        run_vm_code_installed bind_res_assoc split: prod.splits intro!: bind_res_cong)
  then show ?thesis
    using assms
    by (cases rest)
      (auto simp: set_temporarily_and_run_code_def [of cfg object_closure_default] nested_code_def
        debug_assert_def bind_res_assoc split: prod.splits intro!: bind_res_cong)
qed

section \<open>Thread-local storage of GC threads\<close>

text \<open>
  \<open>VMWorkerThread\<close> is an opaque pointer to the \<open>GCThreadTLS\<close>; \<open>tls_mem\<close> maps the pointers that are
  valid to the record they point to. The \<open>transmute\<close>s between the pointer types are the identity.
\<close>

type_synonym vm_worker_thread = address

record 's gc_thread_tls =
  kind :: int
  gc_context :: address
  object_closure :: "'s object_closure"

definition gc_thread_tls_new :: "int \<Rightarrow> address \<Rightarrow> 's gc_thread_tls" where
  "gc_thread_tls_new k ctx =
     \<lparr>kind = k, gc_context = ctx, object_closure = object_closure_default\<rparr>"

definition for_worker :: "address \<Rightarrow> 's gc_thread_tls" where
  "for_worker gc_ctx = gc_thread_tls_new GC_THREAD_KIND_WORKER gc_ctx"

definition from_vwt :: "vm_worker_thread \<Rightarrow> address" where
  "from_vwt vwt = vwt"

definition to_vwt :: "address \<Rightarrow> vm_worker_thread" where
  "to_vwt ptr = ptr"

definition check_cast ::
  "build \<Rightarrow> (address \<rightharpoonup> 's gc_thread_tls) \<Rightarrow> address \<Rightarrow> 's gc_thread_tls res" where
  "check_cast cfg tls_mem ptr =
     bind_res (assert (ptr \<noteq> 0) ''!ptr.is_null()'') (\<lambda>_.
     case tls_mem ptr of
       None \<Rightarrow> Inl (UB ''invalid GCThreadTLS pointer'')
     | Some result \<Rightarrow>
         bind_res (debug_assert cfg (kind result = GC_THREAD_KIND_WORKER) ''kind'')
           (\<lambda>_. Inr result))"

definition from_vwt_check ::
  "build \<Rightarrow> (address \<rightharpoonup> 's gc_thread_tls) \<Rightarrow> vm_worker_thread \<Rightarrow> 's gc_thread_tls res" where
  "from_vwt_check cfg tls_mem vwt = check_cast cfg tls_mem (from_vwt vwt)"

definition from_upcall_check ::
  "build \<Rightarrow> (address \<rightharpoonup> 's gc_thread_tls) \<Rightarrow> address \<Rightarrow> 's gc_thread_tls res" where
  "from_upcall_check cfg tls_mem upcall_ptr = check_cast cfg tls_mem upcall_ptr"

definition tls_worker :: "'s gc_thread_tls \<Rightarrow> address res" where
  "tls_worker tls =
     bind_res (assert (kind tls = GC_THREAD_KIND_WORKER) ''self.kind == GC_THREAD_KIND_WORKER'')
       (\<lambda>_. Inr (gc_context tls))"

text \<open>The state of a GC thread between work packets: a valid record with the default closure.\<close>

definition idle_gc_thread :: "(address \<rightharpoonup> 's gc_thread_tls) \<Rightarrow> vm_worker_thread \<Rightarrow> bool" where
  "idle_gc_thread tls_mem vwt \<longleftrightarrow> vwt \<noteq> 0 \<and>
     (\<exists>tls. tls_mem vwt = Some tls \<and> kind tls = GC_THREAD_KIND_WORKER \<and>
       object_closure tls = object_closure_default)"

lemma idle_from_vwt_check:
  assumes "idle_gc_thread tls_mem vwt"
  obtains tls where "from_vwt_check cfg tls_mem vwt = Inr tls"
    "object_closure tls = object_closure_default" "kind tls = GC_THREAD_KIND_WORKER"
  using assms by (auto simp: idle_gc_thread_def from_vwt_check_def check_cast_def from_vwt_def)

lemma idle_for_worker: "ptr \<noteq> 0 \<Longrightarrow> idle_gc_thread (m(ptr \<mapsto> for_worker ctx)) (to_vwt ptr)"
  by (simp add: idle_gc_thread_def for_worker_def gc_thread_tls_new_def to_vwt_def)

section \<open>Properties\<close>

text \<open>
  C34. Running VM code under the object closure of an idle GC thread is running it directly against the
  visitor: every call of the VM reaches the visitor with its object and pin flag, the VM gets the
  visitor's answer, a panic of the visitor is a panic of the whole call, and afterwards the closure is
  the default one again, so that the thread is idle again.
\<close>

theorem closure_runs_visitor:
  "set_temporarily_and_run_code cfg (object_closure (for_worker ctx)) visit (run_vm_code c) s =
     bind_res (run_visitor visit c s) (\<lambda>(r, s'). Inr (r, object_closure (for_worker ctx), s'))"
  using set_temporarily_runs_visitor [of cfg visit c s]
  by (simp add: for_worker_def gc_thread_tls_new_def)

text \<open>
  C35. The closure is not reentrant: a nested call trips the assertion in a build with debug assertions;
  without them the inner call resets the closure, so that the outer code panics at its next visit and
  finishes only if it makes none.
\<close>

theorem nested_closure_call:
  "set_temporarily_and_run_code cfg object_closure_default visit
     (nested_code cfg inner_visit inner_code rest) s =
   (if debug_assertions cfg
    then Inl (AssertFailed ''set_temporarily_and_run_code is recursively called.'')
    else bind_res (run_visitor inner_visit inner_code s) (\<lambda>(_, s').
      case rest of
        VM_done r \<Rightarrow> Inr (r, object_closure_default, s')
      | VM_visit ob pin k \<Rightarrow> Inl (Panic ''object_closure is not set.'')))"
  by (simp add: nested_code_debug nested_code_release)

end
