(* ===== verification/Upcalls.thy ===== *)
theory Upcalls
  imports Closure
begin

text \<open>
  The outside of the binding as it appears in \<open>mmtk/src/abi.rs\<close> and in the calls to the \<open>mmtk\<close>
  crate: the options the VM passes in (\<open>RubyBindingOptions\<close>), the table of VM functions
  (\<open>RubyUpcalls\<close>), and the functions of mmtk-core the binding calls. Neither the VM nor mmtk-core is
  part of the repository: their states are the type variables \<open>'v\<close> and \<open>'m\<close>, and each function is a
  field of a record which the definitions that use it take as an argument. The contracts at the end
  state the documented behaviour some theorems rely on. \<open>RawVecOfObjRef\<close>, the vector handed over to
  C, is here too.
\<close>

section \<open>Options and upcalls\<close>

record ruby_binding_options =
  ractor_check_mode :: bool
  opt_suffix_size :: usize

text \<open>
  An upcall that may call the object closure yields VM code that returns the VM state; one that
  only reads the VM state is a function of it; \<open>*mut st_table\<close> is an address. \<open>get_mutators\<close> calls
  its callback once per mutator, in the order of the list.
\<close>

record 'v ruby_upcalls =
  up_init_gc_worker_thread :: "address \<Rightarrow> 'v \<Rightarrow> 'v"
  up_get_gc_thread_tls :: "'v \<Rightarrow> address"
  up_is_mutator :: "'v \<Rightarrow> bool"
  up_stop_the_world :: "vm_worker_thread \<Rightarrow> 'v \<Rightarrow> 'v"
  up_resume_mutators :: "vm_worker_thread \<Rightarrow> 'v \<Rightarrow> 'v"
  up_block_for_gc :: "address \<Rightarrow> 'v \<Rightarrow> 'v"
  up_number_of_mutators :: "'v \<Rightarrow> usize"
  up_get_mutators :: "'v \<Rightarrow> address list"
  up_scan_vm_roots :: "'v \<Rightarrow> 'v vmcode"
  up_scan_end_proc_roots :: "'v \<Rightarrow> 'v vmcode"
  up_scan_global_tbl_roots :: "'v \<Rightarrow> 'v vmcode"
  up_scan_yjit_roots :: "'v \<Rightarrow> 'v vmcode"
  up_scan_global_symbols_roots :: "'v \<Rightarrow> 'v vmcode"
  up_scan_finalizer_tbl_roots :: "'v \<Rightarrow> 'v vmcode"
  up_scan_obj_to_id_tbl_roots :: "'v \<Rightarrow> 'v vmcode"
  up_scan_misc_roots :: "'v \<Rightarrow> 'v vmcode"
  up_scan_final_jobs_roots :: "'v \<Rightarrow> 'v vmcode"
  up_scan_roots_in_mutator_thread :: "address \<Rightarrow> vm_worker_thread \<Rightarrow> 'v \<Rightarrow> 'v vmcode"
  up_is_no_longer_ppp :: "objref \<Rightarrow> 'v \<Rightarrow> bool"
  up_scan_object_ruby_style :: "objref \<Rightarrow> 'v \<Rightarrow> 'v vmcode"
  up_call_gc_mark_children :: "objref \<Rightarrow> 'v \<Rightarrow> 'v vmcode"
  up_call_obj_free :: "objref \<Rightarrow> 'v \<Rightarrow> 'v"
  up_cleanup_generic_iv_tbl :: "'v \<Rightarrow> 'v vmcode"
  up_get_original_givtbl :: "objref \<Rightarrow> 'v \<Rightarrow> address"
  up_move_givtbl :: "objref \<Rightarrow> objref \<Rightarrow> 'v \<Rightarrow> 'v"
  up_vm_live_bytes :: "'v \<Rightarrow> usize"
  up_update_frozen_strings_table :: "'v \<Rightarrow> 'v vmcode"
  up_update_finalizer_and_obj_id_tables :: "'v \<Rightarrow> 'v vmcode"
  up_update_global_symbols_table :: "'v \<Rightarrow> 'v vmcode"
  up_update_overloaded_cme_table :: "'v \<Rightarrow> 'v vmcode"
  up_update_ci_table :: "'v \<Rightarrow> 'v vmcode"
  up_get_generic_iv_tbl :: "'v \<Rightarrow> address"
  up_get_frozen_strings_table :: "'v \<Rightarrow> address"
  up_get_finalizer_table :: "'v \<Rightarrow> address"
  up_get_obj_to_id_table :: "'v \<Rightarrow> address"
  up_get_id_to_obj_table :: "'v \<Rightarrow> address"
  up_get_global_symbols_table :: "'v \<Rightarrow> address"
  up_get_overloaded_cme_table :: "'v \<Rightarrow> address"
  up_get_ci_table :: "'v \<Rightarrow> address"
  up_st_get_num_entries :: "address \<Rightarrow> 'v \<Rightarrow> usize"
  up_st_get_size_info :: "address \<Rightarrow> 'v \<Rightarrow> usize \<times> usize \<times> usize"
  up_st_update_entries_range ::
    "address \<Rightarrow> usize \<Rightarrow> usize \<Rightarrow> bool \<Rightarrow> bool \<Rightarrow> bool \<Rightarrow> 'v \<Rightarrow> usize \<times> 'v"
  up_st_update_bins_range :: "address \<Rightarrow> usize \<Rightarrow> usize \<Rightarrow> 'v \<Rightarrow> usize \<times> 'v"

section \<open>The functions of mmtk-core the binding calls\<close>

text \<open>
  \<open>mc_generational_nursery\<close> is \<open>plan.generational()\<close> with \<open>is_current_gc_nursery\<close> of the generational
  plan, where the plan is one.
\<close>

record 'm mmtk_core =
  mc_is_reachable :: "objref \<Rightarrow> 'm \<Rightarrow> bool"
  mc_is_live :: "objref \<Rightarrow> 'm \<Rightarrow> bool"
  mc_get_forwarded_object :: "objref \<Rightarrow> 'm \<Rightarrow> objref option"
  mc_current_gc_may_move_object :: "'m \<Rightarrow> bool"
  mc_generational_nursery :: "'m \<Rightarrow> bool option"
  mc_pin_object :: "objref \<Rightarrow> 'm \<Rightarrow> bool \<times> 'm"
  mc_unpin_object :: "objref \<Rightarrow> 'm \<Rightarrow> bool \<times> 'm"
  mc_is_mmtk_object :: "address \<Rightarrow> 'm \<Rightarrow> objref option"
  mc_trace_object :: "objref \<Rightarrow> 'm \<Rightarrow> objref \<times> 'm"
  mc_vo_bit_region_size :: "usize"

text \<open>
  \<open>pin_object\<close> and \<open>unpin_object\<close> are documented to change the pin state of the object and to return
  whether this call changed it. \<open>pinned\<close> reads the set of pinned objects off the core state.
\<close>

definition pin_contract :: "'m mmtk_core \<Rightarrow> ('m \<Rightarrow> objref set) \<Rightarrow> bool" where
  "pin_contract core pinned \<longleftrightarrow>
     (\<forall>ob m. fst (mc_pin_object core ob m) = (ob \<notin> pinned m) \<and>
             pinned (snd (mc_pin_object core ob m)) = insert ob (pinned m) \<and>
             fst (mc_unpin_object core ob m) = (ob \<in> pinned m) \<and>
             pinned (snd (mc_unpin_object core ob m)) = pinned m - {ob})"

lemma pin_contractD:
  assumes "pin_contract core pinned"
  shows "fst (mc_pin_object core ob m) = (ob \<notin> pinned m)"
    "pinned (snd (mc_pin_object core ob m)) = insert ob (pinned m)"
    "fst (mc_unpin_object core ob m) = (ob \<in> pinned m)"
    "pinned (snd (mc_unpin_object core ob m)) = pinned m - {ob}"
  using assms by (simp_all add: pin_contract_def)

text \<open>\<open>object.forward()\<close> of \<open>weak_proc.rs\<close>: the forwarded object, or the object itself.\<close>

definition forward :: "'m mmtk_core \<Rightarrow> 'm \<Rightarrow> objref \<Rightarrow> objref" where
  "forward core m ob = (case mc_get_forwarded_object core ob m of None \<Rightarrow> ob | Some n \<Rightarrow> n)"

text \<open>\<open>is_mmtk_object_safe\<close> of \<open>lib.rs\<close>; alignment is to the region size of the valid-object bits.\<close>

definition is_aligned_to :: "address \<Rightarrow> usize \<Rightarrow> bool" where
  "is_aligned_to a align \<longleftrightarrow> unat a mod unat align = 0"

definition is_mmtk_object_safe :: "'m mmtk_core \<Rightarrow> 'm \<Rightarrow> address \<Rightarrow> bool" where
  "is_mmtk_object_safe core m addr \<longleftrightarrow>
     addr \<noteq> 0 \<and> is_aligned_to addr (mc_vo_bit_region_size core) \<and>
     mc_is_mmtk_object core addr m \<noteq> None"

section \<open>Vectors handed over to C\<close>

text \<open>
  A Rust \<open>Vec\<close> owns its buffer. \<open>from_vec\<close> gives the buffer up without freeing it (\<open>ManuallyDrop\<close>),
  so it stays allocated and C holds the raw parts; \<open>into_vec\<close> takes the ownership back. \<open>leaked\<close>
  maps the buffers that no Rust value owns to their initialised elements and their capacity; a
  vector of capacity zero has no buffer. \<open>Vec::from_raw_parts\<close> is undefined on a pointer that is not
  an allocation, on another capacity, and on a length beyond the initialised elements.
\<close>

record rust_vec =
  vec_ptr :: address
  vec_items :: "objref list"
  vec_capa :: usize

record raw_vec_of_obj_ref =
  ptr :: address
  len :: usize
  capa :: usize

type_synonym leaked = "address \<rightharpoonup> objref list \<times> usize"

definition from_vec :: "rust_vec \<Rightarrow> leaked \<Rightarrow> raw_vec_of_obj_ref \<times> leaked" where
  "from_vec v leaked =
     (\<lparr>ptr = vec_ptr v, len = of_nat (length (vec_items v)), capa = vec_capa v\<rparr>,
      if vec_capa v = 0 then leaked else leaked(vec_ptr v \<mapsto> (vec_items v, vec_capa v)))"

definition into_vec :: "raw_vec_of_obj_ref \<Rightarrow> leaked \<Rightarrow> (rust_vec \<times> leaked) res" where
  "into_vec raw leaked =
     (if capa raw = 0 then
        (if len raw = 0 then Inr (\<lparr>vec_ptr = ptr raw, vec_items = [], vec_capa = 0\<rparr>, leaked)
         else Inl (UB ''Vec::from_raw_parts: len > capacity''))
      else case leaked (ptr raw) of
        None \<Rightarrow> Inl (UB ''Vec::from_raw_parts: not an allocation'')
      | Some (items, c) \<Rightarrow>
          if c = capa raw \<and> unat (len raw) \<le> length items
          then Inr (\<lparr>vec_ptr = ptr raw, vec_items = take (unat (len raw)) items,
                      vec_capa = capa raw\<rparr>, leaked(ptr raw := None))
          else Inl (UB ''Vec::from_raw_parts: length or capacity''))"

text \<open>A well-formed vector: it fits its capacity, and nobody else owns its buffer.\<close>

definition vec_ok :: "rust_vec \<Rightarrow> leaked \<Rightarrow> bool" where
  "vec_ok v leaked \<longleftrightarrow> length (vec_items v) \<le> unat (vec_capa v) \<and> leaked (vec_ptr v) = None"

lemma into_vec_from_vec:
  assumes "vec_ok v leaked" and "from_vec v leaked = (raw, leaked')"
  shows "into_vec raw leaked' = Inr (v, leaked)"
proof -
  have "length (vec_items v) < 2 ^ 64"
    using assms(1) unat_usize_lt [of "vec_capa v"] unfolding vec_ok_def by linarith
  then have "unat (of_nat (length (vec_items v)) :: usize) = length (vec_items v)"
    by (rule unat_of_nat_usize)
  then show ?thesis
    using assms by (cases v) (auto simp: vec_ok_def from_vec_def into_vec_def fun_upd_idem)
qed

lemma into_vec_twice:
  assumes "into_vec raw leaked = Inr (v, leaked')" and "capa raw \<noteq> 0"
  shows "into_vec raw leaked' = Inl (UB ''Vec::from_raw_parts: not an allocation'')"
  using assms by (auto simp: into_vec_def split: option.splits if_splits)

end
