(* ===== verification/After_All.thy ===== *)
theory After_All
  imports Prelude
begin

text \<open>
  The countdown latch \<open>AfterAll\<close> of \<open>mmtk/src/utils.rs\<close> and the work buckets it releases its packets
  to. Besides its operations the theory has the latch as the workers see it: a step relation in
  which the atomic actions of \<open>count_down\<close> (the \<open>fetch_sub\<close>, the take under the borrow, the
  \<open>bulk_add\<close>) of all workers interleave freely.
\<close>

section \<open>Work buckets\<close>

text \<open>
  The two stages of \<open>WorkBucketStage\<close> the binding adds packets to. mmtk-core opens the buckets in the
  order of the stages and runs the packets of an open bucket in any order.
\<close>

datatype work_bucket_stage = Prepare | VMRefClosure

instantiation work_bucket_stage :: linorder
begin

definition less_work_bucket_stage :: "work_bucket_stage \<Rightarrow> work_bucket_stage \<Rightarrow> bool" where
  "less_work_bucket_stage a b \<longleftrightarrow> a = Prepare \<and> b = VMRefClosure"

definition less_eq_work_bucket_stage :: "work_bucket_stage \<Rightarrow> work_bucket_stage \<Rightarrow> bool" where
  "less_eq_work_bucket_stage a b \<longleftrightarrow> a = Prepare \<or> b = VMRefClosure"

instance
  by standard
    (auto simp: less_work_bucket_stage_def less_eq_work_bucket_stage_def
      intro: work_bucket_stage.exhaust)

end

type_synonym 'p buckets = "work_bucket_stage \<Rightarrow> 'p list"

definition bulk_add :: "work_bucket_stage \<Rightarrow> 'p list \<Rightarrow> 'p buckets \<Rightarrow> 'p buckets" where
  "bulk_add st ps b = b(st := b st @ ps)"

definition add_packet :: "work_bucket_stage \<Rightarrow> 'p \<Rightarrow> 'p buckets \<Rightarrow> 'p buckets" where
  "add_packet st p b = bulk_add st [p] b"

lemma bulk_add_simps [simp]:
  "bulk_add st ps b st = b st @ ps" "st' \<noteq> st \<Longrightarrow> bulk_add st ps b st' = b st'"
  "bulk_add st [] b = b"
  by (simp_all add: bulk_add_def)

lemma bulk_add_bulk_add: "bulk_add st qs (bulk_add st ps b) = bulk_add st (ps @ qs) b"
  by (simp add: bulk_add_def)

section \<open>The operations\<close>

record 'p after_all =
  counter :: usize
  stage :: work_bucket_stage
  packets :: "'p list"

definition after_all_new :: "work_bucket_stage \<Rightarrow> 'p after_all" where
  "after_all_new st = \<lparr>counter = 0, stage = st, packets = []\<rparr>"

definition add_packets :: "'p list \<Rightarrow> 'p after_all \<Rightarrow> 'p after_all" where
  "add_packets ps aa = aa\<lparr>packets := packets aa @ ps\<rparr>"

text \<open>\<open>fetch_add\<close> and \<open>fetch_sub\<close> on an \<open>AtomicUsize\<close> wrap around in every build.\<close>

definition count_up :: "nat \<Rightarrow> 'p after_all \<Rightarrow> 'p after_all" where
  "count_up n aa = aa\<lparr>counter := counter aa + of_nat n\<rparr>"

definition count_down :: "'p after_all \<Rightarrow> 'p buckets \<Rightarrow> bool \<times> 'p after_all \<times> 'p buckets" where
  "count_down aa b =
     (let old = counter aa; aa' = aa\<lparr>counter := old - 1\<rparr>
      in if old = 1
         then (True, aa'\<lparr>packets := []\<rparr>, bulk_add (stage aa) (packets aa) b)
         else (False, aa', b))"

text \<open>Calls of \<open>count_down\<close> one after another, keeping the answers.\<close>

fun count_downs :: "nat \<Rightarrow> 'p after_all \<Rightarrow> 'p buckets \<Rightarrow> bool list \<times> 'p after_all \<times> 'p buckets" where
  "count_downs 0 aa b = ([], aa, b)"
| "count_downs (Suc n) aa b =
     (let (r, aa', b') = count_down aa b; (rs, aa'', b'') = count_downs n aa' b'
      in (r # rs, aa'', b''))"

lemma count_downs_sequential:
  "unat (counter aa) = Suc n \<Longrightarrow>
   count_downs (Suc n) aa b =
     (replicate n False @ [True], aa\<lparr>counter := 0, packets := []\<rparr>,
      bulk_add (stage aa) (packets aa) b)"
proof (induction n arbitrary: aa b)
  case 0
  then have "counter aa = 1"
    by (metis One_nat_def unat_1 word_unat_eq_iff)
  then show ?case by (simp add: count_down_def Let_def)
next
  case (Suc n)
  have ne: "counter aa \<noteq> 1" "counter aa \<noteq> 0"
    using Suc.prems by auto
  then have "unat (counter aa - 1) = Suc n"
    using Suc.prems by (simp add: unat_minus_one)
  then have "count_downs (Suc n) (aa\<lparr>counter := counter aa - 1\<rparr>) b =
      (replicate n False @ [True], aa\<lparr>counter := 0, packets := []\<rparr>,
       bulk_add (stage aa) (packets aa) b)"
    using Suc.IH [of "aa\<lparr>counter := counter aa - 1\<rparr>" b] by simp
  moreover have "count_down aa b = (False, aa\<lparr>counter := counter aa - 1\<rparr>, b)"
    using ne by (simp add: count_down_def Let_def)
  ultimately show ?case
    by (subst count_downs.simps(2)) (simp del: count_downs.simps)
qed

section \<open>The workers\<close>

text \<open>
  What one worker still has to do for its packet: \<open>Working\<close> on the packet itself, \<open>Counting\<close> it
  down, and, for the one that saw the counter at 1, \<open>Taking\<close> the stored packets and \<open>Adding\<close> them to
  the bucket. \<open>Finished\<close> carries the answer of \<open>count_down\<close>. The workers are a multiset: they differ
  in nothing but their progress.
\<close>

datatype 'p worker_pc = Working | Counting | Taking | Adding "'p list" | Finished bool

record 'p latch_sys =
  latch :: "'p after_all"
  bucket :: "'p buckets"
  pcs :: "'p worker_pc multiset"

inductive latch_step :: "'p latch_sys \<Rightarrow> 'p latch_sys \<Rightarrow> bool" where
  finish_work: "pcs s = add_mset Working M \<Longrightarrow>
     latch_step s (s\<lparr>pcs := add_mset Counting M\<rparr>)"
| fetch_sub_last: "pcs s = add_mset Counting M \<Longrightarrow> counter (latch s) = 1 \<Longrightarrow>
     latch_step s (s\<lparr>latch := (latch s)\<lparr>counter := counter (latch s) - 1\<rparr>,
                     pcs := add_mset Taking M\<rparr>)"
| fetch_sub_more: "pcs s = add_mset Counting M \<Longrightarrow> counter (latch s) \<noteq> 1 \<Longrightarrow>
     latch_step s (s\<lparr>latch := (latch s)\<lparr>counter := counter (latch s) - 1\<rparr>,
                     pcs := add_mset (Finished False) M\<rparr>)"
| take_packets: "pcs s = add_mset Taking M \<Longrightarrow>
     latch_step s (s\<lparr>latch := (latch s)\<lparr>packets := []\<rparr>,
                     pcs := add_mset (Adding (packets (latch s))) M\<rparr>)"
| bulk_add_packets: "pcs s = add_mset (Adding ps) M \<Longrightarrow>
     latch_step s (s\<lparr>bucket := bulk_add (stage (latch s)) ps (bucket s),
                     pcs := add_mset (Finished True) M\<rparr>)"

inductive_cases latch_stepE: "latch_step s t"

text \<open>The latch after \<open>new\<close>, \<open>count_up(n)\<close> and \<open>add_packets(ps)\<close>, with \<open>n\<close> workers about to work.\<close>

definition latch_start :: "nat \<Rightarrow> 'p list \<Rightarrow> work_bucket_stage \<Rightarrow> 'p buckets \<Rightarrow> 'p latch_sys" where
  "latch_start n ps st b =
     \<lparr>latch = add_packets ps (count_up n (after_all_new st)), bucket = b,
      pcs = replicate_mset n Working\<rparr>"

fun pc_pending :: "'p worker_pc \<Rightarrow> bool" where
  "pc_pending Working = True"
| "pc_pending Counting = True"
| "pc_pending _ = False"

fun pc_last :: "'p worker_pc \<Rightarrow> bool" where
  "pc_last Taking = True"
| "pc_last (Adding ps) = True"
| "pc_last (Finished r) = r"
| "pc_last _ = False"

text \<open>
  Invariant: the counter is the number of workers that have not counted down; there is no worker
  past the last count while it is positive, and exactly one afterwards, whose progress says where
  the packets are.
\<close>

definition latch_inv :: "nat \<Rightarrow> 'p list \<Rightarrow> work_bucket_stage \<Rightarrow> 'p buckets \<Rightarrow> 'p latch_sys \<Rightarrow> bool" where
  "latch_inv n ps st b s \<longleftrightarrow>
     n < 2 ^ 64 \<and> size (pcs s) = n \<and> stage (latch s) = st \<and>
     unat (counter (latch s)) = size (filter_mset pc_pending (pcs s)) \<and>
     (if counter (latch s) = 0 \<and> 0 < n then
        \<exists>pc. filter_mset pc_last (pcs s) = {#pc#} \<and>
          (case pc of
             Taking \<Rightarrow> packets (latch s) = ps \<and> bucket s = b
           | Adding qs \<Rightarrow> qs = ps \<and> packets (latch s) = [] \<and> bucket s = b
           | _ \<Rightarrow> packets (latch s) = [] \<and> bucket s = bulk_add st ps b)
      else filter_mset pc_last (pcs s) = {#} \<and> packets (latch s) = ps \<and> bucket s = b)"

lemma latch_start_inv: "n < 2 ^ 64 \<Longrightarrow> latch_inv n ps st b (latch_start n ps st b)"
proof -
  assume n: "n < 2 ^ 64"
  have "filter_mset pc_pending (replicate_mset n (Working :: 'a worker_pc)) = replicate_mset n Working"
    "filter_mset pc_last (replicate_mset n (Working :: 'a worker_pc)) = {#}"
    by (induction n) auto
  moreover have "(of_nat n :: usize) = 0 \<longleftrightarrow> n = 0"
    using unat_of_nat_usize [OF n] by (auto simp flip: word_unat_eq_iff simp: unat_eq_zero)
  ultimately show ?thesis
    using n unat_of_nat_usize [OF n]
    by (simp add: latch_inv_def latch_start_def add_packets_def count_up_def after_all_new_def)
      linarith
qed

lemma latch_step_inv:
  assumes "latch_step s t" and "latch_inv n ps st b s"
  shows "latch_inv n ps st b t"
  using assms
proof (induction rule: latch_step.induct)
  case (fetch_sub_last s M)
  then have "filter_mset pc_pending M = {#}"
    by (auto simp: latch_inv_def)
  with fetch_sub_last show ?case
    by (auto simp: latch_inv_def)
next
  case (fetch_sub_more s M)
  then have c: "unat (counter (latch s)) = Suc (size (filter_mset pc_pending M))"
    by (simp add: latch_inv_def)
  then have "counter (latch s) \<noteq> 0" by auto
  moreover from this have "unat (counter (latch s) - 1) = size (filter_mset pc_pending M)"
    using c by (simp add: unat_minus_one)
  moreover have "counter (latch s) - 1 \<noteq> 0"
    using fetch_sub_more(2) by simp
  ultimately show ?case
    using fetch_sub_more by (auto simp: latch_inv_def)
qed (auto simp: latch_inv_def split: if_splits)

lemma latch_reach_inv:
  "latch_step\<^sup>*\<^sup>* (latch_start n ps st b) s \<Longrightarrow> n < 2 ^ 64 \<Longrightarrow> latch_inv n ps st b s"
  by (induction rule: rtranclp_induct) (auto intro: latch_start_inv latch_step_inv)

text \<open>Every step finishes something: the steps a worker has left add up to a measure.\<close>

fun pc_todo :: "'p worker_pc \<Rightarrow> nat" where
  "pc_todo Working = 4"
| "pc_todo Counting = 3"
| "pc_todo Taking = 2"
| "pc_todo (Adding ps) = 1"
| "pc_todo (Finished r) = 0"

definition latch_todo :: "'p latch_sys \<Rightarrow> nat" where
  "latch_todo s = sum_mset (image_mset pc_todo (pcs s))"

lemma latch_step_todo: "latch_step s t \<Longrightarrow> latch_todo t < latch_todo s"
  by (erule latch_stepE) (auto simp: latch_todo_def)

lemma latch_step_enabled:
  assumes "pc \<in># pcs s" and "\<nexists>r. pc = Finished r"
  shows "\<exists>t. latch_step s t"
proof -
  from assms(1) obtain M where M: "pcs s = add_mset pc M"
    by (metis mset_add)
  with assms(2) show ?thesis
    by (cases pc) (blast intro: latch_step.intros)+
qed

text \<open>Runs are bounded: none is longer than the measure of its first state.\<close>

lemma latch_run_bound: "(latch_step ^^ k) s t \<Longrightarrow> k + latch_todo t \<le> latch_todo s"
proof (induction k arbitrary: t)
  case (Suc k)
  then obtain u where "(latch_step ^^ k) s u" "latch_step u t"
    by auto
  then show ?case
    using Suc.IH [of u] latch_step_todo [of u t] by linarith
qed simp

lemma latch_todo_start: "latch_todo (latch_start n ps st b) = 4 * n"
  by (simp add: latch_todo_def latch_start_def)

text \<open>Where no step is possible all workers are finished, and the packets are in the bucket.\<close>

lemma latch_final:
  assumes inv: "latch_inv n ps st b s" and fin: "\<nexists>t. latch_step s t" and n: "0 < n"
  shows "bucket s = bulk_add st ps b \<and> counter (latch s) = 0 \<and> packets (latch s) = [] \<and>
    count (pcs s) (Finished True) = 1 \<and> count (pcs s) (Finished False) = n - 1"
proof -
  have all: "\<exists>r. pc = Finished r" if "pc \<in># pcs s" for pc
    using that fin latch_step_enabled by blast
  then have "filter_mset pc_pending (pcs s) = {#}"
    by fastforce
  then have "size (filter_mset pc_pending (pcs s)) = 0"
    by (simp only: size_empty)
  then have "unat (counter (latch s)) = 0"
    using inv by (simp only: latch_inv_def)
  then have c0: "counter (latch s) = 0"
    by (simp add: unat_eq_zero)
  then obtain pc where pc: "filter_mset pc_last (pcs s) = {#pc#}"
    and where_packets: "case pc of
             Taking \<Rightarrow> packets (latch s) = ps \<and> bucket s = b
           | Adding qs \<Rightarrow> qs = ps \<and> packets (latch s) = [] \<and> bucket s = b
           | _ \<Rightarrow> packets (latch s) = [] \<and> bucket s = bulk_add st ps b"
    using inv n by (auto simp: latch_inv_def)
  have "pc \<in># filter_mset pc_last (pcs s)"
    using pc by simp
  then have fin_pc: "pc = Finished True"
    using all [of pc] by auto
  have split: "pcs s = filter_mset pc_last (pcs s) + filter_mset (\<lambda>pc. \<not> pc_last pc) (pcs s)"
    by (rule multiset_partition)
  have "filter_mset (\<lambda>pc. \<not> pc_last pc) (pcs s) = replicate_mset (n - 1) (Finished False)"
  proof -
    have "set_mset (filter_mset (\<lambda>pc. \<not> pc_last pc) (pcs s)) \<subseteq> {Finished False}"
      using all by fastforce
    moreover have "size (filter_mset (\<lambda>pc. \<not> pc_last pc) (pcs s)) = n - 1"
    proof -
      have "size (pcs s) = n"
        using inv by (simp add: latch_inv_def)
      moreover have "size (pcs s) = 1 + size (filter_mset (\<lambda>pc. \<not> pc_last pc) (pcs s))"
        using arg_cong [OF split, of size] unfolding pc by (simp only: size_union size_single)
      ultimately show ?thesis by linarith
    qed
    ultimately show ?thesis
      by (metis set_mset_subset_singletonD)
  qed
  then have "pcs s = add_mset (Finished True) (replicate_mset (n - 1) (Finished False))"
    using split pc fin_pc by simp
  then show ?thesis
    using where_packets fin_pc c0 by simp
qed

text \<open>From every state a state without a next step can be reached.\<close>

lemma latch_reaches_end: "\<exists>t. latch_step\<^sup>*\<^sup>* s t \<and> (\<nexists>u. latch_step t u)"
proof (induction "latch_todo s" arbitrary: s rule: less_induct)
  case less
  show ?case
  proof (cases "\<exists>u. latch_step s u")
    case True
    then obtain u where u: "latch_step s u" by blast
    with less [OF latch_step_todo [OF u]] show ?thesis
      by (meson converse_rtranclp_into_rtranclp)
  qed blast
qed

section \<open>Properties\<close>

text \<open>
  C21. Safety of the latch under every interleaving: as long as no \<open>count_down\<close> has answered true the
  bucket is untouched; when one has, it is the only one, every worker has counted down, and the
  bucket has received the stored packets exactly once.
\<close>

theorem latch_release_safe:
  assumes "n < 2 ^ 64" and "latch_step\<^sup>*\<^sup>* (latch_start n ps st b) s"
  shows "if Finished True \<in># pcs s
    then bucket s = bulk_add st ps b \<and> packets (latch s) = [] \<and>
      count (pcs s) (Finished True) = 1 \<and> (\<forall>pc \<in># pcs s. \<not> pc_pending pc)
    else bucket s = b"
proof -
  have inv: "latch_inv n ps st b s"
    using assms(2,1) by (rule latch_reach_inv)
  show ?thesis
  proof (cases "counter (latch s) = 0 \<and> 0 < n")
    case True
    then obtain pc where pc: "filter_mset pc_last (pcs s) = {#pc#}"
      and at: "case pc of
          Taking \<Rightarrow> packets (latch s) = ps \<and> bucket s = b
        | Adding qs \<Rightarrow> qs = ps \<and> packets (latch s) = [] \<and> bucket s = b
        | _ \<Rightarrow> packets (latch s) = [] \<and> bucket s = bulk_add st ps b"
      using inv by (auto simp: latch_inv_def)
    have "size (filter_mset pc_pending (pcs s)) = 0"
      using inv True by (simp add: latch_inv_def)
    then have pend: "\<forall>x \<in># pcs s. \<not> pc_pending x"
      by (auto simp: size_eq_0_iff_empty)
    have "count (filter_mset pc_last (pcs s)) (Finished True) = count (pcs s) (Finished True)"
      by simp
    then have c: "count (pcs s) (Finished True) = count {#pc#} (Finished True)"
      by (simp only: pc)
    have "pc_last pc"
      using pc by (metis filter_mset_eq_conv multi_member_last)
    then show ?thesis
      using at c pend by (cases pc) (auto simp: not_in_iff)
  next
    case False
    then have "filter_mset pc_last (pcs s) = {#}" "bucket s = b"
      using inv by (auto simp: latch_inv_def split: if_splits)
    moreover from this(1) have "Finished True \<notin># pcs s"
      by auto
    ultimately show ?thesis by simp
  qed
qed

theorem latch_release_safe_witness:
  "\<exists>s. latch_step\<^sup>*\<^sup>* (latch_start 2 [7 :: nat] VMRefClosure (\<lambda>_. [])) s \<and>
     bucket s VMRefClosure = [7] \<and> bucket s Prepare = [] \<and> (\<forall>pc \<in># pcs s. \<not> pc_pending pc)"
proof -
  obtain s where r: "latch_step\<^sup>*\<^sup>* (latch_start 2 [7 :: nat] VMRefClosure (\<lambda>_. [])) s"
    and e: "\<nexists>u. latch_step s u"
    using latch_reaches_end by blast
  have "count (pcs s) (Finished True) = 1"
    using latch_final [OF latch_reach_inv [OF r] e] by simp
  then have "Finished True \<in># pcs s"
    by (metis count_inI zero_neq_one)
  with latch_release_safe [OF _ r] r show ?thesis
    by (intro exI [of _ s]) auto
qed

text \<open>
  The latch cannot get stuck: from every reachable state the workers can run to an end, and
  wherever they end, the stored packets are in the bucket, exactly one \<open>count_down\<close> has answered true
  and all others false.
\<close>

theorem latch_completes:
  assumes "0 < n" "n < 2 ^ 64" and "latch_step\<^sup>*\<^sup>* (latch_start n ps st b) s"
  shows "(\<exists>t. latch_step\<^sup>*\<^sup>* s t \<and> (\<nexists>u. latch_step t u)) \<and>
    (\<forall>t. latch_step\<^sup>*\<^sup>* s t \<and> (\<nexists>u. latch_step t u) \<longrightarrow>
       bucket t = bulk_add st ps b \<and> counter (latch t) = 0 \<and>
       count (pcs t) (Finished True) = 1 \<and> count (pcs t) (Finished False) = n - 1)"
proof (intro conjI allI impI)
  show "\<exists>t. latch_step\<^sup>*\<^sup>* s t \<and> (\<nexists>u. latch_step t u)"
    by (rule latch_reaches_end)
  fix t assume t: "latch_step\<^sup>*\<^sup>* s t \<and> (\<nexists>u. latch_step t u)"
  then have "latch_inv n ps st b t"
    using assms by (blast intro: latch_reach_inv rtranclp_trans)
  from latch_final [OF this _ assms(1)] t
  show "bucket t = bulk_add st ps b" "counter (latch t) = 0"
    "count (pcs t) (Finished True) = 1" "count (pcs t) (Finished False) = n - 1"
    by blast+
qed

theorem latch_completes_witness:
  "\<exists>t. latch_step\<^sup>*\<^sup>* (latch_start 3 [7 :: nat, 8] VMRefClosure (\<lambda>_. [5])) t \<and>
     bucket t VMRefClosure = [5, 7, 8] \<and> count (pcs t) (Finished False) = 2"
  using latch_completes [of 3 "[7, 8]" VMRefClosure "\<lambda>_. [5]", OF _ _ rtranclp.rtrancl_refl] by auto

text \<open>
  The atomic \<open>count_down\<close> of the sequential model refines into the interleaved one: wherever a worker
  is about to count down, its \<open>fetch_sub\<close>, take and \<open>bulk_add\<close> in a row are a run of the step relation
  that ends with the latch, the bucket and the answer that \<open>count_down\<close> computes.
\<close>

theorem count_down_is_a_run:
  "case count_down aa b of (r, aa', b') \<Rightarrow>
     latch_step\<^sup>*\<^sup>* \<lparr>latch = aa, bucket = b, pcs = add_mset Counting M\<rparr>
       \<lparr>latch = aa', bucket = b', pcs = add_mset (Finished r) M\<rparr>"
proof -
  let ?s = "\<lparr>latch = aa, bucket = b, pcs = add_mset Counting M\<rparr>"
  let ?aa = "aa\<lparr>counter := counter aa - 1\<rparr>"
  show ?thesis
  proof (cases "counter aa = 1")
    case True
    let ?t = "\<lparr>latch = ?aa, bucket = b, pcs = add_mset Taking M\<rparr>"
    let ?u = "\<lparr>latch = ?aa\<lparr>packets := []\<rparr>, bucket = b, pcs = add_mset (Adding (packets aa)) M\<rparr>"
    have "latch_step ?s ?t"
      using fetch_sub_last [of ?s M] True by simp
    moreover have "latch_step ?t ?u"
      using take_packets [of ?t M] by simp
    moreover have "latch_step ?u \<lparr>latch = ?aa\<lparr>packets := []\<rparr>,
        bucket = bulk_add (stage aa) (packets aa) b, pcs = add_mset (Finished True) M\<rparr>"
      using bulk_add_packets [of ?u "packets aa" M] by simp
    ultimately show ?thesis
      using True by (auto simp: count_down_def Let_def intro: converse_rtranclp_into_rtranclp)
  next
    case False
    have "latch_step ?s \<lparr>latch = ?aa, bucket = b, pcs = add_mset (Finished False) M\<rparr>"
      using fetch_sub_more [of ?s M] False by simp
    then show ?thesis
      using False by (simp add: count_down_def Let_def r_into_rtranclp)
  qed
qed

text \<open>Every run of \<open>n\<close> workers through the latch has at most \<open>4 * n\<close> steps.\<close>

theorem latch_terminates:
  assumes "(latch_step ^^ k) (latch_start n ps st b) s"
  shows "k + latch_todo s \<le> 4 * n"
  using latch_run_bound [OF assms] by (simp add: latch_todo_start)

theorem latch_terminates_witness:
  "\<exists>s. (latch_step ^^ 1) (latch_start 1 [7 :: nat] VMRefClosure (\<lambda>_. [])) s \<and> 1 + latch_todo s \<le> 4"
proof -
  let ?s0 = "latch_start 1 [7 :: nat] VMRefClosure (\<lambda>_. [])"
  have "latch_step ?s0 (?s0\<lparr>pcs := add_mset Counting {#}\<rparr>)"
    by (rule finish_work) (simp add: latch_start_def)
  then have "(latch_step ^^ 1) ?s0 (?s0\<lparr>pcs := add_mset Counting {#}\<rparr>)"
    by (simp only: relpowp_1)
  with latch_terminates [OF this] show ?thesis by auto
qed

text \<open>
  One worker at a time: after \<open>new\<close>, \<open>count_up(n)\<close> (in any two parts) and \<open>add_packets\<close>, the first
  \<open>n - 1\<close> calls of \<open>count_down\<close> answer false and leave the buckets alone, the \<open>n\<close>th answers true and
  releases the packets, and a call too many wraps the counter and releases nothing.
\<close>

theorem count_down_sequence:
  assumes "i + j = Suc n" "Suc n < 2 ^ 64"
  shows "count_downs (Suc n) (add_packets ps (count_up i (count_up j (after_all_new st)))) b =
      (replicate n False @ [True], \<lparr>counter = 0, stage = st, packets = []\<rparr>, bulk_add st ps b) \<and>
    count_down \<lparr>counter = 0, stage = st, packets = ps\<rparr> b =
      (False, \<lparr>counter = 2 ^ 64 - 1, stage = st, packets = ps\<rparr>, b)"
proof -
  let ?aa = "add_packets ps (count_up i (count_up j (after_all_new st)))"
  have "counter ?aa = of_nat (i + j)"
    by (simp add: add_packets_def count_up_def after_all_new_def)
  then have "counter ?aa = of_nat (Suc n)"
    by (simp only: assms(1))
  then have "unat (counter ?aa) = Suc n"
    using unat_of_nat_usize [OF assms(2)] by simp
  from count_downs_sequential [OF this, of b] show ?thesis
    by (simp add: add_packets_def count_up_def after_all_new_def count_down_def Let_def
        del: count_downs.simps)
qed

theorem count_down_sequence_witness:
  "fst (count_downs (Suc 2) (add_packets [7 :: nat] (count_up 2 (count_up 1 (after_all_new Prepare))))
     (\<lambda>_. [])) = replicate 2 False @ [True]"
  using count_down_sequence [of 2 1 2 "[7 :: nat]" Prepare "\<lambda>_. []"] by (simp del: count_downs.simps)

end
