(* ===== verification/Binding.thy ===== *)
theory Binding
  imports Upcalls After_All
begin

text \<open>
  The state of the binding: the work packets it creates, \<open>WeakProcessor\<close> and \<open>PPPRegistry\<close> as
  records, \<open>RubyBinding\<close> with its operations and constructor (\<open>mmtk/src/binding.rs\<close>), the statics
  of \<open>mmtk/src/lib.rs\<close> with the GC-thread set and the panic hook, and the world the GC work packets
  run in.
\<close>

section \<open>Work packets and probes\<close>

text \<open>
  One constructor per type that implements \<open>GCWork\<close>, with its fields. The \<open>Arc\<close> of
  \<open>UpdateTableEntriesParallel\<close> is a reference to a latch of the world. A root scanner holds nothing
  but its factory.
\<close>

datatype gc_work =
    ProcessObjFreeCandidates
  | UpdateGenericIvTbl
  | UpdateFinalizerAndObjIdTables
  | UpdateOverloadedCmeTable
  | UpdateCiTable
  | UpdateWbUnprotectedObjectsList
  | UpdateTableEntriesParallel string address usize usize bool bool bool nat
  | UpdateTableBinsParallel string address usize usize
  | PinPPPChildren "objref list"
  | RemoveDeadPPPs
  | UnpinPPPChildren "objref list"
  | ScanVMRoots
  | ScanEndProcRoots
  | ScanGlobalTblRoots
  | ScanYjitRoots
  | ScanGlobalSymbolsRoots
  | ScanFinalizerTblRoots
  | ScanObjToIdTblRoots
  | ScanMiscRoots
  | ScanFinalJobsRoots
  | ScanWbUnprotectedRoots "objref list"

text \<open>The static trace points (\<open>probe!\<close>) with the numbers they report.\<close>

datatype probe =
    Probe_initial_weak_table_stats usize usize usize usize string
  | Probe_final_weak_table_stats usize string
  | Probe_update_generic_iv_tbl nat usize usize
  | Probe_process_obj_free_candidates nat nat
  | Probe_weak_table_size_change usize usize
  | Probe_update_finalizer_and_obj_id_tables usize usize usize usize usize usize
  | Probe_update_table_entries_parallel usize usize usize string
  | Probe_update_table_bins_parallel usize usize usize string
  | Probe_update_wb_unprotected_objects_list nat nat
  | Probe_pin_ppp_children nat nat nat
  | Probe_remove_dead_ppps nat nat nat
  | Probe_unpin_ppp_children nat

section \<open>RubyBinding\<close>

record weak_processor =
  obj_free_candidates :: "objref list mutex"

definition weak_processor_new :: weak_processor where
  "weak_processor_new = \<lparr>obj_free_candidates = mutex_new []\<rparr>"

record ppp_registry =
  ppps :: "objref list mutex"
  pinned_ppp_children :: "objref list mutex"

definition ppp_registry_new :: ppp_registry where
  "ppp_registry_new = \<lparr>ppps = mutex_new [], pinned_ppp_children = mutex_new []\<rparr>"

record moved_givtbl_entry =
  old_objref :: objref
  gen_ivtbl :: address

text \<open>A join handle is named by its thread. Hash maps and sets are maps and sets.\<close>

type_synonym thread_id = nat

record ruby_binding =
  options :: ruby_binding_options
  plan_name :: "string option mutex"
  weak_proc :: weak_processor
  ppp_reg :: ppp_registry
  moved_givtbl :: "(objref \<rightharpoonup> moved_givtbl_entry) mutex"
  gc_thread_join_handles :: "thread_id list mutex"
  wb_unprotected_objects :: "objref set mutex"
  st_entries_chunk_size :: usize
  st_bins_chunk_size :: usize

text \<open>
  The iteration order of a \<open>HashMap\<close> or \<open>HashSet\<close> is not specified: it is a parameter, of which only
  the documented part may be used.
\<close>

definition hash_map_order :: "(('k \<rightharpoonup> 'e) \<Rightarrow> ('k \<times> 'e) list) \<Rightarrow> bool" where
  "hash_map_order ord \<longleftrightarrow>
     (\<forall>m. finite (dom m) \<longrightarrow> distinct (map fst (ord m)) \<and> map_of (ord m) = m)"

definition hash_set_order :: "('k set \<Rightarrow> 'k list) \<Rightarrow> bool" where
  "hash_set_order ord \<longleftrightarrow> (\<forall>S. finite S \<longrightarrow> distinct (ord S) \<and> set (ord S) = S)"

definition sorted_map_order :: "(('k :: linorder) \<rightharpoonup> 'e) \<Rightarrow> ('k \<times> 'e) list" where
  "sorted_map_order m = map (\<lambda>k. (k, the (m k))) (sorted_list_of_set (dom m))"

lemma map_of_sorted_map_order: "finite (dom m) \<Longrightarrow> map_of (sorted_map_order m) = m"
  unfolding sorted_map_order_def
  by (auto simp: map_of_map_restrict restrict_map_def fun_eq_iff domIff)

lemma sorted_map_order: "hash_map_order sorted_map_order"
  by (simp add: hash_map_order_def map_of_sorted_map_order)
    (simp add: sorted_map_order_def comp_def)

lemma sorted_set_order: "hash_set_order sorted_list_of_set"
  by (simp add: hash_set_order_def)

section \<open>Settings from the environment\<close>

text \<open>\<open>usize::from_str\<close>: an optional plus sign, decimal digits, no overflow.\<close>

definition digit_value :: "char \<Rightarrow> nat option" where
  "digit_value c = (if 48 \<le> (of_char c :: nat) \<and> (of_char c :: nat) \<le> 57
     then Some (of_char c - 48) else None)"

fun parse_digits :: "string \<Rightarrow> nat \<Rightarrow> nat option" where
  "parse_digits [] acc = Some acc"
| "parse_digits (c # cs) acc =
     (case digit_value c of
        None \<Rightarrow> None
      | Some d \<Rightarrow> if acc * 10 + d < 2 ^ 64 then parse_digits cs (acc * 10 + d) else None)"

definition parse_usize :: "string \<Rightarrow> usize option" where
  "parse_usize s =
     (let ds = (if s \<noteq> [] \<and> hd s = CHR ''+'' then tl s else s)
      in if ds = [] then None else map_option of_nat (parse_digits ds 0))"

text \<open>\<open>env\<close> is the process environment: the variables that are set to valid strings.\<close>

definition env_default ::
  "(string \<Rightarrow> 't option) \<Rightarrow> (string \<rightharpoonup> string) \<Rightarrow> string \<Rightarrow> 't \<Rightarrow> 't" where
  "env_default parse env name dflt =
     (case env name of
        None \<Rightarrow> dflt
      | Some x \<Rightarrow> (case parse x of None \<Rightarrow> dflt | Some v \<Rightarrow> v))"

text \<open>
  \<open>RubyBinding::new\<close>. The first component of the result is the new value of the global
  \<open>BINDING_FAST_MUT.suffix_size\<close>, which the constructor overwrites.
\<close>

definition ruby_binding_new ::
  "(string \<rightharpoonup> string) \<Rightarrow> ruby_binding_options \<Rightarrow> usize \<times> ruby_binding" where
  "ruby_binding_new env binding_options =
     (opt_suffix_size binding_options,
      \<lparr>options = binding_options,
       plan_name = mutex_new None,
       weak_proc = weak_processor_new,
       ppp_reg = ppp_registry_new,
       moved_givtbl = mutex_new Map.empty,
       gc_thread_join_handles = mutex_new [],
       wb_unprotected_objects = mutex_new {},
       st_entries_chunk_size = env_default parse_usize env ''RUBY_MMTK_ENTRIES_CHUNK_SIZE'' 1024,
       st_bins_chunk_size = env_default parse_usize env ''RUBY_MMTK_BINS_CHUNK_SIZE'' 4096\<rparr>)"

section \<open>Operations of the binding\<close>

text \<open>\<open>CString::new\<close> fails on an interior NUL.\<close>

definition cstring_new :: "string \<Rightarrow> string option" where
  "cstring_new s = (if CHR 0x00 \<in> set s then None else Some s)"

text \<open>\<open>plan_debug\<close> is \<open>format!("{:?}", plan)\<close>; the result stands for the C string pointed to.\<close>

definition get_plan_name_c :: "string \<Rightarrow> ruby_binding \<Rightarrow> (string \<times> ruby_binding) res" where
  "get_plan_name_c plan_debug b =
     bind_res (lock_unwrap (plan_name b)) (\<lambda>name.
     case name of
       Some c \<Rightarrow> Inr (c, b)
     | None \<Rightarrow>
         (case cstring_new plan_debug of
            None \<Rightarrow> Inl (Panic ''Failed converting plan name to CString'')
          | Some c \<Rightarrow> Inr (c, b\<lparr>plan_name := (plan_name b)\<lparr>mutex_data := Some c\<rparr>\<rparr>)))"

text \<open>
  \<open>join_all_gc_threads\<close>. \<open>ended_ok\<close> says of a thread whether it returned or panicked; the first
  component of the result lists the threads joined.
\<close>

fun join_threads :: "(thread_id \<Rightarrow> bool) \<Rightarrow> thread_id list \<Rightarrow> thread_id list res" where
  "join_threads ended_ok [] = Inr []"
| "join_threads ended_ok (h # hs) =
     (if ended_ok h then bind_res (join_threads ended_ok hs) (\<lambda>js. Inr (h # js))
      else Inl (Panic ''handle.join().unwrap()''))"

definition join_all_gc_threads ::
  "(thread_id \<Rightarrow> bool) \<Rightarrow> ruby_binding \<Rightarrow> (thread_id list \<times> ruby_binding) res" where
  "join_all_gc_threads ended_ok b =
     bind_res (lock_unwrap (gc_thread_join_handles b)) (\<lambda>handles.
     bind_res (join_threads ended_ok handles) (\<lambda>joined.
     Inr (joined, b\<lparr>gc_thread_join_handles := (gc_thread_join_handles b)\<lparr>mutex_data := []\<rparr>\<rparr>)))"

definition register_wb_unprotected_object :: "objref \<Rightarrow> ruby_binding \<Rightarrow> ruby_binding res" where
  "register_wb_unprotected_object ob b =
     bind_res (lock_unwrap (wb_unprotected_objects b)) (\<lambda>objects.
     Inr (b\<lparr>wb_unprotected_objects :=
              (wb_unprotected_objects b)\<lparr>mutex_data := insert ob objects\<rparr>\<rparr>))"

definition is_object_wb_unprotected :: "objref \<Rightarrow> ruby_binding \<Rightarrow> bool res" where
  "is_object_wb_unprotected ob b =
     bind_res (lock_unwrap (wb_unprotected_objects b)) (\<lambda>objects. Inr (ob \<in> objects))"

lemma join_threads_eq:
  "join_threads ok hs =
     (if \<forall>h \<in> set hs. ok h then Inr hs else Inl (Panic ''handle.join().unwrap()''))"
  by (induction hs) auto

section \<open>Statics, GC threads and the panic hook\<close>

text \<open>
  \<open>Old_hook\<close> is the hook that was installed before the binding; \<open>Binding_hook\<close> is the closure that
  \<open>set_panic_hook\<close> installs over it.
\<close>

datatype panic_hook = Old_hook | Binding_hook panic_hook

record statics =
  BINDING :: "ruby_binding option"
  gc_enabled :: bool
  suffix_size :: usize
  GC_THREADS :: "thread_id set mutex option"
  hook :: panic_hook

definition statics_new :: statics where
  "statics_new = \<lparr>BINDING = None, gc_enabled = False, suffix_size = 0, GC_THREADS = None,
     hook = Old_hook\<rparr>"

definition binding :: "statics \<Rightarrow> ruby_binding res" where
  "binding g = (case BINDING g of
      None \<Rightarrow> Inl (Panic ''Attempt to use the binding before it is initialization'')
    | Some b \<Rightarrow> Inr b)"

definition gc_threads :: "statics \<Rightarrow> thread_id set res" where
  "gc_threads g = (case GC_THREADS g of
      None \<Rightarrow> Inl (Panic ''called Option::unwrap() on a None value'')
    | Some m \<Rightarrow> lock_unwrap m)"

definition put_gc_threads :: "thread_id set \<Rightarrow> statics \<Rightarrow> statics" where
  "put_gc_threads T g =
     g\<lparr>GC_THREADS := map_option (\<lambda>m. m\<lparr>mutex_data := T\<rparr>) (GC_THREADS g)\<rparr>"

definition register_gc_thread :: "thread_id \<Rightarrow> statics \<Rightarrow> statics res" where
  "register_gc_thread t g = bind_res (gc_threads g) (\<lambda>T. Inr (put_gc_threads (insert t T) g))"

definition unregister_gc_thread :: "thread_id \<Rightarrow> statics \<Rightarrow> statics res" where
  "unregister_gc_thread t g = bind_res (gc_threads g) (\<lambda>T. Inr (put_gc_threads (T - {t}) g))"

definition is_gc_thread :: "thread_id \<Rightarrow> statics \<Rightarrow> bool res" where
  "is_gc_thread t g = bind_res (gc_threads g) (\<lambda>T. Inr (t \<in> T))"

definition set_panic_hook :: "statics \<Rightarrow> statics" where
  "set_panic_hook g =
     (if GC_THREADS g \<noteq> None then g
      else g\<lparr>GC_THREADS := Some (mutex_new {}), hook := Binding_hook (hook g)\<rparr>)"

text \<open>What the installed hook does on a panic of a thread: abort the process, or the old hook.\<close>

datatype hook_outcome = Process_abort | Old_hook_ran

fun run_hook :: "panic_hook \<Rightarrow> thread_id \<Rightarrow> statics \<Rightarrow> hook_outcome res" where
  "run_hook Old_hook t g = Inr Old_hook_ran"
| "run_hook (Binding_hook old) t g =
     bind_res (is_gc_thread t g) (\<lambda>gc. if gc then Inr Process_abort else run_hook old t g)"

text \<open>The lines \<open>handle_gc_thread_panic\<close> prints before it aborts, by the backtrace status.\<close>

datatype backtrace_status = Bt_Unsupported | Bt_Disabled | Bt_Captured string | Bt_other string

fun handle_gc_thread_panic :: "string \<Rightarrow> backtrace_status \<Rightarrow> string list \<times> hook_outcome" where
  "handle_gc_thread_panic info st =
     (''ERROR: An MMTk GC thread panicked.  This is a bug.'' # info #
      (case st of
         Bt_Unsupported \<Rightarrow> [''Backtrace is unsupported.'']
       | Bt_Disabled \<Rightarrow>
           [''Backtrace is disabled.'',
            ''run with `RUST_BACKTRACE=1` environment variable to display a backtrace'']
       | Bt_Captured bt \<Rightarrow> [bt]
       | Bt_other s \<Rightarrow> [''Unknown backtrace status: '' @ s]),
      Process_abort)"

lemmas gc_thread_defs =
  gc_threads_def put_gc_threads_def register_gc_thread_def unregister_gc_thread_def
  is_gc_thread_def set_panic_hook_def

section \<open>The world of a GC\<close>

text \<open>
  What a work packet can read and write: the state of mmtk-core, of the VM and of the binding, the
  work buckets, the latches (a new one is numbered by how many there are), the vectors of roots handed
  to \<open>RootsWorkFactory::create_process_pinning_roots_work\<close>, and the probes fired.
\<close>

record ('m, 'v) world =
  w_core :: 'm
  w_vm :: 'v
  w_binding :: ruby_binding
  w_buckets :: "gc_work buckets"
  w_latches :: "gc_work after_all list"
  w_root_work :: "objref list list"
  w_probes :: "probe list"

definition emit :: "probe \<Rightarrow> ('m, 'v) world \<Rightarrow> ('m, 'v) world" where
  "emit p w = w\<lparr>w_probes := w_probes w @ [p]\<rparr>"

definition submit :: "work_bucket_stage \<Rightarrow> gc_work list \<Rightarrow> ('m, 'v) world \<Rightarrow> ('m, 'v) world" where
  "submit st ps w = w\<lparr>w_buckets := bulk_add st ps (w_buckets w)\<rparr>"

lemma emit_simps [simp]:
  "w_core (emit p w) = w_core w" "w_vm (emit p w) = w_vm w" "w_binding (emit p w) = w_binding w"
  "w_buckets (emit p w) = w_buckets w" "w_latches (emit p w) = w_latches w"
  "w_root_work (emit p w) = w_root_work w"
  "w_probes (emit p w) = w_probes w @ [p]"
  by (simp_all add: emit_def)

lemma submit_simps [simp]:
  "w_core (submit st ps w) = w_core w" "w_vm (submit st ps w) = w_vm w"
  "w_binding (submit st ps w) = w_binding w" "w_latches (submit st ps w) = w_latches w"
  "w_probes (submit st ps w) = w_probes w" "w_root_work (submit st ps w) = w_root_work w"
  "w_buckets (submit st ps w) = bulk_add st ps (w_buckets w)"
  by (simp_all add: submit_def)

section \<open>Properties\<close>

text \<open>What the parser of a \<open>usize\<close> accepts, and the number it means.\<close>

definition unsigned_digits :: "string \<Rightarrow> string" where
  "unsigned_digits s = (case s of [] \<Rightarrow> [] | c # cs \<Rightarrow> if c = CHR ''+'' then cs else s)"

definition decimal_digit :: "char \<Rightarrow> bool" where
  "decimal_digit c \<longleftrightarrow> (of_char CHR ''0'' :: nat) \<le> of_char c \<and> (of_char c :: nat) \<le> of_char CHR ''9''"

definition decimal :: "string \<Rightarrow> nat" where
  "decimal ds = foldl (\<lambda>acc c. acc * 10 + (of_char c - 48)) 0 ds"

definition is_usize :: "string \<Rightarrow> bool" where
  "is_usize s \<longleftrightarrow> unsigned_digits s \<noteq> [] \<and>
     (\<forall>c \<in> set (unsigned_digits s). decimal_digit c) \<and>
     decimal (unsigned_digits s) < 2 ^ 64"

lemma foldl_decimal_mono:
  "(acc :: nat) \<le> foldl (\<lambda>acc c. acc * 10 + (of_char c - 48)) acc ds"
proof (induction ds arbitrary: acc)
  case (Cons c ds)
  have "acc \<le> acc * 10 + (of_char c - 48)"
    by simp
  also have "\<dots> \<le> foldl (\<lambda>acc c. acc * 10 + (of_char c - 48)) (acc * 10 + (of_char c - 48)) ds"
    by (rule Cons.IH)
  finally show ?case by simp
qed simp

lemma digit_value_eq:
  "digit_value c = (if decimal_digit c then Some (of_char c - 48) else None)"
  by (simp add: digit_value_def decimal_digit_def)

lemma parse_digits_eq:
  "acc < 2 ^ 64 \<Longrightarrow> parse_digits ds acc =
     (if (\<forall>c \<in> set ds. decimal_digit c) \<and>
         foldl (\<lambda>acc c. acc * 10 + (of_char c - 48)) acc ds < 2 ^ 64
      then Some (foldl (\<lambda>acc c. acc * 10 + (of_char c - 48)) acc ds) else None)"
proof (induction ds arbitrary: acc)
  case (Cons c ds)
  let ?acc = "acc * 10 + (of_char c - 48)"
  show ?case
  proof (cases "?acc < 2 ^ 64")
    case True
    with Cons.IH [OF True] show ?thesis by (simp add: digit_value_eq)
  next
    case False
    then have "\<not> foldl (\<lambda>acc c. acc * 10 + (of_char c - 48)) ?acc ds < 2 ^ 64"
      using foldl_decimal_mono [of ?acc ds] by linarith
    with False show ?thesis by (simp add: digit_value_eq)
  qed
qed simp

lemma parse_usize_eq:
  "parse_usize s = (if is_usize s then Some (of_nat (decimal (unsigned_digits s))) else None)"
proof -
  have "(if s \<noteq> [] \<and> hd s = CHR ''+'' then tl s else s) = unsigned_digits s"
    by (cases s) (simp_all add: unsigned_digits_def)
  then show ?thesis
    by (simp add: parse_usize_def Let_def parse_digits_eq is_usize_def decimal_def)
qed

text \<open>
  The settings a new binding takes from the environment: each chunk size is the number its variable
  spells (an optional plus sign and decimal digits below \<open>2 ^ 64\<close>, zero included) and otherwise the
  default; the suffix size comes from the options; every registry starts empty and unlocked.
\<close>

theorem new_binding_settings:
  "let b = snd (ruby_binding_new env opts) in
   st_entries_chunk_size b = (case env ''RUBY_MMTK_ENTRIES_CHUNK_SIZE'' of
       None \<Rightarrow> 1024
     | Some x \<Rightarrow> if is_usize x then of_nat (decimal (unsigned_digits x)) else 1024) \<and>
   st_bins_chunk_size b = (case env ''RUBY_MMTK_BINS_CHUNK_SIZE'' of
       None \<Rightarrow> 4096
     | Some x \<Rightarrow> if is_usize x then of_nat (decimal (unsigned_digits x)) else 4096) \<and>
   fst (ruby_binding_new env opts) = opt_suffix_size opts \<and>
   mutex_data (obj_free_candidates (weak_proc b)) = [] \<and> mutex_data (ppps (ppp_reg b)) = [] \<and>
   mutex_data (pinned_ppp_children (ppp_reg b)) = [] \<and> mutex_data (moved_givtbl b) = Map.empty \<and>
   mutex_data (wb_unprotected_objects b) = {} \<and> mutex_data (gc_thread_join_handles b) = [] \<and>
   mutex_free (obj_free_candidates (weak_proc b)) \<and> mutex_free (ppps (ppp_reg b))"
  by (simp add: ruby_binding_new_def env_default_def parse_usize_eq Let_def weak_processor_new_def
      ppp_registry_new_def split: option.splits)

text \<open>
  The plan name is converted once: the first call stores the string of the plan, and every later
  call answers with that string, whatever the options say by then.
\<close>

theorem plan_name_is_stable:
  assumes "mutex_free (plan_name b)" and "get_plan_name_c plan1 b = Inr (s, b')"
  shows "s = (case mutex_data (plan_name b) of None \<Rightarrow> plan1 | Some c \<Rightarrow> c) \<and>
    get_plan_name_c plan2 b' = Inr (s, b')"
  using assms
  by (auto simp: get_plan_name_c_def cstring_new_def lock_unwrap_def mutex_free_def
      split: option.splits if_splits)

theorem plan_name_is_stable_witness:
  "\<exists>b'. get_plan_name_c ''Immix'' (snd (ruby_binding_new Map.empty
      \<lparr>ractor_check_mode = False, opt_suffix_size = 8\<rparr>)) = Inr (''Immix'', b') \<and>
    get_plan_name_c ''MarkSweep'' b' = Inr (''Immix'', b')"
proof -
  let ?b = "snd (ruby_binding_new Map.empty \<lparr>ractor_check_mode = False, opt_suffix_size = 8\<rparr>)"
  have p: "plan_name ?b = mutex_new None"
    by (simp add: ruby_binding_new_def)
  then obtain b' where b': "get_plan_name_c ''Immix'' ?b = Inr (''Immix'', b')"
    by (simp add: get_plan_name_c_def cstring_new_def)
  have "mutex_free (plan_name ?b)"
    by (simp add: p)
  from plan_name_is_stable [OF this b', of "''MarkSweep''"] b' show ?thesis
    by blast
qed

end
