(* ===== verification/Example.thy ===== *)
theory Example
  imports Binding
begin

text \<open>
  Small concrete instances of the parameters of the model: a VM whose upcalls do nothing, a collector
  with a handful of objects, a fresh binding and a world around it. The witnesses of the properties
  evaluate the model on them; no definition of the model depends on them.
\<close>

section \<open>A VM\<close>

text \<open>No roots, no tables, no PPP children; every upcall keeps the state of the VM.\<close>

definition null_upcalls :: "'v ruby_upcalls" where
  "null_upcalls = \<lparr>
     up_init_gc_worker_thread = (\<lambda>_ v. v), up_get_gc_thread_tls = (\<lambda>_. 0),
     up_is_mutator = (\<lambda>_. False), up_stop_the_world = (\<lambda>_ v. v),
     up_resume_mutators = (\<lambda>_ v. v), up_block_for_gc = (\<lambda>_ v. v),
     up_number_of_mutators = (\<lambda>_. 0), up_get_mutators = (\<lambda>_. []),
     up_scan_vm_roots = VM_done, up_scan_end_proc_roots = VM_done,
     up_scan_global_tbl_roots = VM_done, up_scan_yjit_roots = VM_done,
     up_scan_global_symbols_roots = VM_done, up_scan_finalizer_tbl_roots = VM_done,
     up_scan_obj_to_id_tbl_roots = VM_done, up_scan_misc_roots = VM_done,
     up_scan_final_jobs_roots = VM_done, up_scan_roots_in_mutator_thread = (\<lambda>_ _. VM_done),
     up_is_no_longer_ppp = (\<lambda>_ _. False), up_scan_object_ruby_style = (\<lambda>_. VM_done),
     up_call_gc_mark_children = (\<lambda>_. VM_done), up_call_obj_free = (\<lambda>_ v. v),
     up_cleanup_generic_iv_tbl = VM_done, up_get_original_givtbl = (\<lambda>_ _. 0),
     up_move_givtbl = (\<lambda>_ _ v. v), up_vm_live_bytes = (\<lambda>_. 0),
     up_update_frozen_strings_table = VM_done, up_update_finalizer_and_obj_id_tables = VM_done,
     up_update_global_symbols_table = VM_done, up_update_overloaded_cme_table = VM_done,
     up_update_ci_table = VM_done, up_get_generic_iv_tbl = (\<lambda>_. 0),
     up_get_frozen_strings_table = (\<lambda>_. 0), up_get_finalizer_table = (\<lambda>_. 0),
     up_get_obj_to_id_table = (\<lambda>_. 0), up_get_id_to_obj_table = (\<lambda>_. 0),
     up_get_global_symbols_table = (\<lambda>_. 0), up_get_overloaded_cme_table = (\<lambda>_. 0),
     up_get_ci_table = (\<lambda>_. 0), up_st_get_num_entries = (\<lambda>_ _. 0),
     up_st_get_size_info = (\<lambda>_ _. (0, 0, 0)),
     up_st_update_entries_range = (\<lambda>_ _ _ _ _ _ v. (0, v)),
     up_st_update_bins_range = (\<lambda>_ _ _ v. (0, v))\<rparr>"

text \<open>
  A VM whose state is the generic ivar table: every PPP \<open>ob\<close> wants \<open>ob + 64\<close> pinned and also reports
  the object at 8 without a pin.
\<close>

definition ivar_upcalls :: "(objref \<rightharpoonup> address) ruby_upcalls" where
  "ivar_upcalls = null_upcalls\<lparr>
     up_call_gc_mark_children := (\<lambda>ob v. VM_visit (ob + 64) True (\<lambda>_. VM_visit 8 False (\<lambda>_. VM_done v))),
     up_get_original_givtbl := (\<lambda>ob v. case v ob of None \<Rightarrow> 0 | Some p \<Rightarrow> p),
     up_move_givtbl := (\<lambda>old new v. case v old of None \<Rightarrow> v | Some p \<Rightarrow> v(old := None, new \<mapsto> p))\<rparr>"

text \<open>The table as the contract reads it: null is no ivar table.\<close>

definition ivar_table :: "(objref \<rightharpoonup> address) \<Rightarrow> (objref \<rightharpoonup> address)" where
  "ivar_table v ob = (if v ob = Some 0 then None else v ob)"

section \<open>A collector\<close>

text \<open>
  The state is the set of pinned objects. The object at 24 is dead, the one at 16 has moved to 32; the
  current GC is a nursery GC and may move objects; every address is an object.
\<close>

definition example_core :: "objref set mmtk_core" where
  "example_core = \<lparr>
     mc_is_reachable = (\<lambda>ob _. ob \<noteq> 24), mc_is_live = (\<lambda>ob _. ob \<noteq> 24),
     mc_get_forwarded_object = (\<lambda>ob _. if ob = 16 then Some 32 else None),
     mc_current_gc_may_move_object = (\<lambda>_. True), mc_generational_nursery = (\<lambda>_. Some True),
     mc_pin_object = (\<lambda>ob m. (ob \<notin> m, insert ob m)),
     mc_unpin_object = (\<lambda>ob m. (ob \<in> m, m - {ob})),
     mc_is_mmtk_object = (\<lambda>a _. Some a), mc_trace_object = (\<lambda>ob m. (ob, m)),
     mc_vo_bit_region_size = 8\<rparr>"

lemma example_pin_contract: "pin_contract example_core (\<lambda>m. m)"
  by (simp add: pin_contract_def example_core_def)

section \<open>A world\<close>

definition example_options :: ruby_binding_options where
  "example_options = \<lparr>ractor_check_mode = False, opt_suffix_size = 8\<rparr>"

definition example_binding :: ruby_binding where
  "example_binding = snd (ruby_binding_new Map.empty example_options)"

definition example_world :: "'m \<Rightarrow> 'v \<Rightarrow> ruby_binding \<Rightarrow> ('m, 'v) world" where
  "example_world m v b = \<lparr>w_core = m, w_vm = v, w_binding = b, w_buckets = (\<lambda>_. []), w_latches = [],
     w_root_work = [], w_probes = []\<rparr>"

lemma example_binding_simps [simp]:
  "plan_name example_binding = mutex_new None" "weak_proc example_binding = weak_processor_new"
  "ppp_reg example_binding = ppp_registry_new" "moved_givtbl example_binding = mutex_new Map.empty"
  "gc_thread_join_handles example_binding = mutex_new []"
  "wb_unprotected_objects example_binding = mutex_new {}"
  "st_entries_chunk_size example_binding = 1024" "st_bins_chunk_size example_binding = 4096"
  by (simp_all add: example_binding_def ruby_binding_new_def env_default_def)

lemma example_world_simps [simp]:
  "w_core (example_world m v b) = m" "w_vm (example_world m v b) = v"
  "w_binding (example_world m v b) = b" "w_buckets (example_world m v b) = (\<lambda>_. [])"
  "w_latches (example_world m v b) = []" "w_root_work (example_world m v b) = []"
  "w_probes (example_world m v b) = []"
  by (simp_all add: example_world_def)

text \<open>The thread-local storage of one GC worker thread, at address 4096.\<close>

definition example_tls :: "address \<rightharpoonup> 's gc_thread_tls" where
  "example_tls = [4096 \<mapsto> for_worker 8192]"

lemma example_tls_idle: "idle_gc_thread example_tls 4096"
  by (simp add: example_tls_def idle_gc_thread_def for_worker_def gc_thread_tls_new_def)

lemmas example_defs = null_upcalls_def ivar_upcalls_def example_core_def

end
