(* ===== verification/Chunking.thy ===== *)
theory Chunking
  imports Prelude
begin

text \<open>
  Splitting work into packets. The locales state what the scanning and pinning code needs from a
  splitter: nothing lost, nothing empty, nothing too big (\<open>chunker\<close>), and all packets but the last
  full (\<open>full_chunker\<close>). The providers are Rust's \<open>slice::chunks\<close> (here \<open>slices\<close>) and
  \<open>ChunkedVecCollector\<close> of \<open>mmtk/src/utils.rs\<close>; the flushing root buffer of \<open>scanning.rs\<close> is a third.
\<close>

section \<open>The reference: slice::chunks\<close>

function slices :: "nat \<Rightarrow> 'a list \<Rightarrow> 'a list list" where
  "slices n xs = (if xs = [] \<or> n = 0 then [] else take n xs # slices n (drop n xs))"
  by pat_completeness auto
termination
  by (relation "measure (\<lambda>(n, xs). length xs)") auto

declare slices.simps [simp del]

lemma slices_Nil [simp]: "slices n [] = []"
  by (simp add: slices.simps)

lemma slices_step: "xs \<noteq> [] \<Longrightarrow> 0 < n \<Longrightarrow> slices n xs = take n xs # slices n (drop n xs)"
  by (simp add: slices.simps [of n xs])

lemma concat_slices: "0 < n \<Longrightarrow> concat (slices n xs) = xs"
proof (induction n xs rule: slices.induct)
  case (1 n xs)
  then show ?case by (cases "xs = []") (simp_all add: slices_step)
qed

lemma slices_bounds: "c \<in> set (slices n xs) \<Longrightarrow> c \<noteq> [] \<and> length c \<le> n"
proof (induction n xs rule: slices.induct)
  case (1 n xs)
  then show ?case by (cases "xs = [] \<or> n = 0") (auto simp: slices.simps [of n xs])
qed

lemma slices_full: "c \<in> set (butlast (slices n xs)) \<Longrightarrow> length c = n"
proof (induction n xs rule: slices.induct)
  case (1 n xs)
  show ?case
  proof (cases "xs = [] \<or> n = 0")
    case True
    with "1.prems" show ?thesis by (auto simp: slices.simps [of n xs])
  next
    case False
    show ?thesis
    proof (cases "slices n (drop n xs) = []")
      case True
      with False "1.prems" show ?thesis by (simp add: slices_step)
    next
      case ne: False
      then have "drop n xs \<noteq> []" by auto
      with ne False 1 show ?thesis by (auto simp: slices_step)
    qed
  qed
qed

section \<open>The contract of a splitter\<close>

locale chunker =
  fixes chunk :: "'a list \<Rightarrow> 'a list list" and bound :: nat
  assumes concat_chunk: "concat (chunk xs) = xs"
    and chunk_nonempty: "c \<in> set (chunk xs) \<Longrightarrow> c \<noteq> []"
    and chunk_bounded: "c \<in> set (chunk xs) \<Longrightarrow> length c \<le> bound"
begin

lemma chunk_Nil: "chunk [] = []"
  using concat_chunk [of "[]"] chunk_nonempty [of _ "[]"]
  by (metis concat_eq_Nil_conv list.set_intros(1) neq_Nil_conv)

lemma set_chunk: "(\<Union>c \<in> set (chunk xs). set c) = set xs"
  by (metis concat_chunk set_concat)

lemma mset_chunk: "sum_list (map mset (chunk xs)) = mset xs"
  by (metis concat_chunk mset_concat)

text \<open>A packet-wise traversal is the traversal of the whole list.\<close>

lemma fold_chunks: "fold (fold f) (chunk xs) s = fold f xs s"
proof -
  have "fold (fold f) css s = fold f (concat css) s" for css and s :: 'b
    by (induction css arbitrary: s) auto
  then show ?thesis by (metis concat_chunk)
qed

lemma length_chunk_le: "length (chunk xs) \<le> length xs"
proof -
  have "length css \<le> length (concat css)" if "\<And>c. c \<in> set css \<Longrightarrow> c \<noteq> []" for css :: "'a list list"
    using that
  proof (induction css)
    case (Cons c css)
    from Cons.prems [of c] have "1 \<le> length c" by (simp add: Suc_le_eq)
    moreover have "length css \<le> length (concat css)"
      by (rule Cons.IH) (simp add: Cons.prems)
    ultimately show ?case by (simp del: length_concat)
  qed simp
  then show ?thesis by (metis concat_chunk chunk_nonempty)
qed

end

locale full_chunker = chunker +
  assumes chunk_full: "c \<in> set (butlast (chunk xs)) \<Longrightarrow> length c = bound"
    and bound_pos: "0 < bound"
begin

text \<open>The contract determines the packets: every full splitter is \<open>slice::chunks\<close>.\<close>

lemma chunk_eq_slices: "chunk xs = slices bound xs"
proof -
  have "css = slices bound (concat css)"
    if "\<And>c. c \<in> set css \<Longrightarrow> c \<noteq> [] \<and> length c \<le> bound"
      and "\<And>c. c \<in> set (butlast css) \<Longrightarrow> length c = bound" for css :: "'a list list"
    using that
  proof (induction css)
    case Nil
    then show ?case by simp
  next
    case (Cons c css)
    have c: "c \<noteq> []" "length c \<le> bound"
      using Cons.prems(1) [of c] by auto
    have rest: "css = slices bound (concat css)"
    proof (rule Cons.IH)
      show "d \<noteq> [] \<and> length d \<le> bound" if "d \<in> set css" for d
        using that Cons.prems(1) by simp
      show "length d = bound" if "d \<in> set (butlast css)" for d
        using that Cons.prems(2) [of d] by (cases css) auto
    qed
    show ?case
    proof (cases "css = []")
      case True
      with c bound_pos show ?thesis by (simp add: slices_step)
    next
      case False
      then have "length c = bound"
        using Cons.prems(2) [of c] by simp
      then show ?thesis
        using c rest bound_pos by (simp add: slices_step)
    qed
  qed
  from this [of "chunk xs"] show ?thesis
    by (simp add: concat_chunk chunk_nonempty chunk_bounded chunk_full)
qed

end

interpretation slice_chunks: full_chunker "slices (Suc n)" "Suc n" for n
  by unfold_locales (auto simp: concat_slices slices_full dest: slices_bounds)

section \<open>ChunkedVecCollector\<close>

record 'a chunked_vec_collector =
  vecs :: "'a list list"
  current_vec :: "'a list"
  chunk_size :: usize

definition collector_new :: "usize \<Rightarrow> 'a chunked_vec_collector" where
  "collector_new n = \<lparr>vecs = [], current_vec = [], chunk_size = n\<rparr>"

definition collector_flush :: "'a chunked_vec_collector \<Rightarrow> 'a chunked_vec_collector" where
  "collector_flush c = c\<lparr>current_vec := [], vecs := vecs c @ [current_vec c]\<rparr>"

definition collector_add :: "'a \<Rightarrow> 'a chunked_vec_collector \<Rightarrow> 'a chunked_vec_collector" where
  "collector_add item c =
     (let c' = c\<lparr>current_vec := current_vec c @ [item]\<rparr>
      in if length (current_vec c') = unat (chunk_size c') then collector_flush c' else c')"

definition collector_into_vecs :: "'a chunked_vec_collector \<Rightarrow> 'a list list" where
  "collector_into_vecs c =
     vecs (if current_vec c \<noteq> [] then collector_flush c else c)"

definition collector_extend :: "'a list \<Rightarrow> 'a chunked_vec_collector \<Rightarrow> 'a chunked_vec_collector" where
  "collector_extend items c = fold collector_add items c"

lemmas collector_defs =
  collector_new_def collector_flush_def collector_add_def collector_into_vecs_def
  collector_extend_def

text \<open>Between calls: only full vectors are stored, and the current one is not full yet.\<close>

definition collector_inv :: "'a chunked_vec_collector \<Rightarrow> bool" where
  "collector_inv c \<longleftrightarrow> length (current_vec c) < unat (chunk_size c) \<and>
     (\<forall>v \<in> set (vecs c). length v = unat (chunk_size c))"

definition collector_items :: "'a chunked_vec_collector \<Rightarrow> 'a list" where
  "collector_items c = concat (vecs c) @ current_vec c"

lemma collector_new_inv: "0 < n \<Longrightarrow> collector_inv (collector_new n)"
  by (simp add: collector_inv_def collector_new_def word_less_nat_alt)

lemma collector_add_inv: "collector_inv c \<Longrightarrow> collector_inv (collector_add x c)"
  by (auto simp: collector_inv_def collector_add_def collector_flush_def Let_def)

lemma collector_add_items [simp]: "collector_items (collector_add x c) = collector_items c @ [x]"
  by (simp add: collector_items_def collector_add_def collector_flush_def Let_def)

lemma collector_add_chunk_size [simp]: "chunk_size (collector_add x c) = chunk_size c"
  by (simp add: collector_add_def collector_flush_def Let_def)

lemma collector_extend_inv: "collector_inv c \<Longrightarrow> collector_inv (collector_extend xs c)"
  unfolding collector_extend_def by (induction xs arbitrary: c) (auto intro: collector_add_inv)

lemma collector_extend_items: "collector_items (collector_extend xs c) = collector_items c @ xs"
  unfolding collector_extend_def by (induction xs arbitrary: c) auto

lemma collector_extend_chunk_size: "chunk_size (collector_extend xs c) = chunk_size c"
  unfolding collector_extend_def by (induction xs arbitrary: c) auto

lemma collector_into_vecs_items: "concat (collector_into_vecs c) = collector_items c"
  by (simp add: collector_into_vecs_def collector_items_def collector_flush_def)

lemma collector_into_vecs_inv:
  assumes "collector_inv c"
  shows "v \<in> set (collector_into_vecs c) \<Longrightarrow> v \<noteq> [] \<and> length v \<le> unat (chunk_size c)"
    and "v \<in> set (butlast (collector_into_vecs c)) \<Longrightarrow> length v = unat (chunk_size c)"
proof -
  have full: "\<And>u. u \<in> set (vecs c) \<Longrightarrow> length u = unat (chunk_size c)"
    and cur: "length (current_vec c) < unat (chunk_size c)"
    using assms by (auto simp: collector_inv_def)
  show "v \<in> set (collector_into_vecs c) \<Longrightarrow> v \<noteq> [] \<and> length v \<le> unat (chunk_size c)"
    using full cur by (force simp: collector_into_vecs_def collector_flush_def split: if_splits)
  show "v \<in> set (butlast (collector_into_vecs c)) \<Longrightarrow> length v = unat (chunk_size c)"
    using full by (auto simp: collector_into_vecs_def collector_flush_def split: if_splits
        dest: in_set_butlastD)
qed

text \<open>The use the binding makes of it: collect a whole list, then take the vectors.\<close>

definition collect_chunks :: "usize \<Rightarrow> 'a list \<Rightarrow> 'a list list" where
  "collect_chunks n items = collector_into_vecs (collector_extend items (collector_new n))"

lemma concat_collect_chunks: "concat (collect_chunks n xs) = xs"
  by (simp add: collect_chunks_def collector_into_vecs_items collector_extend_items)
    (simp add: collector_items_def collector_new_def)

lemma collect_chunks_inv: "0 < n \<Longrightarrow> collector_inv (collector_extend xs (collector_new n))"
  by (intro collector_extend_inv collector_new_inv)

lemma collect_chunks_size: "chunk_size (collector_extend xs (collector_new n)) = n"
  by (simp add: collector_extend_chunk_size) (simp add: collector_new_def)

lemma collect_chunks_full_chunker:
  assumes "0 < n"
  shows "full_chunker (collect_chunks n) (unat n)"
proof unfold_locales
  note inv = collector_into_vecs_inv [OF collect_chunks_inv [OF assms]]
  fix c xs
  show "concat (collect_chunks n xs) = xs"
    by (rule concat_collect_chunks)
  show "c \<noteq> []" "length c \<le> unat n" if "c \<in> set (collect_chunks n xs)"
    using inv(1) [of c xs] that by (auto simp: collect_chunks_def collect_chunks_size)
  show "length c = unat n" if "c \<in> set (butlast (collect_chunks n xs))"
    using inv(2) [of c xs] that by (auto simp: collect_chunks_def collect_chunks_size)
  show "0 < unat n"
    using assms by (simp add: word_less_nat_alt)
qed

text \<open>The splitter of the write-barrier-unprotected roots collects vectors of 128.\<close>

interpretation wb_chunks: full_chunker "collect_chunks 128" 128
  using collect_chunks_full_chunker [of 128] by simp

text \<open>With a chunk size of zero the collector never flushes: one vector holds everything.\<close>

lemma collect_chunks_zero: "collect_chunks 0 xs = (if xs = [] then [] else [xs])"
proof -
  have "collector_extend xs c = c\<lparr>current_vec := current_vec c @ xs\<rparr>"
    if "chunk_size c = 0" for c :: "'a chunked_vec_collector"
    using that unfolding collector_extend_def
    by (induction xs arbitrary: c) (auto simp: collector_add_def Let_def)
  then show ?thesis
    by (simp add: collect_chunks_def collector_new_def collector_into_vecs_def collector_flush_def)
qed

section \<open>Properties\<close>

text \<open>
  Collecting with a positive chunk size is \<open>slice::chunks\<close>: the vectors are the consecutive slices
  of that size, also when the items are added in several calls of \<open>extend\<close>.
\<close>

theorem collector_is_chunks:
  assumes "0 < n"
  shows "collector_into_vecs (collector_extend ys (collector_extend xs (collector_new n))) =
    slices (unat n) (xs @ ys)"
proof -
  have "collector_extend ys (collector_extend xs (collector_new n)) =
      collector_extend (xs @ ys) (collector_new n)"
    by (simp add: collector_extend_def)
  then show ?thesis
    using full_chunker.chunk_eq_slices [OF collect_chunks_full_chunker [OF assms], of "xs @ ys"]
    by (simp add: collect_chunks_def)
qed

theorem collector_is_chunks_witness:
  "collector_into_vecs (collector_extend [4 :: nat, 5] (collector_extend [1, 2, 3] (collector_new 2))) =
     [[1, 2], [3, 4], [5]]"
  using collector_is_chunks [of 2 "[4 :: nat, 5]" "[1, 2, 3]"]
  by (simp add: slices_step)

end
