(* ===== verification/Contracts.thy ===== *)
theory Contracts
  imports Prelude
begin

text \<open>
  Two contracts that several components share. A \<open>registry\<close> collects objects that mutators report
  one by one or in batches; \<open>PPPRegistry\<close> and \<open>WeakProcessor\<close> provide it. A \<open>weak_list\<close> is a list of
  objects a GC cuts down to the survivors, forwarded and in order; the removal of dead PPPs and the
  processing of \<open>obj_free\<close> candidates provide it.
\<close>

section \<open>Registries\<close>

text \<open>A report of a mutator: one object, or a batch.\<close>

datatype 'a report = Report_one 'a | Report_many "'a list"

fun reported :: "'a report \<Rightarrow> 'a list" where
  "reported (Report_one x) = [x]"
| "reported (Report_many xs) = xs"

locale registry =
  fixes add :: "'a \<Rightarrow> 'r \<Rightarrow> 'r res" and add_many :: "'a list \<Rightarrow> 'r \<Rightarrow> 'r res"
    and items :: "'r \<Rightarrow> 'a list" and usable :: "'r \<Rightarrow> bool"
  assumes add_ok: "usable r \<Longrightarrow> \<exists>r'. add x r = Inr r' \<and> usable r' \<and> items r' = items r @ [x]"
    and add_many_ok:
      "usable r \<Longrightarrow> \<exists>r'. add_many xs r = Inr r' \<and> usable r' \<and> items r' = items r @ xs"
begin

definition deliver :: "'a report \<Rightarrow> 'r \<Rightarrow> 'r res" where
  "deliver rp r = (case rp of Report_one x \<Rightarrow> add x r | Report_many xs \<Rightarrow> add_many xs r)"

lemma deliver_ok:
  "usable r \<Longrightarrow> \<exists>r'. deliver rp r = Inr r' \<and> usable r' \<and> items r' = items r @ reported rp"
  by (cases rp) (simp_all add: deliver_def add_ok add_many_ok)

text \<open>No report is lost and none is invented, whatever mix of single and batch calls arrives.\<close>

lemma deliver_all:
  "usable r \<Longrightarrow> \<exists>r'. fold_res deliver rps r = Inr r' \<and> usable r' \<and>
     items r' = items r @ concat (map reported rps)"
proof (induction rps arbitrary: r)
  case Nil
  then show ?case by simp
next
  case (Cons rp rps)
  obtain r1 where r1: "deliver rp r = Inr r1" "usable r1" "items r1 = items r @ reported rp"
    using deliver_ok [OF Cons.prems, of rp] by blast
  then show ?case
    using Cons.IH [OF r1(2)] by auto
qed

text \<open>A batch is as good as its elements one by one.\<close>

lemma add_many_eq_adds:
  assumes "usable r" "add_many xs r = Inr r1" "fold_res add xs r = Inr r2"
  shows "items r1 = items r2"
proof -
  have "\<exists>r'. fold_res add ys q = Inr r' \<and> items r' = items q @ ys" if "usable q" for ys q
    using that
  proof (induction ys arbitrary: q)
    case (Cons y ys)
    then obtain q1 where "add y q = Inr q1" "usable q1" "items q1 = items q @ [y]"
      using add_ok by blast
    with Cons.IH [of q1] show ?case by auto
  qed simp
  from this [OF assms(1), of xs] add_many_ok [OF assms(1), of xs] assms(2,3) show ?thesis
    by auto
qed

end

section \<open>Weak lists\<close>

locale weak_list =
  fixes process :: "'a list \<Rightarrow> 'a list" and keep :: "'a \<Rightarrow> bool" and fwd :: "'a \<Rightarrow> 'a"
  assumes process_eq: "process xs = map fwd (filter keep xs)"
begin

lemma process_append: "process (xs @ ys) = process xs @ process ys"
  by (simp add: process_eq)

lemma set_process: "set (process xs) = fwd ` {x \<in> set xs. keep x}"
  by (simp add: process_eq)

lemma length_process: "length (process xs) + length (filter (\<lambda>x. \<not> keep x) xs) = length xs"
  by (simp add: process_eq sum_length_filter_compl)

lemma process_distinct:
  assumes "inj_on fwd {x \<in> set xs. keep x}" "distinct xs"
  shows "distinct (process xs)"
  using assms by (simp add: process_eq distinct_map)

lemma process_all_live:
  assumes "\<And>x. x \<in> set xs \<Longrightarrow> keep x \<and> fwd x = x"
  shows "process xs = xs"
  using assms by (simp add: process_eq map_idI)

lemma mset_process: "mset (process xs) = image_mset fwd (filter_mset keep (mset xs))"
  by (simp add: process_eq)

end

end
