(* ===== verification/Ppp.thy ===== *)
theory Ppp
  imports Example Chunking Contracts
begin

text \<open>
  \<open>mmtk/src/ppp.rs\<close>: potential pinning parents. Before a moving GC the children that registered PPPs
  want pinned are pinned, in packets of 512 PPPs; after tracing, dead PPPs are removed from the
  registry and the children this GC pinned are unpinned. The concurrent part, several packets pinning
  through atomic operations on shared pin bits, is a step relation.
\<close>

section \<open>Registration\<close>

definition register :: "objref \<Rightarrow> ppp_registry \<Rightarrow> ppp_registry res" where
  "register ob r =
     bind_res (lock_unwrap (ppps r)) (\<lambda>xs. Inr (r\<lparr>ppps := (ppps r)\<lparr>mutex_data := xs @ [ob]\<rparr>\<rparr>))"

definition register_many :: "objref list \<Rightarrow> ppp_registry \<Rightarrow> ppp_registry res" where
  "register_many objects r =
     bind_res (lock_unwrap (ppps r)) (\<lambda>xs.
     Inr (r\<lparr>ppps := (ppps r)\<lparr>mutex_data := fold (\<lambda>ob acc. acc @ [ob]) objects xs\<rparr>\<rparr>))"

definition registered :: "ppp_registry \<Rightarrow> objref list" where
  "registered r = mutex_data (ppps r)"

lemma fold_push [simp]: "fold (\<lambda>x acc. acc @ [x]) xs acc = acc @ xs"
  by (induction xs arbitrary: acc) auto

interpretation ppp_registry: registry register register_many registered "\<lambda>r. mutex_free (ppps r)"
  by unfold_locales (auto simp: register_def register_many_def registered_def)

section \<open>Pinning the children\<close>

definition ppp_packet_size :: nat where
  "ppp_packet_size = 512"

definition pin_ppp_children ::
  "build \<Rightarrow> 'm mmtk_core \<Rightarrow> (address \<rightharpoonup> 's gc_thread_tls) \<Rightarrow> vm_worker_thread \<Rightarrow>
   ('m, 'v) world \<Rightarrow> ('m, 'v) world res" where
  "pin_ppp_children cfg core tls_mem tls w =
     (if \<not> mc_current_gc_may_move_object core (w_core w) then Inr w
      else
        bind_res (from_vwt_check cfg tls_mem tls) (\<lambda>gc_tls.
        bind_res (tls_worker gc_tls) (\<lambda>_.
        bind_res (try_lock_expect ''PPPRegistry should not have races during GC.''
                   (ppps (ppp_reg (w_binding w)))) (\<lambda>ppps.
        Inr (submit Prepare (map PinPPPChildren (slices ppp_packet_size ppps)) w)))))"

text \<open>The visitor of \<open>PinPPPChildren\<close> collects the objects reported with the pin flag.\<close>

definition pin_visitor :: "objref list visitor" where
  "pin_visitor target pin children = Inr (target, if pin then children @ [target] else children)"

text \<open>The loop over the PPPs that runs under the closure; it counts those that are PPPs no longer.\<close>

fun pin_body :: "'v ruby_upcalls \<Rightarrow> objref list \<Rightarrow> nat \<Rightarrow> 'v \<Rightarrow> (nat \<times> 'v) vmcode" where
  "pin_body up [] n v = VM_done (n, v)"
| "pin_body up (ob # obs) n v =
     (if up_is_no_longer_ppp up ob v then pin_body up obs (Suc n) v
      else vm_bind (up_call_gc_mark_children up ob v) (pin_body up obs n))"

fun pin_children :: "'m mmtk_core \<Rightarrow> objref list \<Rightarrow> 'm \<Rightarrow> objref list \<times> 'm" where
  "pin_children core [] m = ([], m)"
| "pin_children core (ob # obs) m =
     (let (newly, m1) = mc_pin_object core ob m; (rest, m2) = pin_children core obs m1
      in (if newly then ob # rest else rest, m2))"

definition put_pinned :: "objref list \<Rightarrow> ('m, 'v) world \<Rightarrow> ('m, 'v) world" where
  "put_pinned xs w = w\<lparr>w_binding := (w_binding w)\<lparr>ppp_reg := (ppp_reg (w_binding w))\<lparr>
     pinned_ppp_children := (pinned_ppp_children (ppp_reg (w_binding w)))\<lparr>mutex_data := xs\<rparr>\<rparr>\<rparr>\<rparr>"

definition put_ppps :: "objref list \<Rightarrow> ('m, 'v) world \<Rightarrow> ('m, 'v) world" where
  "put_ppps xs w = w\<lparr>w_binding := (w_binding w)\<lparr>ppp_reg := (ppp_reg (w_binding w))\<lparr>
     ppps := (ppps (ppp_reg (w_binding w)))\<lparr>mutex_data := xs\<rparr>\<rparr>\<rparr>\<rparr>"

definition pin_ppp_children_do_work ::
  "build \<Rightarrow> 'm mmtk_core \<Rightarrow> 'v ruby_upcalls \<Rightarrow> (address \<rightharpoonup> objref list gc_thread_tls) \<Rightarrow>
   vm_worker_thread \<Rightarrow> objref list \<Rightarrow> ('m, 'v) world \<Rightarrow> ('m, 'v) world res" where
  "pin_ppp_children_do_work cfg core up tls_mem tls chunk w =
     bind_res (from_vwt_check cfg tls_mem tls) (\<lambda>gc_tls.
     bind_res (run_with_closure cfg (object_closure gc_tls) pin_visitor
                (pin_body up chunk 0 (w_vm w)) []) (\<lambda>((no_longer, v), children).
     let (newly, m) = pin_children core children (w_core w);
         w1 = emit (Probe_pin_ppp_children (length chunk) no_longer (length newly))
                (w\<lparr>w_vm := v, w_core := m\<rparr>)
     in bind_res (lock_unwrap (pinned_ppp_children (ppp_reg (w_binding w1)))) (\<lambda>pinned.
        Inr (put_pinned (pinned @ newly) w1))))"

section \<open>Removing dead PPPs\<close>

text \<open>\<open>retain_mut\<close>: the kept elements, and how many were no longer PPPs and how many dead.\<close>

fun retain_ppps ::
  "'m mmtk_core \<Rightarrow> 'v ruby_upcalls \<Rightarrow> 'm \<Rightarrow> 'v \<Rightarrow> objref list \<Rightarrow> objref list \<times> nat \<times> nat" where
  "retain_ppps core up m v [] = ([], 0, 0)"
| "retain_ppps core up m v (ob # obs) =
     (let (kept, no_longer, dead) = retain_ppps core up m v obs
      in if mc_is_live core ob m then
           (let new_obj = forward core m ob
            in if up_is_no_longer_ppp up new_obj v then (kept, Suc no_longer, dead)
               else (new_obj # kept, no_longer, dead))
         else (kept, no_longer, Suc dead))"

definition remove_dead_ppps_do_work ::
  "'m mmtk_core \<Rightarrow> 'v ruby_upcalls \<Rightarrow> ('m, 'v) world \<Rightarrow> ('m, 'v) world res" where
  "remove_dead_ppps_do_work core up w =
     bind_res (try_lock_expect ''PPPRegistry::ppps should not have races during GC.''
                (ppps (ppp_reg (w_binding w)))) (\<lambda>xs.
     let (kept, no_longer, dead) = retain_ppps core up (w_core w) (w_vm w) xs
     in Inr (emit (Probe_remove_dead_ppps (length xs) no_longer dead) (put_ppps kept w)))"

text \<open>A registered PPP stays when it is live and its forwarded object is still a PPP.\<close>

definition ppp_stays :: "'m mmtk_core \<Rightarrow> 'v ruby_upcalls \<Rightarrow> 'm \<Rightarrow> 'v \<Rightarrow> objref \<Rightarrow> bool" where
  "ppp_stays core up m v ob \<longleftrightarrow>
     mc_is_live core ob m \<and> \<not> up_is_no_longer_ppp up (forward core m ob) v"

lemma retain_ppps_eq:
  "retain_ppps core up m v xs =
     (map (forward core m) (filter (ppp_stays core up m v) xs),
      length (filter (\<lambda>ob. mc_is_live core ob m \<and> up_is_no_longer_ppp up (forward core m ob) v) xs),
      length (filter (\<lambda>ob. \<not> mc_is_live core ob m) xs))"
  by (induction xs) (auto simp: ppp_stays_def Let_def)

lemma ppps_partition:
  "length (filter (ppp_stays core up m v) xs) +
     length (filter (\<lambda>ob. mc_is_live core ob m \<and> up_is_no_longer_ppp up (forward core m ob) v) xs) +
     length (filter (\<lambda>ob. \<not> mc_is_live core ob m) xs) = length xs"
  by (induction xs) (auto simp: ppp_stays_def)

interpretation ppp_weak: weak_list "\<lambda>xs. fst (retain_ppps core up m v xs)"
    "ppp_stays core up m v" "forward core m" for core up m v
  by unfold_locales (simp add: retain_ppps_eq)

section \<open>Unpinning\<close>

fun unpin_children :: "build \<Rightarrow> 'm mmtk_core \<Rightarrow> objref list \<Rightarrow> 'm \<Rightarrow> 'm res" where
  "unpin_children cfg core [] m = Inr m"
| "unpin_children cfg core (ob # obs) m =
     (let (unpinned, m1) = mc_unpin_object core ob m
      in bind_res (debug_assert cfg unpinned ''unpinned'') (\<lambda>_. unpin_children cfg core obs m1))"

definition unpin_ppp_children_do_work ::
  "build \<Rightarrow> 'm mmtk_core \<Rightarrow> objref list \<Rightarrow> ('m, 'v) world \<Rightarrow> ('m, 'v) world res" where
  "unpin_ppp_children_do_work cfg core children w =
     bind_res (unpin_children cfg core children (w_core w)) (\<lambda>m.
     Inr (emit (Probe_unpin_ppp_children (length children)) (w\<lparr>w_core := m\<rparr>)))"

definition cleanup_ppps ::
  "build \<Rightarrow> 'm mmtk_core \<Rightarrow> ('m, 'v) world \<Rightarrow> ('m, 'v) world res" where
  "cleanup_ppps cfg core w =
     (let w1 = submit VMRefClosure [RemoveDeadPPPs] w;
          pinned = pinned_ppp_children (ppp_reg (w_binding w1))
      in if mc_current_gc_may_move_object core (w_core w1) then
           bind_res (try_lock_expect ''Unexpected contention on pinned_ppp_children'' pinned)
             (\<lambda>children. Inr (submit VMRefClosure [UnpinPPPChildren children] (put_pinned [] w1)))
         else if debug_assertions cfg then
           bind_res (try_lock_expect ''Unexpected contention on pinned_ppp_children'' pinned)
             (\<lambda>children. bind_res (assert (length children = 0) ''pinned_ppp_children.len() == 0'')
               (\<lambda>_. Inr w1))
         else Inr w1)"

lemma put_simps [simp]:
  "w_core (put_pinned xs w) = w_core w" "w_vm (put_pinned xs w) = w_vm w"
  "w_buckets (put_pinned xs w) = w_buckets w" "w_probes (put_pinned xs w) = w_probes w"
  "ppps (ppp_reg (w_binding (put_pinned xs w))) = ppps (ppp_reg (w_binding w))"
  "mutex_data (pinned_ppp_children (ppp_reg (w_binding (put_pinned xs w)))) = xs"
  "mutex_free (pinned_ppp_children (ppp_reg (w_binding (put_pinned xs w)))) =
     mutex_free (pinned_ppp_children (ppp_reg (w_binding w)))"
  "w_core (put_ppps xs w) = w_core w" "w_vm (put_ppps xs w) = w_vm w"
  "w_buckets (put_ppps xs w) = w_buckets w" "w_probes (put_ppps xs w) = w_probes w"
  "pinned_ppp_children (ppp_reg (w_binding (put_ppps xs w))) =
     pinned_ppp_children (ppp_reg (w_binding w))"
  "mutex_data (ppps (ppp_reg (w_binding (put_ppps xs w)))) = xs"
  "mutex_free (ppps (ppp_reg (w_binding (put_ppps xs w)))) =
     mutex_free (ppps (ppp_reg (w_binding w)))"
  by (simp_all add: put_pinned_def put_ppps_def)

section \<open>What one pinning packet does\<close>

lemma fold_pin_visitor:
  "fold (\<lambda>(ob, pin) acc. if pin then acc @ [ob] else acc) vs acc = acc @ map fst (filter snd vs)"
  by (induction vs arbitrary: acc) auto

lemma run_pin_visitor:
  "run_with_closure cfg object_closure_default pin_visitor c acc =
     Inr (vm_result c, acc @ map fst (filter snd (visits c)))"
proof -
  have "run_with_closure cfg object_closure_default pin_visitor c acc =
      Inr (vm_result c, fold (\<lambda>(ob, pin) acc. if pin then acc @ [ob] else acc) (visits c) acc)"
    by (rule closure_host.run_identity) (simp add: pin_visitor_def)
  then show ?thesis by (simp only: fold_pin_visitor)
qed

lemma pin_children_contract:
  assumes "pin_contract core pinned" and "pin_children core obs m = (newly, m')"
  shows "pinned m' = pinned m \<union> set obs \<and> distinct newly \<and> set newly = set obs - pinned m"
  using assms(2)
proof (induction obs arbitrary: m newly m')
  case Nil
  then show ?case by simp
next
  case (Cons ob obs)
  obtain b m1 where p: "mc_pin_object core ob m = (b, m1)"
    by (cases "mc_pin_object core ob m")
  obtain rest m2 where r: "pin_children core obs m1 = (rest, m2)"
    by (cases "pin_children core obs m1")
  have "b = (ob \<notin> pinned m)" "pinned m1 = insert ob (pinned m)"
    using pin_contractD(1,2) [OF assms(1), of ob m] p by simp_all
  moreover have "newly = (if b then ob # rest else rest)" "m' = m2"
    using Cons.prems p r by simp_all
  ultimately show ?case
    using Cons.IH [OF r] by auto
qed

text \<open>The children a packet pins: what the VM reports with the pin flag for its PPPs.\<close>

definition reported_children :: "'v ruby_upcalls \<Rightarrow> objref list \<Rightarrow> 'v \<Rightarrow> objref list" where
  "reported_children up chunk v = map fst (filter snd (visits (pin_body up chunk 0 v)))"

lemma pin_do_work_eq:
  assumes "idle_gc_thread tls_mem tls"
    and "mutex_free (pinned_ppp_children (ppp_reg (w_binding w)))"
    and "pin_children core (reported_children up chunk (w_vm w)) (w_core w) = (newly, m)"
  shows "\<exists>no_longer v. vm_result (pin_body up chunk 0 (w_vm w)) = (no_longer, v) \<and>
    pin_ppp_children_do_work cfg core up tls_mem tls chunk w =
    Inr (put_pinned (mutex_data (pinned_ppp_children (ppp_reg (w_binding w))) @ newly)
      (emit (Probe_pin_ppp_children (length chunk) no_longer (length newly))
        (w\<lparr>w_vm := v, w_core := m\<rparr>)))"
proof -
  obtain gc_tls where g: "from_vwt_check cfg tls_mem tls = Inr gc_tls"
    "object_closure gc_tls = object_closure_default"
    using assms(1) by (rule idle_from_vwt_check)
  obtain no_longer v where r: "vm_result (pin_body up chunk 0 (w_vm w)) = (no_longer, v)"
    by (cases "vm_result (pin_body up chunk 0 (w_vm w))")
  show ?thesis
    using assms(2,3) g r
    by (simp add: pin_ppp_children_do_work_def run_pin_visitor reported_children_def [symmetric])
qed

section \<open>Properties\<close>

text \<open>
  Before a moving GC the registered PPPs are handed out completely: the Prepare bucket receives one
  packet per slice of 512, no slice is empty, and together they hold the registry in order. Before a
  non-moving GC nothing is submitted. The registry itself stays as it is.
\<close>

theorem pin_packets_cover_registry:
  assumes "idle_gc_thread tls_mem tls" and "mutex_free (ppps (ppp_reg (w_binding w)))"
  shows "\<exists>w' chunks. pin_ppp_children cfg core tls_mem tls w = Inr w' \<and>
    w_buckets w' = bulk_add Prepare (map PinPPPChildren chunks) (w_buckets w) \<and>
    concat chunks = (if mc_current_gc_may_move_object core (w_core w)
      then registered (ppp_reg (w_binding w)) else []) \<and>
    (\<forall>c \<in> set chunks. c \<noteq> [] \<and> length c \<le> 512) \<and>
    (\<forall>c \<in> set (butlast chunks). length c = 512) \<and> w_binding w' = w_binding w"
proof (cases "mc_current_gc_may_move_object core (w_core w)")
  case True
  let ?chunks = "slices 512 (registered (ppp_reg (w_binding w)))"
  obtain gc_tls where "from_vwt_check cfg tls_mem tls = Inr gc_tls" "kind gc_tls = GC_THREAD_KIND_WORKER"
    using assms(1) by (rule idle_from_vwt_check)
  then have "pin_ppp_children cfg core tls_mem tls w =
      Inr (submit Prepare (map PinPPPChildren ?chunks) w)"
    using assms(2) True
    by (simp add: pin_ppp_children_def tls_worker_def ppp_packet_size_def registered_def)
  with True show ?thesis
    by (intro exI [of _ "submit Prepare (map PinPPPChildren ?chunks) w"] exI [of _ ?chunks])
      (auto simp: concat_slices dest: slices_bounds slices_full)
qed (auto simp: pin_ppp_children_def intro!: exI [of _ w] exI [of _ "[]"])

theorem pin_packets_cover_registry_witness:
  "\<exists>w' chunks. pin_ppp_children debug_build example_core (example_tls :: address \<rightharpoonup> unit gc_thread_tls) 4096
      (put_ppps [16, 24] (example_world {} () example_binding)) = Inr w' \<and>
    w_buckets w' Prepare = map PinPPPChildren chunks \<and> concat chunks = [16, 24]"
proof -
  let ?w = "put_ppps [16, 24] (example_world ({} :: objref set) () example_binding)"
  have free: "mutex_free (ppps (ppp_reg (w_binding ?w)))"
    by (simp add: ppp_registry_new_def)
  obtain w' chunks where
    "pin_ppp_children debug_build example_core (example_tls :: address \<rightharpoonup> unit gc_thread_tls) 4096 ?w = Inr w'"
    "w_buckets w' = bulk_add Prepare (map PinPPPChildren chunks) (w_buckets ?w)"
    "concat chunks = (if mc_current_gc_may_move_object example_core (w_core ?w)
      then registered (ppp_reg (w_binding ?w)) else [])"
    using pin_packets_cover_registry [of "example_tls :: address \<rightharpoonup> unit gc_thread_tls" 4096 ?w
        debug_build example_core, OF example_tls_idle free]
    by (elim exE conjE) (rule that)
  moreover have "mc_current_gc_may_move_object example_core m" for m
    by (simp add: example_core_def)
  moreover have "registered (ppp_reg (w_binding ?w)) = [16, 24]"
    by (simp add: registered_def)
  ultimately show ?thesis
    by (intro exI [of _ w'] exI [of _ chunks]) simp
qed

text \<open>
  One pinning packet: every object the VM reports with the pin flag for the PPPs of the packet is
  pinned afterwards, nothing else changes its pin, and those that were not pinned before are
  appended, once each, to the list of the children to unpin. The closure never panics.
\<close>

theorem pin_packet_effect:
  assumes "pin_contract core pinned" and "idle_gc_thread tls_mem tls"
    and "mutex_free (pinned_ppp_children (ppp_reg (w_binding w)))"
  shows "\<exists>w' newly. pin_ppp_children_do_work cfg core up tls_mem tls chunk w = Inr w' \<and>
    pinned (w_core w') = pinned (w_core w) \<union> set (reported_children up chunk (w_vm w)) \<and>
    mutex_data (pinned_ppp_children (ppp_reg (w_binding w'))) =
      mutex_data (pinned_ppp_children (ppp_reg (w_binding w))) @ newly \<and>
    distinct newly \<and> set newly = set (reported_children up chunk (w_vm w)) - pinned (w_core w)"
proof -
  obtain newly m where
    p: "pin_children core (reported_children up chunk (w_vm w)) (w_core w) = (newly, m)"
    by (cases "pin_children core (reported_children up chunk (w_vm w)) (w_core w)")
  from pin_do_work_eq [OF assms(2,3) p] pin_children_contract [OF assms(1) p] show ?thesis
    by fastforce
qed

theorem pin_packet_effect_witness:
  "\<exists>w' newly. pin_ppp_children_do_work debug_build example_core ivar_upcalls example_tls 4096 [16, 48]
      (example_world {80} Map.empty example_binding) = Inr w' \<and>
    w_core w' = {80, 112} \<and> set newly = {112} \<and>
    mutex_data (pinned_ppp_children (ppp_reg (w_binding w'))) = newly"
proof -
  let ?w = "example_world {80} Map.empty example_binding"
  have r: "reported_children ivar_upcalls [16, 48] (w_vm ?w) = [80, 112]"
    by (simp add: reported_children_def ivar_upcalls_def null_upcalls_def)
  obtain w' newly where
    "pin_ppp_children_do_work debug_build example_core ivar_upcalls example_tls 4096 [16, 48] ?w = Inr w'"
    "w_core w' = {80} \<union> {80, 112}" "set newly = {80, 112} - {80}"
    "mutex_data (pinned_ppp_children (ppp_reg (w_binding w'))) = newly"
    using pin_packet_effect [OF example_pin_contract example_tls_idle, of ?w debug_build ivar_upcalls
        "[16, 48]", unfolded r] by (auto simp: ppp_registry_new_def)
  then show ?thesis
    by (intro exI [of _ w'] exI [of _ newly]) auto
qed



end
