(* ===== verification/Ppp_Race.thy ===== *)
theory Ppp_Race
  imports Ppp
begin

text \<open>
  \<open>PinPPPChildren\<close> packets running at the same time. Every call of \<open>pin_object\<close> is atomic and the
  append to \<open>pinned_ppp_children\<close> is a critical section; between them the workers interleave freely,
  and two packets may report the same child. The theory shows that the shared list ends up with
  exactly the children that were not pinned before, once each, so that \<open>UnpinPPPChildren\<close> restores the
  pins without tripping its assertion.
\<close>

section \<open>The step relation\<close>

text \<open>
  A worker pins the rest of its children, remembering the newly pinned ones, then appends those to
  the shared list.
\<close>

datatype pin_worker = Pinning "objref list" "objref list" | Pin_done

record 'm pin_sys =
  pin_core :: 'm
  pin_shared :: "objref list"
  pin_workers :: "pin_worker multiset"

inductive pin_step :: "'m mmtk_core \<Rightarrow> 'm pin_sys \<Rightarrow> 'm pin_sys \<Rightarrow> bool" for core where
  pin_newly: "pin_workers s = add_mset (Pinning (ob # obs) newly) W \<Longrightarrow>
     mc_pin_object core ob (pin_core s) = (True, m) \<Longrightarrow>
     pin_step core s (s\<lparr>pin_core := m, pin_workers := add_mset (Pinning obs (newly @ [ob])) W\<rparr>)"
| pin_already: "pin_workers s = add_mset (Pinning (ob # obs) newly) W \<Longrightarrow>
     mc_pin_object core ob (pin_core s) = (False, m) \<Longrightarrow>
     pin_step core s (s\<lparr>pin_core := m, pin_workers := add_mset (Pinning obs newly) W\<rparr>)"
| pin_append: "pin_workers s = add_mset (Pinning [] newly) W \<Longrightarrow>
     pin_step core s (s\<lparr>pin_shared := pin_shared s @ newly, pin_workers := add_mset Pin_done W\<rparr>)"

inductive_cases pin_stepE: "pin_step core s t"

definition pin_start :: "'m \<Rightarrow> objref list multiset \<Rightarrow> 'm pin_sys" where
  "pin_start m chunks =
     \<lparr>pin_core = m, pin_shared = [], pin_workers = image_mset (\<lambda>obs. Pinning obs []) chunks\<rparr>"

section \<open>The invariant\<close>

fun worker_todo :: "pin_worker \<Rightarrow> objref list" where
  "worker_todo (Pinning todo newly) = todo"
| "worker_todo Pin_done = []"

fun worker_newly :: "pin_worker \<Rightarrow> objref list" where
  "worker_newly (Pinning todo newly) = newly"
| "worker_newly Pin_done = []"

text \<open>The objects some worker has newly pinned, whether or not it has published them.\<close>

definition pin_record :: "'m pin_sys \<Rightarrow> objref multiset" where
  "pin_record s =
     mset (pin_shared s) + sum_mset (image_mset (\<lambda>w. mset (worker_newly w)) (pin_workers s))"

definition pin_todo :: "'m pin_sys \<Rightarrow> objref set" where
  "pin_todo s = (\<Union>w \<in> set_mset (pin_workers s). set (worker_todo w))"

text \<open>
  \<open>P\<close> is the set of objects pinned at the start and \<open>A\<close> the children of all packets: what has been
  pinned since is recorded exactly once, and pinned and yet-to-pin together are always the same.
\<close>

definition pin_inv :: "('m \<Rightarrow> objref set) \<Rightarrow> objref set \<Rightarrow> objref set \<Rightarrow> 'm pin_sys \<Rightarrow> bool" where
  "pin_inv pinned P A s \<longleftrightarrow>
     P \<subseteq> pinned (pin_core s) \<and> finite (pinned (pin_core s) - P) \<and>
     pin_record s = mset_set (pinned (pin_core s) - P) \<and>
     pinned (pin_core s) \<union> pin_todo s = P \<union> A"

lemma pin_start_inv:
  "pin_inv pinned (pinned m) (\<Union>obs \<in> set_mset chunks. set obs) (pin_start m chunks)"
  by (simp add: pin_inv_def pin_start_def pin_record_def pin_todo_def image_mset.compositionality
      comp_def)

lemma pin_step_inv:
  assumes c: "pin_contract core pinned" and "pin_step core s t" and "pin_inv pinned P A s"
  shows "pin_inv pinned P A t"
  using assms(2,3)
proof (induction rule: pin_step.induct)
  case (pin_newly s ob obs newly W m)
  have "ob \<notin> pinned (pin_core s)" "pinned m = insert ob (pinned (pin_core s))"
    using pin_contractD(1,2) [OF c, of ob "pin_core s"] pin_newly(2) by simp_all
  moreover from this have "insert ob (pinned (pin_core s)) - P = insert ob (pinned (pin_core s) - P)"
    using pin_newly(3) by (auto simp: pin_inv_def)
  ultimately show ?case
    using pin_newly by (auto simp: pin_inv_def pin_record_def pin_todo_def)
next
  case (pin_already s ob obs newly W m)
  then have "ob \<in> pinned (pin_core s)" "pinned m = pinned (pin_core s)"
    using pin_contractD(1,2) [OF c, of ob "pin_core s"] by auto
  with pin_already show ?case
    by (auto simp: pin_inv_def pin_record_def pin_todo_def)
next
  case (pin_append s newly W)
  then show ?case
    by (auto simp: pin_inv_def pin_record_def pin_todo_def add.assoc)
qed

lemma pin_reach_inv:
  assumes "pin_contract core pinned" and "(pin_step core)\<^sup>*\<^sup>* (pin_start m chunks) s"
  shows "pin_inv pinned (pinned m) (\<Union>obs \<in> set_mset chunks. set obs) s"
  using assms(2) by (induction rule: rtranclp_induct)
    (auto intro: pin_start_inv pin_step_inv [OF assms(1)])

lemma pin_final:
  assumes inv: "pin_inv pinned P A s" and fin: "set_mset (pin_workers s) \<subseteq> {Pin_done}"
  shows "pinned (pin_core s) = P \<union> A" "distinct (pin_shared s)" "set (pin_shared s) = A - P"
proof -
  have w: "worker_newly w = []" "worker_todo w = []" if "w \<in># pin_workers s" for w
    using fin that by auto
  have "sum_mset (image_mset (\<lambda>w. mset (worker_newly w)) (pin_workers s)) =
      sum_mset (image_mset (\<lambda>w. {#}) (pin_workers s))"
    by (rule arg_cong [where f = sum_mset], rule image_mset_cong) (simp add: w)
  then have "pin_record s = mset (pin_shared s)"
    by (simp add: pin_record_def)
  moreover have todo: "pin_todo s = {}"
    by (simp add: pin_todo_def w)
  ultimately have m: "mset (pin_shared s) = mset_set (pinned (pin_core s) - P)"
    and fin': "finite (pinned (pin_core s) - P)"
    using inv by (simp_all add: pin_inv_def)
  show p: "pinned (pin_core s) = P \<union> A"
    using inv todo by (simp add: pin_inv_def)
  show "set (pin_shared s) = A - P"
    using arg_cong [OF m, of set_mset] fin' p by auto
  show "distinct (pin_shared s)"
    by (metis distinct_count_atmost_1 m count_mset_set' set_mset_mset count_mset_0_iff fin'
        finite_set_mset_mset_set)
qed

section \<open>Progress\<close>

fun worker_steps :: "pin_worker \<Rightarrow> nat" where
  "worker_steps (Pinning todo newly) = Suc (length todo)"
| "worker_steps Pin_done = 0"

definition pin_steps_left :: "'m pin_sys \<Rightarrow> nat" where
  "pin_steps_left s = sum_mset (image_mset worker_steps (pin_workers s))"

lemma pin_step_decreases: "pin_step core s t \<Longrightarrow> pin_steps_left t < pin_steps_left s"
  by (erule pin_stepE) (auto simp: pin_steps_left_def)

lemma pin_step_enabled:
  assumes "w \<in># pin_workers s" and "w \<noteq> Pin_done"
  shows "\<exists>t. pin_step core s t"
proof -
  from assms(1) obtain W where W: "pin_workers s = add_mset w W"
    by (metis mset_add)
  from assms(2) obtain todo newly where w: "w = Pinning todo newly"
    by (cases w) auto
  show ?thesis
  proof (cases todo)
    case Nil
    then show ?thesis using W w pin_append [of s newly W core] by auto
  next
    case (Cons ob obs)
    obtain b m where "mc_pin_object core ob (pin_core s) = (b, m)"
      by (cases "mc_pin_object core ob (pin_core s)")
    then show ?thesis
      using Cons W w pin_newly [of s ob obs newly W core m] pin_already [of s ob obs newly W core m]
      by (cases b) auto
  qed
qed

lemma pin_stuck_done: "\<nexists>t. pin_step core s t \<Longrightarrow> set_mset (pin_workers s) \<subseteq> {Pin_done}"
  using pin_step_enabled by blast

section \<open>Unpinning\<close>

lemma unpin_children_restores:
  assumes c: "pin_contract core pinned" and "distinct obs" and "set obs \<subseteq> pinned m"
  shows "\<exists>m'. unpin_children cfg core obs m = Inr m' \<and> pinned m' = pinned m - set obs"
  using assms(2,3)
proof (induction obs arbitrary: m)
  case Nil
  then show ?case by simp
next
  case (Cons ob obs)
  obtain b m1 where u: "mc_unpin_object core ob m = (b, m1)"
    by (cases "mc_unpin_object core ob m")
  have b: "b" and m1: "pinned m1 = pinned m - {ob}"
    using pin_contractD(3,4) [OF c, of ob m] u Cons.prems by simp_all
  have "set obs \<subseteq> pinned m1"
    using Cons.prems m1 by auto
  with Cons.IH [of m1] Cons.prems(1) u b m1 show ?case
    by auto
qed

text \<open>The sequential packet is one of the runs of the relation: all its steps in a row.\<close>

lemma pin_children_run:
  assumes "pin_children core obs m = (newly, m')"
  shows "(pin_step core)\<^sup>*\<^sup>*
    \<lparr>pin_core = m, pin_shared = sh, pin_workers = add_mset (Pinning obs acc) W\<rparr>
    \<lparr>pin_core = m', pin_shared = sh @ acc @ newly, pin_workers = add_mset Pin_done W\<rparr>"
  using assms
proof (induction obs arbitrary: m newly acc m')
  case Nil
  let ?s = "\<lparr>pin_core = m, pin_shared = sh, pin_workers = add_mset (Pinning [] acc) W\<rparr>"
  have "pin_step core ?s (?s\<lparr>pin_shared := pin_shared ?s @ acc, pin_workers := add_mset Pin_done W\<rparr>)"
    by (rule pin_append) simp
  with Nil show ?case by (auto intro: r_into_rtranclp)
next
  case (Cons ob obs)
  obtain b m1 where p: "mc_pin_object core ob m = (b, m1)"
    by (cases "mc_pin_object core ob m")
  obtain rest m2 where r: "pin_children core obs m1 = (rest, m2)"
    by (cases "pin_children core obs m1")
  have newly: "newly = (if b then ob # rest else rest)" and m2: "m2 = m'"
    using Cons.prems p r by simp_all
  let ?s = "\<lparr>pin_core = m, pin_shared = sh, pin_workers = add_mset (Pinning (ob # obs) acc) W\<rparr>"
  let ?acc = "if b then acc @ [ob] else acc"
  have "pin_step core ?s (?s\<lparr>pin_core := m1, pin_workers := add_mset (Pinning obs ?acc) W\<rparr>)"
    using p pin_newly [of ?s ob obs acc W core m1] pin_already [of ?s ob obs acc W core m1]
    by (cases b) simp_all
  then have "pin_step core ?s
      \<lparr>pin_core = m1, pin_shared = sh, pin_workers = add_mset (Pinning obs ?acc) W\<rparr>"
    by simp
  from converse_rtranclp_into_rtranclp [OF this Cons.IH [OF r, of ?acc]] show ?case
    using newly m2 by (cases b) simp_all
qed

text \<open>From every state a state without a next step can be reached.\<close>

lemma pin_reaches_end: "\<exists>t. (pin_step core)\<^sup>*\<^sup>* s t \<and> (\<nexists>u. pin_step core t u)"
proof (induction "pin_steps_left s" arbitrary: s rule: less_induct)
  case less
  show ?case
  proof (cases "\<exists>u. pin_step core s u")
    case True
    then obtain u where u: "pin_step core s u" by blast
    with less [OF pin_step_decreases [OF u]] show ?thesis
      by (meson converse_rtranclp_into_rtranclp)
  qed blast
qed

section \<open>Properties\<close>

text \<open>
  C19. Pinning packets in parallel: however the workers interleave, they can run to an end, and at every
  end the pinned objects are the old ones and all children of all packets, and the shared list holds
  each newly pinned child exactly once, also when several packets report the same child.
\<close>

theorem parallel_pinning:
  assumes c: "pin_contract core pinned"
    and r: "(pin_step core)\<^sup>*\<^sup>* (pin_start m chunks) s"
  shows "(\<exists>t. (pin_step core)\<^sup>*\<^sup>* s t \<and> (\<nexists>u. pin_step core t u)) \<and>
    (\<forall>t. (pin_step core)\<^sup>*\<^sup>* s t \<and> (\<nexists>u. pin_step core t u) \<longrightarrow>
       pinned (pin_core t) = pinned m \<union> (\<Union>obs \<in> set_mset chunks. set obs) \<and>
       distinct (pin_shared t) \<and>
       set (pin_shared t) = (\<Union>obs \<in> set_mset chunks. set obs) - pinned m)"
proof (intro conjI allI impI)
  show "\<exists>t. (pin_step core)\<^sup>*\<^sup>* s t \<and> (\<nexists>u. pin_step core t u)"
    by (rule pin_reaches_end)
  fix t assume t: "(pin_step core)\<^sup>*\<^sup>* s t \<and> (\<nexists>u. pin_step core t u)"
  then have "pin_inv pinned (pinned m) (\<Union>obs \<in> set_mset chunks. set obs) t"
    using c r by (blast intro: pin_reach_inv rtranclp_trans)
  from pin_final [OF this pin_stuck_done [OF conjunct2 [OF t]]]
  show "pinned (pin_core t) = pinned m \<union> (\<Union>obs \<in> set_mset chunks. set obs)"
    "distinct (pin_shared t)" "set (pin_shared t) = (\<Union>obs \<in> set_mset chunks. set obs) - pinned m"
    by simp_all
qed

theorem parallel_pinning_witness:
  "\<exists>t. (pin_step example_core)\<^sup>*\<^sup>* (pin_start {8} {#[16, 24], [24, 8]#}) t \<and>
     pin_core t = {8, 16, 24} \<and> set (pin_shared t) = {16, 24} \<and> length (pin_shared t) = 2"
proof -
  obtain t where t: "(pin_step example_core)\<^sup>*\<^sup>* (pin_start {8} {#[16, 24], [24, 8]#}) t"
    "\<nexists>u. pin_step example_core t u"
    using pin_reaches_end by blast
  note f = parallel_pinning [OF example_pin_contract rtranclp.rtrancl_refl, THEN conjunct2,
      rule_format, OF conjI [OF t]]
  have all: "(\<Union>obs \<in> set_mset {#[16, 24], [24, 8 :: objref]#}. set obs) = {8, 16, 24}"
    by auto
  have core: "pin_core t = {8, 16, 24}"
    using f unfolding all by blast
  have "set (pin_shared t) = {8, 16, 24} - {8}"
    using f unfolding all by blast
  then have shared: "set (pin_shared t) = {16, 24}"
    by simp
  have "length (pin_shared t) = card {16, 24 :: objref}"
    using f distinct_card [of "pin_shared t"] shared by simp
  then show ?thesis
    using t(1) core shared by (intro exI [of _ t]) simp
qed

text \<open>
  C20. Unpinning after parallel pinning: \<open>UnpinPPPChildren\<close> on the shared list runs without tripping its
  assertion and restores the set of pinned objects from before, in every build.
\<close>

theorem parallel_pinning_undone:
  assumes c: "pin_contract core pinned"
    and r: "(pin_step core)\<^sup>*\<^sup>* (pin_start m chunks) s" and e: "\<nexists>u. pin_step core s u"
  shows "\<exists>m'. unpin_children cfg core (pin_shared s) (pin_core s) = Inr m' \<and> pinned m' = pinned m"
proof -
  note f = pin_final [OF pin_reach_inv [OF c r] pin_stuck_done [OF e]]
  have "set (pin_shared s) \<subseteq> pinned (pin_core s)"
    "pinned (pin_core s) - set (pin_shared s) = pinned m"
    using f(1,3) by blast+
  with unpin_children_restores [OF c f(2) this(1), of cfg] show ?thesis
    by simp
qed

theorem parallel_pinning_undone_witness:
  "\<exists>s. (pin_step example_core)\<^sup>*\<^sup>* (pin_start {8} {#[16, 24], [24, 8]#}) s \<and>
     unpin_children debug_build example_core (pin_shared s) (pin_core s) = Inr {8}"
proof -
  obtain s where s: "(pin_step example_core)\<^sup>*\<^sup>* (pin_start {8} {#[16, 24], [24, 8]#}) s"
    "\<nexists>u. pin_step example_core s u"
    using pin_reaches_end by blast
  with parallel_pinning_undone [OF example_pin_contract s, of debug_build] show ?thesis
    by auto
qed

end
