(* ===== verification/Weak_Table.thy ===== *)
theory Weak_Table
  imports Example
begin

text \<open>
  Weak hash tables processed in parallel (\<open>process_weak_table_chunked\<close> of \<open>mmtk/src/weak_proc.rs\<close>):
  the ranges of entries and of bins are cut into packets; the packets of bins wait in a latch until
  all packets of entries are done. The lemmas say exactly which indices the packets cover.
\<close>

section \<open>Stepping through a range\<close>

function step_range :: "nat \<Rightarrow> nat \<Rightarrow> nat \<Rightarrow> nat list" where
  "step_range lo hi k = (if lo < hi \<and> 0 < k then lo # step_range (lo + k) hi k else [])"
  by pat_completeness auto
termination
  by (relation "measure (\<lambda>(lo, hi, k). hi - lo)") auto

declare step_range.simps [simp del]

lemma step_range_empty [simp]: "hi \<le> lo \<Longrightarrow> step_range lo hi k = []"
  by (simp add: step_range.simps)

lemma step_range_step: "lo < hi \<Longrightarrow> 0 < k \<Longrightarrow> step_range lo hi k = lo # step_range (lo + k) hi k"
  by (simp add: step_range.simps [of lo hi k])

lemma step_range_bounds: "b \<in> set (step_range lo hi k) \<Longrightarrow> lo \<le> b \<and> b < hi"
proof (induction lo hi k rule: step_range.induct)
  case (1 lo hi k)
  then show ?case by (cases "lo < hi \<and> 0 < k") (auto simp: step_range.simps [of lo hi k])
qed

lemma set_step_range:
  "0 < k \<Longrightarrow> set (step_range lo hi k) = {b. \<exists>j. b = lo + j * k \<and> b < hi}"
proof (induction lo hi k rule: step_range.induct)
  case (1 lo hi k)
  show ?case
  proof (cases "lo < hi")
    case True
    have "{b. \<exists>j. b = lo + j * k \<and> b < hi} = insert lo {b. \<exists>j. b = lo + k + j * k \<and> b < hi}"
      (is "?A = insert lo ?B")
    proof (intro equalityI subsetI)
      fix b assume "b \<in> ?A"
      then obtain j where j: "b = lo + j * k" "b < hi" by auto
      then show "b \<in> insert lo ?B"
        by (cases j) auto
    next
      fix b assume "b \<in> insert lo ?B"
      then consider "b = lo" | j where "b = lo + k + j * k" "b < hi" by auto
      then show "b \<in> ?A"
      proof cases
        case 1
        then show ?thesis using True by (auto intro: exI [of _ 0])
      next
        case (2 j)
        then show ?thesis by (auto intro: exI [of _ "Suc j"])
      qed
    qed
    with 1 True show ?thesis by (simp add: step_range_step)
  next
    case False
    then show ?thesis by auto
  qed
qed

lemma distinct_step_range: "distinct (step_range lo hi k)"
proof (induction lo hi k rule: step_range.induct)
  case (1 lo hi k)
  then show ?case
    by (cases "lo < hi \<and> 0 < k")
      (auto simp: step_range.simps [of lo hi k] dest: step_range_bounds)
qed

text \<open>\<open>(lo..hi).step_by(k)\<close> asserts that the step is not zero.\<close>

definition step_by :: "usize \<Rightarrow> usize \<Rightarrow> usize \<Rightarrow> usize list res" where
  "step_by lo hi k =
     bind_res (assert (k \<noteq> 0) ''assertion failed: step != 0'') (\<lambda>_.
     Inr (map of_nat (step_range (unat lo) (unat hi) (unat k))))"

text \<open>
  The packets of a range: one for each \<open>begin\<close>, ending \<open>width\<close> later or at the end of the range. For
  entries the step is the width; for bins the source steps by the chunk size of the entries.
\<close>

definition range_packets ::
  "build \<Rightarrow> usize \<Rightarrow> usize \<Rightarrow> usize \<Rightarrow> usize \<Rightarrow> (usize \<times> usize) list res" where
  "range_packets cfg lo hi step width =
     bind_res (step_by lo hi step)
       (map_res (\<lambda>b. bind_res (usize_add cfg b width) (\<lambda>e. Inr (b, min e hi))))"

definition packet_covers :: "nat \<Rightarrow> usize \<times> usize \<Rightarrow> bool" where
  "packet_covers i p \<longleftrightarrow> unat (fst p) \<le> i \<and> i < unat (snd p)"

definition coverage :: "nat \<Rightarrow> (usize \<times> usize) list \<Rightarrow> nat" where
  "coverage i ps = length (filter (packet_covers i) ps)"

lemma range_packets_zero_step:
  "range_packets cfg lo hi 0 width = Inl (AssertFailed ''assertion failed: step != 0'')"
  by (simp add: range_packets_def step_by_def)

text \<open>Without overflow the packets are the ones natural numbers give.\<close>

lemma range_packets_eq:
  assumes "0 < step" and fits: "unat hi + unat width \<le> 2 ^ 64"
  shows "range_packets cfg lo hi step width =
    Inr (map (\<lambda>b. (of_nat b, of_nat (min (b + unat width) (unat hi))))
      (step_range (unat lo) (unat hi) (unat step)))"
proof -
  have "bind_res (usize_add cfg (of_nat b) width) (\<lambda>e. Inr (of_nat b :: usize, min e hi)) =
      Inr (of_nat b, of_nat (min (b + unat width) (unat hi)))"
    if "b \<in> set (step_range (unat lo) (unat hi) (unat step))" for b
  proof -
    have b: "b < unat hi"
      using step_range_bounds [OF that] by simp
    then have ub: "unat (of_nat b :: usize) = b"
      using unat_usize_lt [of hi] by (intro unat_of_nat_usize) linarith
    have "unat (of_nat b :: usize) + unat width < 2 ^ 64"
      using b fits ub by linarith
    note add = usize_add_fits [OF this, of cfg]
    have "min (of_nat b + width) hi = of_nat (min (b + unat width) (unat hi))"
      using add ub by (auto simp: min_def word_le_nat_alt)
    then show ?thesis using add by simp
  qed
  then have "map_res ((\<lambda>b. bind_res (usize_add cfg b width) (\<lambda>e. Inr (b, min e hi))) \<circ> of_nat)
      (step_range (unat lo) (unat hi) (unat step)) =
    Inr (map (\<lambda>b. (of_nat b, of_nat (min (b + unat width) (unat hi))))
      (step_range (unat lo) (unat hi) (unat step)))"
    by (intro map_res_total) simp
  moreover have "step \<noteq> 0"
    using assms(1) by auto
  ultimately show ?thesis
    by (simp add: range_packets_def step_by_def map_res_map)
qed

lemma coverage_range_packets:
  assumes "0 < step" and "unat hi + unat width \<le> 2 ^ 64"
    and "range_packets cfg lo hi step width = Inr ps"
  shows "coverage i ps = card {b \<in> set (step_range (unat lo) (unat hi) (unat step)).
    b \<le> i \<and> i < min (b + unat width) (unat hi)}"
proof -
  let ?bs = "step_range (unat lo) (unat hi) (unat step)"
  let ?f = "\<lambda>b. (of_nat b :: usize, of_nat (min (b + unat width) (unat hi)) :: usize)"
  have ps: "ps = map ?f ?bs"
    using assms range_packets_eq [OF assms(1,2), of cfg lo] by simp
  have "packet_covers i (?f b) \<longleftrightarrow> b \<le> i \<and> i < min (b + unat width) (unat hi)"
    if "b \<in> set ?bs" for b
  proof -
    have "b < unat hi" using step_range_bounds [OF that] by simp
    then have "b < 2 ^ 64" "min (b + unat width) (unat hi) < 2 ^ 64"
      using unat_usize_lt [of hi] by linarith+
    then show ?thesis by (simp only: packet_covers_def fst_conv snd_conv unat_of_nat_usize)
  qed
  then have "filter (packet_covers i \<circ> ?f) ?bs =
      filter (\<lambda>b. b \<le> i \<and> i < min (b + unat width) (unat hi)) ?bs"
    by (intro filter_cong) simp_all
  then have "coverage i ps = length (filter (\<lambda>b. b \<le> i \<and> i < min (b + unat width) (unat hi)) ?bs)"
    by (simp add: coverage_def ps filter_map)
  also have "\<dots> = card (set (filter (\<lambda>b. b \<le> i \<and> i < min (b + unat width) (unat hi)) ?bs))"
    by (rule distinct_card [symmetric]) (simp add: distinct_step_range)
  finally show ?thesis by simp
qed

section \<open>What the packets cover\<close>

lemma step_unique:
  fixes i :: nat
  assumes "0 < s"
  shows "j * s \<le> i \<and> i < j * s + s \<longleftrightarrow> j = i div s"
proof
  assume "j * s \<le> i \<and> i < j * s + s"
  then show "j = i div s"
    by (intro div_nat_eqI [symmetric]) (simp_all add: algebra_simps)
next
  assume "j = i div s"
  then show "j * s \<le> i \<and> i < j * s + s"
    using assms dividend_less_div_times [of s i] by simp
qed

text \<open>When the step is the width, every index of the range is in exactly one packet.\<close>

lemma coverage_tiling:
  assumes "0 < w" and "unat hi + unat w \<le> 2 ^ 64"
    and "range_packets cfg lo hi w w = Inr ps"
  shows "coverage i ps = (if unat lo \<le> i \<and> i < unat hi then 1 else 0)"
proof -
  have w: "0 < unat w"
    using assms(1) by (simp add: word_less_nat_alt)
  let ?S = "{b \<in> set (step_range (unat lo) (unat hi) (unat w)).
    b \<le> i \<and> i < min (b + unat w) (unat hi)}"
  have "?S = (if unat lo \<le> i \<and> i < unat hi
      then {unat lo + (i - unat lo) div unat w * unat w} else {})"
  proof (cases "unat lo \<le> i \<and> i < unat hi")
    case False
    then show ?thesis by (auto dest: step_range_bounds)
  next
    case True
    define d where "d = i - unat lo"
    have i: "i = unat lo + d" using True by (simp add: d_def)
    note q = step_unique [OF w, of _ d]
    have b: "d div unat w * unat w \<le> d" "d < d div unat w * unat w + unat w"
      using q by blast+
    have "?S = {unat lo + d div unat w * unat w}"
    proof (intro equalityI subsetI)
      fix x assume "x \<in> ?S"
      then obtain j where "x = unat lo + j * unat w" "j * unat w \<le> d \<and> d < j * unat w + unat w"
        using w by (auto simp: set_step_range i)
      then show "x \<in> {unat lo + d div unat w * unat w}"
        using q by simp
    next
      fix x assume "x \<in> {unat lo + d div unat w * unat w}"
      moreover have "unat lo + d div unat w * unat w < unat hi"
        using b True i by linarith
      ultimately show "x \<in> ?S"
        using b True w by (auto simp: set_step_range i)
    qed
    with True i show ?thesis by simp
  qed
  then show ?thesis
    using coverage_range_packets [OF assms] by simp
qed

text \<open>
  When the width is a multiple of the step, an index that is far enough from the start of the range
  is in as many packets as the multiple.
\<close>

lemma coverage_overlap:
  assumes "0 < s" and "unat hi + unat w \<le> 2 ^ 64" and mult: "unat w = k * unat s"
    and "range_packets cfg 0 hi s w = Inr ps" and i: "i < unat hi"
  shows "coverage i ps = min (i div unat s + 1) k"
proof -
  have s: "0 < unat s"
    using assms(1) by (simp add: word_less_nat_alt)
  let ?q = "i div unat s"
  have iff: "j * unat s \<le> i \<and> i < j * unat s + unat w \<longleftrightarrow> j \<le> ?q \<and> ?q < j + k" for j
  proof -
    have "j * unat s \<le> i \<longleftrightarrow> j \<le> ?q"
      using s by (simp add: less_eq_div_iff_mult_less_eq)
    moreover have "i < j * unat s + unat w \<longleftrightarrow> ?q < j + k"
      using s by (simp add: mult add_mult_distrib [symmetric] div_less_iff_less_mult)
    ultimately show ?thesis by simp
  qed
  have "{b \<in> set (step_range (unat (0 :: usize)) (unat hi) (unat s)).
      b \<le> i \<and> i < min (b + unat w) (unat hi)} = (\<lambda>j. j * unat s) ` {j. j \<le> ?q \<and> ?q < j + k}"
    (is "?S = ?T")
  proof (intro equalityI subsetI)
    fix b assume "b \<in> ?S"
    then obtain j where "b = j * unat s" "j * unat s \<le> i \<and> i < j * unat s + unat w"
      using s by (auto simp: set_step_range)
    then show "b \<in> ?T" using iff [of j] by auto
  next
    fix b assume "b \<in> ?T"
    then obtain j where j: "b = j * unat s" "j \<le> ?q \<and> ?q < j + k" by auto
    then have "j * unat s \<le> i" "i < j * unat s + unat w" using iff [of j] by auto
    with j(1) i s show "b \<in> ?S" by (auto simp: set_step_range)
  qed
  moreover have "inj_on (\<lambda>j. j * unat s) A" for A
    using s by (simp add: inj_on_def)
  ultimately have "coverage i ps = card {j. j \<le> ?q \<and> ?q < j + k}"
    using coverage_range_packets [OF assms(1,2,4), of i] by (simp add: card_image)
  also have "{j. j \<le> ?q \<and> ?q < j + k} = {?q + 1 - k ..< ?q + 1}"
    by auto
  finally show ?thesis by auto
qed

text \<open>When the width is smaller than the step, the end of every step is in no packet.\<close>

lemma coverage_gap:
  assumes "0 < s" and "unat hi + unat w \<le> 2 ^ 64" and le: "unat w \<le> unat s"
    and "range_packets cfg 0 hi s w = Inr ps" and i: "i < unat hi"
  shows "coverage i ps = (if i mod unat s < unat w then 1 else 0)"
proof -
  have s: "0 < unat s"
    using assms(1) by (simp add: word_less_nat_alt)
  let ?q = "i div unat s * unat s"
  have q: "?q \<le> i" "?q < unat hi"
    using i div_times_less_eq_dividend [of i "unat s"] by linarith+
  have r: "i < ?q + unat w \<longleftrightarrow> i mod unat s < unat w"
    using div_mult_mod_eq [of i "unat s"] by linarith
  have "{b \<in> set (step_range (unat (0 :: usize)) (unat hi) (unat s)).
      b \<le> i \<and> i < min (b + unat w) (unat hi)} = (if i mod unat s < unat w then {?q} else {})"
    (is "?S = ?T")
  proof (intro equalityI subsetI)
    fix x assume "x \<in> ?S"
    then obtain j where j: "x = j * unat s" "j * unat s \<le> i" "i < j * unat s + unat w"
      using s by (auto simp: set_step_range)
    then have "j = i div unat s"
      using le step_unique [OF s, of j i] by linarith
    then show "x \<in> ?T" using j r by simp
  next
    fix x assume "x \<in> ?T"
    then have "x = ?q" "i mod unat s < unat w" by (auto split: if_splits)
    then show "x \<in> ?S" using q r i s by (auto simp: set_step_range)
  qed
  then show ?thesis
    using coverage_range_packets [OF assms(1,2,4), of i] by simp
qed

section \<open>The packets of a table\<close>

definition entries_packet ::
  "string \<Rightarrow> address \<Rightarrow> bool \<Rightarrow> bool \<Rightarrow> bool \<Rightarrow> nat \<Rightarrow> usize \<times> usize \<Rightarrow> gc_work" where
  "entries_packet name table weak_keys weak_values fwd aid p =
     UpdateTableEntriesParallel name table (fst p) (snd p) weak_keys weak_values fwd aid"

definition bins_packet :: "string \<Rightarrow> address \<Rightarrow> usize \<times> usize \<Rightarrow> gc_work" where
  "bins_packet name table p = UpdateTableBinsParallel name table (fst p) (snd p)"

definition process_weak_table_chunked ::
  "build \<Rightarrow> 'v ruby_upcalls \<Rightarrow> string \<Rightarrow> address \<Rightarrow> bool \<Rightarrow> bool \<Rightarrow> bool \<Rightarrow>
   ('m, 'v) world \<Rightarrow> ('m, 'v) world res" where
  "process_weak_table_chunked cfg up name table weak_keys weak_values fwd w =
     (let (entries_start, entries_bound, bins_num) = up_st_get_size_info up table (w_vm w);
          num_entries = up_st_get_num_entries up table (w_vm w);
          w1 = emit (Probe_initial_weak_table_stats entries_start entries_bound bins_num
                 num_entries name) w;
          entries_chunk = st_entries_chunk_size (w_binding w);
          bins_chunk = st_bins_chunk_size (w_binding w);
          aid = length (w_latches w)
      in bind_res (range_packets cfg entries_start entries_bound entries_chunk entries_chunk)
           (\<lambda>entries.
         bind_res (range_packets cfg 0 bins_num entries_chunk bins_chunk) (\<lambda>bins.
         let after_all = add_packets (map (bins_packet name table) bins)
               (count_up (length entries) (after_all_new VMRefClosure))
         in Inr (submit VMRefClosure
              (map (entries_packet name table weak_keys weak_values fwd aid) entries)
              (w1\<lparr>w_latches := w_latches w @ [after_all]\<rparr>)))))"

text \<open>\<open>UpdateTableEntriesParallel::do_work\<close>: the last packet of a table releases its bins packets.\<close>

definition table_entries_do_work ::
  "'v ruby_upcalls \<Rightarrow> string \<Rightarrow> address \<Rightarrow> usize \<Rightarrow> usize \<Rightarrow> bool \<Rightarrow> bool \<Rightarrow> bool \<Rightarrow> nat \<Rightarrow>
   ('m, 'v) world \<Rightarrow> ('m, 'v) world res" where
  "table_entries_do_work up name table bgn en weak_keys weak_values fwd aid w =
     (if length (w_latches w) \<le> aid then Inl (UB ''dangling Arc<AfterAll>'')
      else
        let (deleted, v) = up_st_update_entries_range up table bgn en weak_keys weak_values fwd (w_vm w);
            w1 = emit (Probe_update_table_entries_parallel bgn en deleted name) (w\<lparr>w_vm := v\<rparr>);
            (is_last, aa, bks) = count_down (w_latches w1 ! aid) (w_buckets w1);
            w2 = w1\<lparr>w_latches := (w_latches w1)[aid := aa], w_buckets := bks\<rparr>
        in Inr (if is_last
                then emit (Probe_final_weak_table_stats (up_st_get_num_entries up table v) name) w2
                else w2))"

definition table_bins_do_work ::
  "'v ruby_upcalls \<Rightarrow> string \<Rightarrow> address \<Rightarrow> usize \<Rightarrow> usize \<Rightarrow> ('m, 'v) world \<Rightarrow> ('m, 'v) world res" where
  "table_bins_do_work up name table bgn en w =
     (let (deleted, v) = up_st_update_bins_range up table bgn en (w_vm w)
      in Inr (emit (Probe_update_table_bins_parallel bgn en deleted name) (w\<lparr>w_vm := v\<rparr>)))"

text \<open>Where the ranges fit, the packets created, the latch that holds the bins, and their number.\<close>

lemma process_weak_table_chunked_eq:
  assumes "up_st_get_size_info up table (w_vm w) = (es, eb, bn)"
    and "range_packets cfg es eb (st_entries_chunk_size (w_binding w))
           (st_entries_chunk_size (w_binding w)) = Inr entries"
    and "range_packets cfg 0 bn (st_entries_chunk_size (w_binding w))
           (st_bins_chunk_size (w_binding w)) = Inr bins"
  shows "process_weak_table_chunked cfg up name table wk wv fwd w =
    Inr (submit VMRefClosure (map (entries_packet name table wk wv fwd (length (w_latches w))) entries)
      (emit (Probe_initial_weak_table_stats es eb bn (up_st_get_num_entries up table (w_vm w)) name) w
        \<lparr>w_latches := w_latches w @
          [\<lparr>counter = of_nat (length entries), stage = VMRefClosure,
            packets = map (bins_packet name table) bins\<rparr>]\<rparr>))"
  using assms
  by (simp add: process_weak_table_chunked_def Let_def add_packets_def count_up_def after_all_new_def)

text \<open>The world after any submission that does not panic.\<close>

lemma process_weak_table_chunked_result:
  assumes "process_weak_table_chunked cfg up name table wk wv fwd w = Inr w'"
  obtains entries bins es eb bn n where
    "w' = submit VMRefClosure (map (entries_packet name table wk wv fwd (length (w_latches w))) entries)
      (emit (Probe_initial_weak_table_stats es eb bn n name) w\<lparr>w_latches := w_latches w @
        [\<lparr>counter = of_nat (length entries), stage = VMRefClosure,
          packets = map (bins_packet name table) bins\<rparr>]\<rparr>)"
  using assms
  by (auto simp: process_weak_table_chunked_def bind_res_eq_Inr Let_def add_packets_def
      count_up_def after_all_new_def split: prod.splits)

text \<open>A chunk size of zero (which the environment variable accepts) is a panic in the GC.\<close>

lemma process_weak_table_chunked_zero:
  assumes "st_entries_chunk_size (w_binding w) = 0"
  shows "process_weak_table_chunked cfg up name table wk wv fwd w =
    Inl (AssertFailed ''assertion failed: step != 0'')"
  using assms by (simp add: process_weak_table_chunked_def Let_def range_packets_zero_step
      split: prod.split)

section \<open>Chunked processing against whole-table processing\<close>

text \<open>
  What \<open>st_update_entries_range\<close> is for: it treats each index of its range on its own, so that ranges
  can be done in any order. \<open>upd i\<close> is what it does to the VM state for the entry at index \<open>i\<close>.
\<close>

definition entrywise ::
  "'v ruby_upcalls \<Rightarrow> address \<Rightarrow> bool \<Rightarrow> bool \<Rightarrow> bool \<Rightarrow> (nat \<Rightarrow> 'v \<Rightarrow> 'v) \<Rightarrow> bool" where
  "entrywise up table wk wv fwd upd \<longleftrightarrow>
     (\<forall>b e v. snd (up_st_update_entries_range up table b e wk wv fwd v) =
        fold upd [unat b..<unat e] v) \<and>
     (\<forall>i j v. i \<noteq> j \<longrightarrow> upd i (upd j v) = upd j (upd i v))"

lemma fold_upd_commute_list:
  assumes "\<And>i j v. i \<noteq> j \<Longrightarrow> upd i (upd j v) = upd j (upd i v)"
    and "mset xs = mset ys"
  shows "fold upd xs v = fold upd ys v"
proof -
  have "fold upd xs = fold upd ys"
    using assms(2)
    by (rule fold_multiset_equiv [rotated]) (metis (no_types, lifting) assms(1) comp_apply ext)
  then show ?thesis by simp
qed

lemma mset_concat_map:
  "mset (concat (map f xs)) = sum_mset (image_mset (\<lambda>x. mset (f x)) (mset xs))"
  by (induction xs) auto

lemma step_range_concat:
  assumes "0 < k"
  shows "concat (map (\<lambda>b. [b..<min (b + k) hi]) (step_range lo hi k)) = [lo..<hi]"
  using assms
proof (induction lo hi k rule: step_range.induct)
  case (1 lo hi k)
  show ?case
  proof (cases "lo < hi")
    case True
    have "[lo..<min (lo + k) hi] @ [lo + k..<hi] = [lo..<hi]"
    proof (cases "lo + k \<le> hi")
      case True
      then show ?thesis by (metis le_add1 min.absorb1 upt_add_eq_append le_Suc_ex)
    next
      case False
      then show ?thesis by (simp add: min_def)
    qed
    with 1 True show ?thesis by (simp add: step_range_step)
  next
    case False
    then show ?thesis by simp
  qed
qed

text \<open>Updating the packets in any order is updating the whole range at once.\<close>

lemma entries_packets_any_order:
  assumes e: "entrywise up table wk wv fwd upd"
    and "0 < k" and "unat eb + unat k \<le> 2 ^ 64"
    and "range_packets cfg es eb k k = Inr ps" and "mset qs = mset ps"
  shows "fold (\<lambda>p v. snd (up_st_update_entries_range up table (fst p) (snd p) wk wv fwd v)) qs v =
    snd (up_st_update_entries_range up table es eb wk wv fwd v)"
proof -
  have k: "0 < unat k"
    using assms(2) by (simp add: word_less_nat_alt)
  have upd: "snd (up_st_update_entries_range up table b e' wk wv fwd u) =
      fold upd [unat b..<unat e'] u" for b e' u
    using e by (simp add: entrywise_def)
  have flat: "fold (\<lambda>p v. fold upd [unat (fst p)..<unat (snd p)] v) rs u =
      fold upd (concat (map (\<lambda>p. [unat (fst p)..<unat (snd p)]) rs)) u"
    for rs :: "(usize \<times> usize) list" and u
    by (induction rs arbitrary: u) auto
  have ps: "concat (map (\<lambda>p. [unat (fst p)..<unat (snd p)]) ps) = [unat es..<unat eb]"
  proof -
    have "map (\<lambda>p. [unat (fst p)..<unat (snd p)]) ps =
        map (\<lambda>b. [b..<min (b + unat k) (unat eb)]) (step_range (unat es) (unat eb) (unat k))"
    proof -
      have "unat (of_nat b :: usize) = b \<and>
          unat (of_nat (min (b + unat k) (unat eb)) :: usize) = min (b + unat k) (unat eb)"
        if "b \<in> set (step_range (unat es) (unat eb) (unat k))" for b
      proof -
        have "b < unat eb" using step_range_bounds [OF that] by simp
        then have "b < 2 ^ 64" "min (b + unat k) (unat eb) < 2 ^ 64"
          using unat_usize_lt [of eb] by linarith+
        then show ?thesis by (simp only: unat_of_nat_usize simp_thms)
      qed
      moreover have "ps = map (\<lambda>b. (of_nat b, of_nat (min (b + unat k) (unat eb))))
          (step_range (unat es) (unat eb) (unat k))"
        using assms(4) range_packets_eq [OF assms(2,3), of cfg es] by simp
      ultimately show ?thesis by simp
    qed
    then show ?thesis using step_range_concat [OF k] by simp
  qed
  have "mset (concat (map (\<lambda>p. [unat (fst p)..<unat (snd p)]) qs)) =
      mset (concat (map (\<lambda>p. [unat (fst p)..<unat (snd p)]) ps))"
    by (simp only: mset_concat_map assms(5))
  then have "fold upd (concat (map (\<lambda>p. [unat (fst p)..<unat (snd p)]) qs)) v =
      fold upd [unat es..<unat eb] v"
    using e by (intro fold_upd_commute_list) (auto simp: entrywise_def ps)
  then show ?thesis
    by (simp add: upd flat)
qed

text \<open>The number of packets fits the counter of the latch.\<close>

lemma entries_packets_few:
  assumes "0 < k" "unat eb + unat k \<le> 2 ^ 64" "range_packets cfg es eb k k = Inr entries"
  shows "length entries < 2 ^ 64"
proof -
  have es: "entries = map (\<lambda>b. (of_nat b, of_nat (min (b + unat k) (unat eb)))) (step_range (unat es) (unat eb) (unat k))"
    using range_packets_eq [OF assms(1,2), of cfg es] assms(3) by simp
  have "length entries \<le> unat eb"
    unfolding es using step_range_bounds distinct_card [OF distinct_step_range] card_mono
    by (metis (no_types, lifting) atLeastLessThan_iff finite_atLeastLessThan length_map subsetI
        card_atLeastLessThan diff_le_self order.trans)
  then show ?thesis
    using unat_usize_lt [of eb] by linarith
qed

section \<open>Running the packets of entries\<close>

text \<open>Packets of entries one after another: the VM updates in their order, the latch counted down.\<close>

lemma entries_packets_run:
  assumes "aid < length (w_latches w)"
  shows "\<exists>w2 rs aa bks.
    fold_res (\<lambda>p. table_entries_do_work up name table (fst p) (snd p) wk wv fwd aid) qs w = Inr w2 \<and>
    w_vm w2 = fold (\<lambda>p v. snd (up_st_update_entries_range up table (fst p) (snd p) wk wv fwd v)) qs
      (w_vm w) \<and>
    count_downs (length qs) (w_latches w ! aid) (w_buckets w) = (rs, aa, bks) \<and>
    w_latches w2 = (w_latches w)[aid := aa] \<and> w_buckets w2 = bks"
  using assms
proof (induction qs arbitrary: w)
  case Nil
  then show ?case by simp
next
  case (Cons q qs)
  obtain deleted v where
    v: "up_st_update_entries_range up table (fst q) (snd q) wk wv fwd (w_vm w) = (deleted, v)"
    by (cases "up_st_update_entries_range up table (fst q) (snd q) wk wv fwd (w_vm w)")
  obtain r aa bks where c: "count_down (w_latches w ! aid) (w_buckets w) = (r, aa, bks)"
    by (cases "count_down (w_latches w ! aid) (w_buckets w)")
  obtain w1 where w1:
    "table_entries_do_work up name table (fst q) (snd q) wk wv fwd aid w = Inr w1"
    "w_vm w1 = v" "w_latches w1 = (w_latches w)[aid := aa]" "w_buckets w1 = bks"
    using Cons.prems v c by (cases r) (simp_all add: table_entries_do_work_def Let_def)
  have "aid < length (w_latches w1)"
    using Cons.prems w1(3) by simp
  from Cons.IH [OF this] show ?case
    using w1 v c Cons.prems by (auto simp: Let_def)
qed

section \<open>Properties\<close>

text \<open>
  C24. Submitting a weak table: the packets of entries put into the bucket cover every index of the
  table's range of entries exactly once and no index outside, they are as many as the latch counts,
  and the packets of bins wait in that latch.
\<close>

theorem weak_table_submission:
  assumes "up_st_get_size_info up table (w_vm w) = (es, eb, bn)"
    and "0 < st_entries_chunk_size (w_binding w)"
    and "unat eb + unat (st_entries_chunk_size (w_binding w)) \<le> 2 ^ 64"
    and "unat bn + unat (st_bins_chunk_size (w_binding w)) \<le> 2 ^ 64"
  shows "\<exists>w' entries bins. process_weak_table_chunked cfg up name table wk wv fwd w = Inr w' \<and>
    w_buckets w' = bulk_add VMRefClosure
      (map (entries_packet name table wk wv fwd (length (w_latches w))) entries) (w_buckets w) \<and>
    w_latches w' = w_latches w @ [\<lparr>counter = of_nat (length entries), stage = VMRefClosure,
      packets = map (bins_packet name table) bins\<rparr>] \<and>
    (\<forall>i. coverage i entries = (if unat es \<le> i \<and> i < unat eb then 1 else 0))"
proof -
  obtain entries where e: "range_packets cfg es eb (st_entries_chunk_size (w_binding w))
      (st_entries_chunk_size (w_binding w)) = Inr entries"
    using range_packets_eq [OF assms(2,3)] by blast
  obtain bins where b: "range_packets cfg 0 bn (st_entries_chunk_size (w_binding w))
      (st_bins_chunk_size (w_binding w)) = Inr bins"
    using range_packets_eq [OF assms(2,4)] by blast
  show ?thesis
    using process_weak_table_chunked_eq [OF assms(1) e b] coverage_tiling [OF assms(2,3) e] by auto
qed

theorem weak_table_submission_witness:
  "\<exists>w' entries bins. process_weak_table_chunked debug_build
      (null_upcalls\<lparr>up_st_get_size_info := \<lambda>_ _. (5, 3000, 0)\<rparr>) ''t'' 8 True False True
      (example_world () () example_binding) = Inr w' \<and>
    w_latches w' = [\<lparr>counter = of_nat (length entries), stage = VMRefClosure,
      packets = map (bins_packet ''t'' 8) bins\<rparr>] \<and>
    coverage 1029 entries = 1 \<and> coverage 4 entries = 0"
proof -
  obtain w' entries bins where "process_weak_table_chunked debug_build
      (null_upcalls\<lparr>up_st_get_size_info := \<lambda>_ _. (5, 3000, 0)\<rparr>) ''t'' 8 True False True
      (example_world () () example_binding) = Inr w'"
    "w_latches w' = [\<lparr>counter = of_nat (length entries), stage = VMRefClosure,
      packets = map (bins_packet ''t'' 8) bins\<rparr>]"
    "\<forall>i. coverage i entries = (if 5 \<le> i \<and> i < 3000 then 1 else 0)"
    using weak_table_submission [of "null_upcalls\<lparr>up_st_get_size_info := \<lambda>_ _. (5, 3000, 0)\<rparr>" 8
      "example_world () () example_binding" 5 3000 0 debug_build "''t''" True False True]
    by auto
  then show ?thesis
    by (intro exI [of _ w'] exI [of _ entries] exI [of _ bins]) simp
qed

text \<open>
  C23. A whole round of a weak table: whatever order the workers take the submitted packets of entries
  in, the VM ends as if the whole range had been updated by one call, and the packets of bins are
  in the bucket, released by the last packet.
\<close>

theorem weak_table_round:
  assumes ew: "entrywise up table wk wv fwd upd"
    and sz: "up_st_get_size_info up table (w_vm w) = (es, eb, bn)" and "es < eb"
    and k: "0 < st_entries_chunk_size (w_binding w)"
    and fits: "unat eb + unat (st_entries_chunk_size (w_binding w)) \<le> 2 ^ 64"
    and e: "range_packets cfg es eb (st_entries_chunk_size (w_binding w))
      (st_entries_chunk_size (w_binding w)) = Inr entries"
    and b: "range_packets cfg 0 bn (st_entries_chunk_size (w_binding w))
      (st_bins_chunk_size (w_binding w)) = Inr bins"
    and "mset qs = mset entries"
  shows "\<exists>w1 w2. process_weak_table_chunked cfg up name table wk wv fwd w = Inr w1 \<and>
    fold_res (\<lambda>p. table_entries_do_work up name table (fst p) (snd p) wk wv fwd (length (w_latches w)))
      qs w1 = Inr w2 \<and>
    w_vm w2 = snd (up_st_update_entries_range up table es eb wk wv fwd (w_vm w)) \<and>
    w_buckets w2 VMRefClosure = w_buckets w1 VMRefClosure @ map (bins_packet name table) bins"
proof -
  let ?ec = "st_entries_chunk_size (w_binding w)" and ?aid = "length (w_latches w)"
  obtain w1 where w1: "process_weak_table_chunked cfg up name table wk wv fwd w = Inr w1"
    "w_latches w1 = w_latches w @ [\<lparr>counter = of_nat (length entries), stage = VMRefClosure,
      packets = map (bins_packet name table) bins\<rparr>]" "w_vm w1 = w_vm w"
    using process_weak_table_chunked_eq [OF sz e b] by simp
  have es: "entries = map (\<lambda>b. (of_nat b, of_nat (min (b + unat ?ec) (unat eb))))
      (step_range (unat es) (unat eb) (unat ?ec))"
    using range_packets_eq [OF k fits, of cfg es] e by simp
  have len: "length qs = length entries"
    using assms(8) by (metis size_mset)
  have n64: "length entries < 2 ^ 64"
    using k fits e by (rule entries_packets_few)
  have "entries \<noteq> []"
    using assms(3) k unfolding es by (simp add: step_range_step word_less_nat_alt)
  then obtain n where n: "length entries = Suc n"
    by (cases entries) auto
  obtain w2 rs aa bks where w2: "fold_res (\<lambda>p. table_entries_do_work up name table (fst p) (snd p)
        wk wv fwd ?aid) qs w1 = Inr w2"
    "w_vm w2 = fold (\<lambda>p v. snd (up_st_update_entries_range up table (fst p) (snd p) wk wv fwd v)) qs
      (w_vm w)"
    "count_downs (length qs) (w_latches w1 ! ?aid) (w_buckets w1) = (rs, aa, bks)"
    "w_buckets w2 = bks"
    using entries_packets_run [of ?aid w1] w1(2,3) by fastforce
  have "bks = bulk_add VMRefClosure (map (bins_packet name table) bins) (w_buckets w1)"
    using w2(3) count_downs_sequential [of "w_latches w1 ! ?aid" n "w_buckets w1"] w1(2) len n n64
    by (simp add: usize_simps del: count_downs.simps of_nat_Suc)
  then show ?thesis
    using w1 w2 entries_packets_any_order [OF ew k fits e assms(8), of "w_vm w"] by auto
qed

text \<open>A VM whose state is the set of the indices it has updated.\<close>

definition index_upcalls :: "nat set ruby_upcalls" where
  "index_upcalls = null_upcalls\<lparr>up_st_get_size_info := \<lambda>_ _. (0, 2000, 10),
     up_st_update_entries_range := \<lambda>_ b e _ _ _ v. (0, fold insert [unat b..<unat e] v)\<rparr>"

theorem weak_table_round_witness:
  "\<exists>w1 w2. process_weak_table_chunked release_build index_upcalls ''t'' 8 True False True
      (example_world () {} example_binding) = Inr w1 \<and>
    fold_res (\<lambda>p. table_entries_do_work index_upcalls ''t'' 8 (fst p) (snd p) True False True 0)
      [(1024, 2000), (0, 1024)] w1 = Inr w2 \<and>
    w_vm w2 = fold insert [0..<2000] {} \<and>
    w_buckets w2 VMRefClosure = w_buckets w1 VMRefClosure @ map (bins_packet ''t'' 8) [(0, 10)]"
proof -
  let ?w = "example_world () {} example_binding :: (unit, nat set) world"
  have r: "range_packets release_build 0 2000 1024 1024 = Inr [(0, 1024), (1024, 2000 :: usize)]"
    "range_packets release_build 0 10 1024 4096 = Inr [(0, 10 :: usize)]"
    by (simp_all add: range_packets_def step_by_def step_range.simps usize_add_def)
  have "entrywise index_upcalls 8 True False True insert"
    by (auto simp: entrywise_def index_upcalls_def)
  from weak_table_round [OF this, of ?w 0 2000 10 release_build "[(0, 1024), (1024, 2000)]"
      "[(0, 10)]" "[(1024, 2000), (0, 1024)]" "''t''"]
  show ?thesis
    by (simp add: index_upcalls_def r add_mset_commute)
qed

text \<open>
  C27. The packets of bins with the default settings overlap: the source steps by the chunk size of
  the entries (1024) but makes the packets as wide as the chunk size of the bins (4096), so every
  bin from number 3072 on is in four packets, and earlier ones in one, two or three.
\<close>

theorem default_bins_overlap:
  assumes "up_st_get_size_info up table (w_vm w) = (es, eb, bn)"
    and "st_entries_chunk_size (w_binding w) = 1024" "st_bins_chunk_size (w_binding w) = 4096"
    and "unat eb < 2 ^ 63" "unat bn < 2 ^ 63" "i < unat bn"
  shows "\<exists>w' bins. process_weak_table_chunked cfg up name table wk wv fwd w = Inr w' \<and>
    packets (last (w_latches w')) = map (bins_packet name table) bins \<and>
    coverage i bins = min (i div 1024 + 1) 4"
proof -
  have p: "(0 :: usize) < 1024" "unat eb + unat (1024 :: usize) \<le> 2 ^ 64"
    "unat bn + unat (4096 :: usize) \<le> 2 ^ 64" "unat (4096 :: usize) = 4 * unat (1024 :: usize)"
    using assms(4,5) by simp_all
  obtain entries where e: "range_packets cfg es eb 1024 1024 = Inr entries"
    using range_packets_eq [OF p(1,2)] by blast
  obtain bins where b: "range_packets cfg 0 bn 1024 4096 = Inr bins"
    using range_packets_eq [OF p(1,3)] by blast
  show ?thesis
    using process_weak_table_chunked_eq [OF assms(1), of cfg entries bins name wk wv fwd]
      e b assms(2,3) coverage_overlap [OF p(1,3,4) b assms(6)] by auto
qed

theorem default_bins_overlap_witness:
  "\<exists>w' bins. process_weak_table_chunked debug_build
      (null_upcalls\<lparr>up_st_get_size_info := \<lambda>_ _. (0, 10, 16384)\<rparr>) ''t'' 8 True False True
      (example_world () () example_binding) = Inr w' \<and>
    packets (last (w_latches w')) = map (bins_packet ''t'' 8) bins \<and> coverage 9999 bins = 4"
  using default_bins_overlap [of "null_upcalls\<lparr>up_st_get_size_info := \<lambda>_ _. (0, 10, 16384)\<rparr>" 8
      "example_world () () example_binding" 0 10 16384 9999 debug_build "''t''" True False True]
  by simp

text \<open>
  C37. With a chunk size for bins below the one for entries the packets of bins leave gaps: exactly the
  bins at the start of each step of the entries' chunk size are covered, the others are never updated.
\<close>

theorem small_bins_chunk_gap:
  assumes "up_st_get_size_info up table (w_vm w) = (es, eb, bn)"
    and "0 < st_entries_chunk_size (w_binding w)"
    and "unat (st_bins_chunk_size (w_binding w)) \<le> unat (st_entries_chunk_size (w_binding w))"
    and "unat eb + unat (st_entries_chunk_size (w_binding w)) \<le> 2 ^ 64"
    and "unat bn + unat (st_bins_chunk_size (w_binding w)) \<le> 2 ^ 64" and "i < unat bn"
  shows "\<exists>w' bins. process_weak_table_chunked cfg up name table wk wv fwd w = Inr w' \<and>
    packets (last (w_latches w')) = map (bins_packet name table) bins \<and>
    coverage i bins = (if i mod unat (st_entries_chunk_size (w_binding w)) <
      unat (st_bins_chunk_size (w_binding w)) then 1 else 0)"
proof -
  let ?ec = "st_entries_chunk_size (w_binding w)" and ?bc = "st_bins_chunk_size (w_binding w)"
  obtain entries where e: "range_packets cfg es eb ?ec ?ec = Inr entries"
    using range_packets_eq [OF assms(2,4)] by blast
  obtain bins where b: "range_packets cfg 0 bn ?ec ?bc = Inr bins"
    using range_packets_eq [OF assms(2,5)] by blast
  show ?thesis
    using process_weak_table_chunked_eq [OF assms(1) e b]
      coverage_gap [OF assms(2,5,3) b assms(6)] by auto
qed

theorem small_bins_chunk_gap_witness:
  "\<exists>w' bins. process_weak_table_chunked debug_build
      (null_upcalls\<lparr>up_st_get_size_info := \<lambda>_ _. (0, 10, 16384)\<rparr>) ''t'' 8 True False True
      (example_world () () (example_binding\<lparr>st_bins_chunk_size := 256\<rparr>)) = Inr w' \<and>
    packets (last (w_latches w')) = map (bins_packet ''t'' 8) bins \<and> coverage 1400 bins = 0"
  using small_bins_chunk_gap [of "null_upcalls\<lparr>up_st_get_size_info := \<lambda>_ _. (0, 10, 16384)\<rparr>" 8
      "example_world () () (example_binding\<lparr>st_bins_chunk_size := 256\<rparr>)" 0 10 16384 1400 debug_build
      "''t''" True False True]
  by simp

text \<open>
  C36. A table with bins but without entries: no packet reaches the bucket, the packets of bins are
  stored in a latch whose counter is zero, and a count down of that latch would not release them.
\<close>

theorem no_entries_no_bins:
  assumes "up_st_get_size_info up table (w_vm w) = (es, eb, bn)" "eb \<le> es" "0 < bn"
    and "0 < st_entries_chunk_size (w_binding w)"
    and "unat bn + unat (st_bins_chunk_size (w_binding w)) \<le> 2 ^ 64"
  shows "\<exists>w' aa. process_weak_table_chunked cfg up name table wk wv fwd w = Inr w' \<and>
    w_buckets w' = w_buckets w \<and> w_latches w' = w_latches w @ [aa] \<and>
    counter aa = 0 \<and> packets aa \<noteq> [] \<and>
    fst (count_down aa (w_buckets w')) = False \<and> snd (snd (count_down aa (w_buckets w'))) = w_buckets w"
proof -
  let ?ec = "st_entries_chunk_size (w_binding w)" and ?bc = "st_bins_chunk_size (w_binding w)"
  have "unat eb \<le> unat es" "?ec \<noteq> 0"
    using assms(2,4) by (auto simp: word_le_nat_alt)
  then have e: "range_packets cfg es eb ?ec ?ec = Inr []"
    by (simp add: range_packets_def step_by_def)
  obtain bins where b: "range_packets cfg 0 bn ?ec ?bc = Inr bins"
    "bins = map (\<lambda>b. (of_nat b, of_nat (min (b + unat ?bc) (unat bn))))
       (step_range (unat (0 :: usize)) (unat bn) (unat ?ec))"
    using range_packets_eq [OF assms(4,5)] by blast
  have "bins \<noteq> []"
    using assms(3,4) by (simp add: b(2) step_range_step word_less_nat_alt)
  with process_weak_table_chunked_eq [OF assms(1) e b(1)] show ?thesis
    by (auto simp: count_down_def Let_def)
qed

theorem no_entries_no_bins_witness:
  "\<exists>w' aa. process_weak_table_chunked debug_build
      (null_upcalls\<lparr>up_st_get_size_info := \<lambda>_ _. (7, 7, 16)\<rparr>) ''t'' 8 True False True
      (example_world () () example_binding) = Inr w' \<and>
    w_buckets w' = (\<lambda>_. []) \<and> w_latches w' = [aa] \<and> counter aa = 0 \<and> packets aa \<noteq> []"
  using no_entries_no_bins [of "null_upcalls\<lparr>up_st_get_size_info := \<lambda>_ _. (7, 7, 16)\<rparr>" 8
      "example_world () () example_binding" 7 7 16 debug_build "''t''" True False True]
  by auto

end
