(* ===== verification/Weak_Proc.thy ===== *)
theory Weak_Proc
  imports Weak_Table Contracts
begin

text \<open>
  The rest of \<open>mmtk/src/weak_proc.rs\<close>: \<open>obj_free\<close> candidates, the generic-instance-variable table, the
  other global tables, the list of WB-unprotected objects, and \<open>process_weak_stuff\<close>, which submits
  all of this as work packets after tracing.
\<close>

section \<open>Candidates for obj_free\<close>

definition add_obj_free_candidate :: "objref \<Rightarrow> weak_processor \<Rightarrow> weak_processor res" where
  "add_obj_free_candidate ob wp =
     bind_res (lock_unwrap (obj_free_candidates wp)) (\<lambda>xs.
     Inr (wp\<lparr>obj_free_candidates := (obj_free_candidates wp)\<lparr>mutex_data := xs @ [ob]\<rparr>\<rparr>))"

definition add_obj_free_candidates :: "objref list \<Rightarrow> weak_processor \<Rightarrow> weak_processor res" where
  "add_obj_free_candidates objects wp =
     bind_res (lock_unwrap (obj_free_candidates wp)) (\<lambda>xs.
     Inr (wp\<lparr>obj_free_candidates :=
       (obj_free_candidates wp)\<lparr>mutex_data := fold (\<lambda>ob acc. acc @ [ob]) objects xs\<rparr>\<rparr>))"

definition get_all_obj_free_candidates ::
  "weak_processor \<Rightarrow> (objref list \<times> weak_processor) res" where
  "get_all_obj_free_candidates wp =
     bind_res (lock_unwrap (obj_free_candidates wp)) (\<lambda>xs.
     Inr (xs, wp\<lparr>obj_free_candidates := (obj_free_candidates wp)\<lparr>mutex_data := []\<rparr>\<rparr>))"

definition candidates :: "weak_processor \<Rightarrow> objref list" where
  "candidates wp = mutex_data (obj_free_candidates wp)"

lemma fold_push_back: "fold (\<lambda>x acc. acc @ [x]) xs acc = acc @ xs"
  by (induction xs arbitrary: acc) auto

interpretation candidate_registry: registry add_obj_free_candidate add_obj_free_candidates
    candidates "\<lambda>wp. mutex_free (obj_free_candidates wp)"
  by unfold_locales
    (auto simp: add_obj_free_candidate_def add_obj_free_candidates_def candidates_def fold_push_back)

text \<open>The loop of \<open>ProcessObjFreeCandidates\<close>: survivors forwarded, \<open>obj_free\<close> called on the dead.\<close>

fun process_candidates ::
  "'m mmtk_core \<Rightarrow> 'v ruby_upcalls \<Rightarrow> 'm \<Rightarrow> objref list \<Rightarrow> 'v \<Rightarrow> objref list \<times> 'v" where
  "process_candidates core up m [] v = ([], v)"
| "process_candidates core up m (ob # obs) v =
     (if mc_is_reachable core ob m then
        (let (new_candidates, v') = process_candidates core up m obs v
         in (forward core m ob # new_candidates, v'))
      else process_candidates core up m obs (up_call_obj_free up ob v))"

definition put_candidates :: "objref list \<Rightarrow> ('m, 'v) world \<Rightarrow> ('m, 'v) world" where
  "put_candidates xs w = w\<lparr>w_binding := (w_binding w)\<lparr>weak_proc := (weak_proc (w_binding w))\<lparr>
     obj_free_candidates :=
       (obj_free_candidates (weak_proc (w_binding w)))\<lparr>mutex_data := xs\<rparr>\<rparr>\<rparr>\<rparr>"

definition process_obj_free_candidates_do_work ::
  "'m mmtk_core \<Rightarrow> 'v ruby_upcalls \<Rightarrow> ('m, 'v) world \<Rightarrow> ('m, 'v) world res" where
  "process_obj_free_candidates_do_work core up w =
     bind_res (try_lock_expect ''No mutators should hold this lock at this time.''
                (obj_free_candidates (weak_proc (w_binding w)))) (\<lambda>cands.
     let (new_candidates, v) = process_candidates core up (w_core w) cands (w_vm w)
     in Inr (emit (Probe_process_obj_free_candidates (length cands) (length new_candidates))
          (put_candidates new_candidates (w\<lparr>w_vm := v\<rparr>))))"

lemma process_candidates_eq:
  "process_candidates core up m xs v =
     (map (forward core m) (filter (\<lambda>ob. mc_is_reachable core ob m) xs),
      fold (up_call_obj_free up) (filter (\<lambda>ob. \<not> mc_is_reachable core ob m) xs) v)"
  by (induction xs arbitrary: v) auto

interpretation candidate_weak: weak_list "\<lambda>xs. fst (process_candidates core up m xs v)"
    "\<lambda>ob. mc_is_reachable core ob m" "forward core m" for core up m v
  by unfold_locales (simp add: process_candidates_eq)

section \<open>Global tables processed under the object closure\<close>

text \<open>
  \<open>GlobalTableProcessingWork::do_work\<close>: the table is processed by VM code whose references the closure
  forwards. The work of a table is VM code that ends in the new world, or in a panic.
\<close>

definition forward_visitor :: "build \<Rightarrow> 'm mmtk_core \<Rightarrow> 'm \<Rightarrow> unit visitor" where
  "forward_visitor cfg core m ob pin s =
     bind_res (extra_assert cfg (is_mmtk_object_safe core m ob) ''not an MMTk object'')
       (\<lambda>_. Inr (forward core m ob, s))"

definition global_table_do_work ::
  "build \<Rightarrow> 'm mmtk_core \<Rightarrow> (address \<rightharpoonup> unit gc_thread_tls) \<Rightarrow> vm_worker_thread \<Rightarrow>
   (('m, 'v) world \<Rightarrow> ('m, 'v) world res vmcode) \<Rightarrow> ('m, 'v) world \<Rightarrow> ('m, 'v) world res" where
  "global_table_do_work cfg core tls_mem tls process_table w =
     bind_res (from_vwt_check cfg tls_mem tls) (\<lambda>gc_tls.
     bind_res (run_with_closure cfg (object_closure gc_tls) (forward_visitor cfg core (w_core w))
                (process_table w) ()) (\<lambda>(r, _). r))"

definition general_update_weak_table ::
  "'v ruby_upcalls \<Rightarrow> ('v \<Rightarrow> address) \<Rightarrow> ('v \<Rightarrow> 'v vmcode) \<Rightarrow>
   ('m, 'v) world \<Rightarrow> ('m, 'v) world res vmcode" where
  "general_update_weak_table up getter cleaner w =
     (let table = getter (w_vm w); old_size = up_st_get_num_entries up table (w_vm w)
      in vm_bind (cleaner (w_vm w)) (\<lambda>v.
         VM_done (Inr (emit (Probe_weak_table_size_change old_size (up_st_get_num_entries up table v))
           (w\<lparr>w_vm := v\<rparr>)))))"

definition update_overloaded_cme_table ::
  "'v ruby_upcalls \<Rightarrow> ('m, 'v) world \<Rightarrow> ('m, 'v) world res vmcode" where
  "update_overloaded_cme_table up =
     general_update_weak_table up (up_get_overloaded_cme_table up) (up_update_overloaded_cme_table up)"

definition update_ci_table ::
  "'v ruby_upcalls \<Rightarrow> ('m, 'v) world \<Rightarrow> ('m, 'v) world res vmcode" where
  "update_ci_table up =
     general_update_weak_table up (up_get_ci_table up) (up_update_ci_table up)"

definition update_frozen_strings_table ::
  "'v ruby_upcalls \<Rightarrow> ('m, 'v) world \<Rightarrow> ('m, 'v) world res vmcode" where
  "update_frozen_strings_table up =
     general_update_weak_table up (up_get_frozen_strings_table up) (up_update_frozen_strings_table up)"

definition update_global_symbols_table ::
  "'v ruby_upcalls \<Rightarrow> ('m, 'v) world \<Rightarrow> ('m, 'v) world res vmcode" where
  "update_global_symbols_table up =
     general_update_weak_table up (up_get_global_symbols_table up) (up_update_global_symbols_table up)"

definition update_finalizer_and_obj_id_tables ::
  "'v ruby_upcalls \<Rightarrow> ('m, 'v) world \<Rightarrow> ('m, 'v) world res vmcode" where
  "update_finalizer_and_obj_id_tables up w =
     (let finalizer_table = up_get_finalizer_table up (w_vm w);
          obj_to_id_table = up_get_obj_to_id_table up (w_vm w);
          id_to_obj_table = up_get_id_to_obj_table up (w_vm w);
          num = up_st_get_num_entries up
      in vm_bind (up_update_finalizer_and_obj_id_tables up (w_vm w)) (\<lambda>v.
         VM_done (Inr (emit (Probe_update_finalizer_and_obj_id_tables
             (num finalizer_table (w_vm w)) (num finalizer_table v)
             (num obj_to_id_table (w_vm w)) (num obj_to_id_table v)
             (num id_to_obj_table (w_vm w)) (num id_to_obj_table v)) (w\<lparr>w_vm := v\<rparr>)))))"

section \<open>Generic instance variables\<close>

definition put_moved_givtbl ::
  "(objref \<rightharpoonup> moved_givtbl_entry) \<Rightarrow> ('m, 'v) world \<Rightarrow> ('m, 'v) world" where
  "put_moved_givtbl t w = w\<lparr>w_binding := (w_binding w)\<lparr>moved_givtbl :=
     (moved_givtbl (w_binding w))\<lparr>mutex_data := t\<rparr>\<rparr>\<rparr>"

text \<open>The loop over the drained \<open>moved_givtbl\<close>.\<close>

definition move_givtbls ::
  "'v ruby_upcalls \<Rightarrow> (objref \<times> moved_givtbl_entry) list \<Rightarrow> 'v \<Rightarrow> 'v" where
  "move_givtbls up entries v =
     fold (\<lambda>(new_objref, e). up_move_givtbl up (old_objref e) new_objref) entries v"

definition update_generic_iv_tbl ::
  "'v ruby_upcalls \<Rightarrow> ((objref \<rightharpoonup> moved_givtbl_entry) \<Rightarrow> (objref \<times> moved_givtbl_entry) list) \<Rightarrow>
   ('m, 'v) world \<Rightarrow> ('m, 'v) world res vmcode" where
  "update_generic_iv_tbl up ord w =
     (case try_lock_expect ''Should have no race in weak_proc'' (moved_givtbl (w_binding w)) of
        Inl e \<Rightarrow> VM_done (Inl e)
      | Inr moved \<Rightarrow>
          let entries = ord moved;
              v1 = move_givtbls up entries (w_vm w);
              w1 = put_moved_givtbl Map.empty (w\<lparr>w_vm := v1\<rparr>);
              generic_iv_tbl = up_get_generic_iv_tbl up v1;
              old_size = up_st_get_num_entries up generic_iv_tbl v1
          in vm_bind (up_cleanup_generic_iv_tbl up v1) (\<lambda>v2.
             VM_done (Inr (emit (Probe_update_generic_iv_tbl (length entries) old_size
                 (up_st_get_num_entries up generic_iv_tbl v2)) (w1\<lparr>w_vm := v2\<rparr>)))))"

text \<open>
  The documented behaviour of the two upcalls on the table of the VM, read by \<open>tbl\<close> as a map from
  objects to non-null ivar tables: lookup, with null for an absent entry, and re-keying.
\<close>

definition givtbl_contract :: "'v ruby_upcalls \<Rightarrow> ('v \<Rightarrow> objref \<rightharpoonup> address) \<Rightarrow> bool" where
  "givtbl_contract up tbl \<longleftrightarrow>
     (\<forall>ob v. up_get_original_givtbl up ob v = (case tbl v ob of None \<Rightarrow> 0 | Some p \<Rightarrow> p)) \<and>
     (\<forall>ob v. tbl v ob \<noteq> Some 0) \<and>
     (\<forall>old new v p. tbl v old = Some p \<longrightarrow>
        tbl (up_move_givtbl up old new v) = (tbl v)(old := None, new \<mapsto> p))"

text \<open>
  The state in which the drain finds the tables: each entry records a move of an object whose ivar
  table is still under the old reference; no object moved twice, and none to where another came from.
\<close>

definition moves_ok :: "(objref \<rightharpoonup> address) \<Rightarrow> (objref \<rightharpoonup> moved_givtbl_entry) \<Rightarrow> bool" where
  "moves_ok t moved \<longleftrightarrow>
     finite (dom moved) \<and>
     (\<forall>new e. moved new = Some e \<longrightarrow> t (old_objref e) = Some (gen_ivtbl e)) \<and>
     (\<forall>new new' e e'. moved new = Some e \<longrightarrow> moved new' = Some e' \<longrightarrow>
        old_objref e = old_objref e' \<longrightarrow> new = new') \<and>
     (\<forall>new e. moved new = Some e \<longrightarrow> moved (old_objref e) = None)"

text \<open>The table after the drain, stated without any order of the moves.\<close>

definition rekeyed ::
  "(objref \<rightharpoonup> address) \<Rightarrow> (objref \<rightharpoonup> moved_givtbl_entry) \<Rightarrow> (objref \<rightharpoonup> address)" where
  "rekeyed t moved ob =
     (case moved ob of
        Some e \<Rightarrow> Some (gen_ivtbl e)
      | None \<Rightarrow> if \<exists>new e. moved new = Some e \<and> old_objref e = ob then None else t ob)"

lemma move_givtbls_rekeyed_list:
  assumes c: "givtbl_contract up tbl"
    and "distinct (map fst es)" "distinct (map (\<lambda>x. old_objref (snd x)) es)"
    and "\<forall>x \<in> set es. tbl v (old_objref (snd x)) = Some (gen_ivtbl (snd x))"
    and "\<forall>x \<in> set es. \<forall>y \<in> set es. old_objref (snd x) \<noteq> fst y"
  shows "tbl (move_givtbls up es v) ob =
    (case map_of es ob of
       Some e \<Rightarrow> Some (gen_ivtbl e)
     | None \<Rightarrow> if ob \<in> (\<lambda>x. old_objref (snd x)) ` set es then None else tbl v ob)"
  using assms(2-5)
proof (induction es arbitrary: v)
  case Nil
  then show ?case by (simp add: move_givtbls_def)
next
  case (Cons x es)
  obtain new e where x: "x = (new, e)" by (cases x)
  let ?v = "up_move_givtbl up (old_objref e) new v"
  have tbl: "tbl ?v = (tbl v)(old_objref e := None, new \<mapsto> gen_ivtbl e)"
    using c Cons.prems(3) x by (simp add: givtbl_contract_def)
  have "tbl (move_givtbls up es ?v) ob =
    (case map_of es ob of
       Some e \<Rightarrow> Some (gen_ivtbl e)
     | None \<Rightarrow> if ob \<in> (\<lambda>x. old_objref (snd x)) ` set es then None else tbl ?v ob)"
  proof (rule Cons.IH)
    show "\<forall>y \<in> set es. tbl ?v (old_objref (snd y)) = Some (gen_ivtbl (snd y))"
    proof
      fix y assume "y \<in> set es"
      then have "old_objref (snd y) \<noteq> old_objref e" "old_objref (snd y) \<noteq> new"
        using Cons.prems(2,4) x by (auto simp: rev_image_eqI)
      with \<open>y \<in> set es\<close> show "tbl ?v (old_objref (snd y)) = Some (gen_ivtbl (snd y))"
        using Cons.prems(3) by (simp add: tbl)
    qed
  qed (use Cons.prems in auto)
  moreover have "move_givtbls up (x # es) v = move_givtbls up es ?v"
    by (simp add: move_givtbls_def x)
  moreover have "map_of es new = None"
    using Cons.prems(1) x by (simp add: map_of_eq_None_iff)
  moreover have "new \<notin> (\<lambda>x. old_objref (snd x)) ` set es"
    using Cons.prems(4) x by auto
  moreover have "old_objref e \<noteq> new"
    using Cons.prems(4) x by simp
  ultimately show ?case
    using x by (auto simp: tbl split: option.split)
qed

lemma move_givtbls_rekeyed:
  assumes c: "givtbl_contract up tbl" and ok: "moves_ok (tbl v) moved" and ord: "hash_map_order ord"
  shows "tbl (move_givtbls up (ord moved) v) = rekeyed (tbl v) moved"
proof
  fix ob
  have fin: "finite (dom moved)"
    using ok by (simp add: moves_ok_def)
  then have d: "distinct (map fst (ord moved))" and m: "map_of (ord moved) = moved"
    using ord by (auto simp: hash_map_order_def)
  have mem: "x \<in> set (ord moved) \<longleftrightarrow> moved (fst x) = Some (snd x)" for x
    using d m map_of_eq_Some_iff [OF d, of "fst x" "snd x"] by simp
  have inj: "inj_on (\<lambda>x. old_objref (snd x)) (set (ord moved))"
  proof (rule inj_onI)
    fix x y assume "x \<in> set (ord moved)" "y \<in> set (ord moved)"
      and "old_objref (snd x) = old_objref (snd y)"
    moreover from this have "fst x = fst y"
      using ok mem unfolding moves_ok_def by blast
    ultimately show "x = y"
      using mem by (metis option.inject prod_eqI)
  qed
  have "tbl (move_givtbls up (ord moved) v) ob =
    (case map_of (ord moved) ob of
       Some e \<Rightarrow> Some (gen_ivtbl e)
     | None \<Rightarrow> if ob \<in> (\<lambda>x. old_objref (snd x)) ` set (ord moved) then None else tbl v ob)"
  proof (rule move_givtbls_rekeyed_list [OF c d])
    show "distinct (map (\<lambda>x. old_objref (snd x)) (ord moved))"
      using inj d distinct_map by blast
    show "\<forall>x \<in> set (ord moved). tbl v (old_objref (snd x)) = Some (gen_ivtbl (snd x))"
      using ok mem by (simp add: moves_ok_def)
    show "\<forall>x \<in> set (ord moved). \<forall>y \<in> set (ord moved). old_objref (snd x) \<noteq> fst y"
      using ok mem unfolding moves_ok_def by (metis option.distinct(1))
  qed
  moreover have "ob \<in> (\<lambda>x. old_objref (snd x)) ` set (ord moved) \<longleftrightarrow>
      (\<exists>new e. moved new = Some e \<and> old_objref e = ob)"
    using mem by (force simp: image_iff)
  ultimately show "tbl (move_givtbls up (ord moved) v) ob = rekeyed (tbl v) moved ob"
    by (simp only: rekeyed_def m)
qed

section \<open>WB-unprotected objects\<close>

definition put_wb_unprotected :: "objref set \<Rightarrow> ('m, 'v) world \<Rightarrow> ('m, 'v) world" where
  "put_wb_unprotected S w = w\<lparr>w_binding := (w_binding w)\<lparr>wb_unprotected_objects :=
     (wb_unprotected_objects (w_binding w))\<lparr>mutex_data := S\<rparr>\<rparr>\<rparr>"

definition retain_wb_unprotected :: "'m mmtk_core \<Rightarrow> 'm \<Rightarrow> objref list \<Rightarrow> objref set" where
  "retain_wb_unprotected core m old_objects =
     fold (\<lambda>ob objects. if mc_is_reachable core ob m then insert (forward core m ob) objects
            else objects) old_objects {}"

definition update_wb_unprotected_objects_list_do_work ::
  "'m mmtk_core \<Rightarrow> (objref set \<Rightarrow> objref list) \<Rightarrow> ('m, 'v) world \<Rightarrow> ('m, 'v) world res" where
  "update_wb_unprotected_objects_list_do_work core ord w =
     bind_res (try_lock_expect
       ''Someone is holding the lock of wb_unprotected_objects during weak processing phase?''
       (wb_unprotected_objects (w_binding w))) (\<lambda>old_objects.
     let objects = retain_wb_unprotected core (w_core w) (ord old_objects)
     in Inr (emit (Probe_update_wb_unprotected_objects_list (card old_objects) (card objects))
          (put_wb_unprotected objects w)))"

lemma retain_wb_unprotected_eq:
  "retain_wb_unprotected core m obs = forward core m ` {ob \<in> set obs. mc_is_reachable core ob m}"
proof -
  have "fold (\<lambda>ob objects. if mc_is_reachable core ob m then insert (forward core m ob) objects
            else objects) obs S = forward core m ` {ob \<in> set obs. mc_is_reachable core ob m} \<union> S" for S
    by (induction obs arbitrary: S) auto
  then show ?thesis by (simp add: retain_wb_unprotected_def)
qed

section \<open>Submitting the weak processing\<close>

definition weak_packets :: "gc_work list" where
  "weak_packets = [UpdateGenericIvTbl, UpdateFinalizerAndObjIdTables, UpdateOverloadedCmeTable,
     UpdateCiTable, UpdateWbUnprotectedObjectsList]"

definition process_weak_stuff ::
  "build \<Rightarrow> 'm mmtk_core \<Rightarrow> 'v ruby_upcalls \<Rightarrow> ('m, 'v) world \<Rightarrow> ('m, 'v) world res" where
  "process_weak_stuff cfg core up w =
     (let w1 = submit VMRefClosure [ProcessObjFreeCandidates] w;
          w2 = submit VMRefClosure weak_packets w1;
          fwd = mc_current_gc_may_move_object core (w_core w2)
      in bind_res (process_weak_table_chunked cfg up ''frozen strings''
           (up_get_frozen_strings_table up (w_vm w2)) True False fwd w2) (\<lambda>w3.
         process_weak_table_chunked cfg up ''global symbols''
           (up_get_global_symbols_table up (w_vm w3)) False True fwd w3))"

lemma put_weak_simps [simp]:
  "w_core (put_candidates xs w) = w_core w" "w_vm (put_candidates xs w) = w_vm w"
  "w_buckets (put_candidates xs w) = w_buckets w"
  "ppp_reg (w_binding (put_candidates xs w)) = ppp_reg (w_binding w)"
  "candidates (weak_proc (w_binding (put_candidates xs w))) = xs"
  "w_core (put_moved_givtbl t w) = w_core w" "w_vm (put_moved_givtbl t w) = w_vm w"
  "w_buckets (put_moved_givtbl t w) = w_buckets w"
  "ppp_reg (w_binding (put_moved_givtbl t w)) = ppp_reg (w_binding w)"
  "mutex_data (moved_givtbl (w_binding (put_moved_givtbl t w))) = t"
  "w_core (put_wb_unprotected S w) = w_core w" "w_vm (put_wb_unprotected S w) = w_vm w"
  "w_buckets (put_wb_unprotected S w) = w_buckets w"
  "ppp_reg (w_binding (put_wb_unprotected S w)) = ppp_reg (w_binding w)"
  "mutex_data (wb_unprotected_objects (w_binding (put_wb_unprotected S w))) = S"
  by (simp_all add: put_candidates_def put_moved_givtbl_def put_wb_unprotected_def candidates_def)

text \<open>Without the extra assertions the forwarding visitor never panics.\<close>

lemma run_forward_visitor_release:
  assumes "\<not> debug_assertions cfg" "\<not> extra_assert_feature cfg"
  shows "\<exists>r. run_with_closure cfg object_closure_default (forward_visitor cfg core m) c s = Inr (r, s)"
  using assms
  by (induction c arbitrary: s)
    (auto simp: run_with_closure_default forward_visitor_def extra_assert_def)

section \<open>Properties\<close>

lemma ivar_upcalls_contract: "givtbl_contract ivar_upcalls ivar_table"
  by (auto simp: givtbl_contract_def ivar_upcalls_def null_upcalls_def ivar_table_def fun_eq_iff
      split: option.splits if_splits)



text \<open>
  Updating the generic ivar table: whatever order the hash map is drained in, the table of the VM
  is re-keyed from the old to the new reference of every moved object at once, then the VM cleans it
  up under the forwarding closure, the record of moves is empty, and the probe reports how many
  objects moved.
\<close>

theorem generic_iv_table_update:
  assumes c: "givtbl_contract up tbl" and ord: "hash_map_order ord"
    and ok: "moves_ok (tbl (w_vm w)) (mutex_data (moved_givtbl (w_binding w)))"
    and free: "mutex_free (moved_givtbl (w_binding w))" and idle: "idle_gc_thread tls_mem tls"
  shows "\<exists>v1 old_size new_size.
    tbl v1 = rekeyed (tbl (w_vm w)) (mutex_data (moved_givtbl (w_binding w))) \<and>
    global_table_do_work cfg core tls_mem tls (update_generic_iv_tbl up ord) w =
      bind_res (run_visitor (forward_visitor cfg core (w_core w)) (up_cleanup_generic_iv_tbl up v1) ())
        (\<lambda>(v2, _). Inr (emit (Probe_update_generic_iv_tbl
            (card (dom (mutex_data (moved_givtbl (w_binding w))))) old_size (new_size v2))
          (put_moved_givtbl Map.empty (w\<lparr>w_vm := v2\<rparr>))))"
proof -
  let ?moved = "mutex_data (moved_givtbl (w_binding w))"
  let ?v1 = "move_givtbls up (ord ?moved) (w_vm w)"
  obtain gc_tls where g: "from_vwt_check cfg tls_mem tls = Inr gc_tls"
    "object_closure gc_tls = object_closure_default"
    using idle by (rule idle_from_vwt_check)
  have "finite (dom ?moved)"
    using ok by (simp add: moves_ok_def)
  then have "distinct (map fst (ord ?moved))" "map_of (ord ?moved) = ?moved"
    using ord by (auto simp: hash_map_order_def)
  then have n: "length (ord ?moved) = card (dom ?moved)"
    by (metis distinct_card dom_map_of_conv_image_fst length_map list.set_map)
  have "global_table_do_work cfg core tls_mem tls (update_generic_iv_tbl up ord) w =
      bind_res (run_visitor (forward_visitor cfg core (w_core w)) (up_cleanup_generic_iv_tbl up ?v1) ())
        (\<lambda>(v2, _). Inr (emit (Probe_update_generic_iv_tbl (card (dom ?moved))
            (up_st_get_num_entries up (up_get_generic_iv_tbl up ?v1) ?v1)
            (up_st_get_num_entries up (up_get_generic_iv_tbl up ?v1) v2))
          (put_moved_givtbl Map.empty (w\<lparr>w_vm := v2\<rparr>))))"
    using g free n
    by (auto simp: global_table_do_work_def update_generic_iv_tbl_def Let_def run_with_closure_default
        run_visitor_vm_bind bind_res_assoc put_moved_givtbl_def split: prod.splits
        intro!: bind_res_cong)
  with move_givtbls_rekeyed [OF c ok ord] show ?thesis by blast
qed

definition example_moves :: "objref \<rightharpoonup> moved_givtbl_entry" where
  "example_moves = [32 \<mapsto> \<lparr>old_objref = 16, gen_ivtbl = 512\<rparr>]"

theorem generic_iv_table_update_witness:
  "\<exists>w'. global_table_do_work release_build example_core example_tls 4096
      (update_generic_iv_tbl ivar_upcalls sorted_map_order)
      (put_moved_givtbl example_moves (example_world {} [16 \<mapsto> 512, 48 \<mapsto> 520] example_binding)) =
        Inr w' \<and>
    ivar_table (w_vm w') 32 = Some 512 \<and> ivar_table (w_vm w') 16 = None \<and>
    ivar_table (w_vm w') 48 = Some 520 \<and>
    mutex_data (moved_givtbl (w_binding w')) = Map.empty"
proof -
  let ?w = "put_moved_givtbl example_moves
    (example_world ({} :: objref set) [16 :: objref \<mapsto> 512, 48 \<mapsto> 520 :: address] example_binding)"
  have "moves_ok (ivar_table (w_vm ?w)) (mutex_data (moved_givtbl (w_binding ?w)))"
    by (auto simp: moves_ok_def example_moves_def ivar_table_def)
  moreover have "mutex_free (moved_givtbl (w_binding ?w))"
    by (simp add: put_moved_givtbl_def)
  ultimately obtain v1 old_size new_size where
    v1: "ivar_table v1 = rekeyed (ivar_table (w_vm ?w)) (mutex_data (moved_givtbl (w_binding ?w)))"
    and eq: "global_table_do_work release_build example_core example_tls 4096
        (update_generic_iv_tbl ivar_upcalls sorted_map_order) ?w =
      bind_res (run_visitor (forward_visitor release_build example_core (w_core ?w))
          (up_cleanup_generic_iv_tbl ivar_upcalls v1) ())
        (\<lambda>(v2, _). Inr (emit (Probe_update_generic_iv_tbl
            (card (dom (mutex_data (moved_givtbl (w_binding ?w))))) old_size (new_size v2))
          (put_moved_givtbl Map.empty (?w\<lparr>w_vm := v2\<rparr>))))"
    using generic_iv_table_update [OF ivar_upcalls_contract sorted_map_order _ _ example_tls_idle, of ?w
        release_build example_core] by blast
  have "up_cleanup_generic_iv_tbl ivar_upcalls v1 = VM_done v1"
    by (simp add: ivar_upcalls_def null_upcalls_def)
  moreover have "rekeyed (ivar_table [16 \<mapsto> 512, 48 \<mapsto> 520]) example_moves 32 = Some 512"
    "rekeyed (ivar_table [16 \<mapsto> 512, 48 \<mapsto> 520]) example_moves 16 = None"
    "rekeyed (ivar_table [16 \<mapsto> 512, 48 \<mapsto> 520]) example_moves 48 = Some 520"
    by (simp_all add: rekeyed_def example_moves_def ivar_table_def)
  ultimately show ?thesis
    using eq v1 by simp
qed

text \<open>
  The set of WB-unprotected objects after weak processing is the forwarded image of its reachable
  part, independently of the iteration order of the hash set, and the probe has the two sizes.
\<close>

theorem wb_unprotected_update:
  assumes "mutex_free (wb_unprotected_objects (w_binding w))" and "hash_set_order ord"
    and "finite (mutex_data (wb_unprotected_objects (w_binding w)))"
  shows "\<exists>w'. update_wb_unprotected_objects_list_do_work core ord w = Inr w' \<and>
    mutex_data (wb_unprotected_objects (w_binding w')) = forward core (w_core w) `
      {ob \<in> mutex_data (wb_unprotected_objects (w_binding w)). mc_is_reachable core ob (w_core w)} \<and>
    w_probes w' = w_probes w @ [Probe_update_wb_unprotected_objects_list
      (card (mutex_data (wb_unprotected_objects (w_binding w))))
      (card (mutex_data (wb_unprotected_objects (w_binding w'))))]"
  using assms
  by (simp add: update_wb_unprotected_objects_list_do_work_def retain_wb_unprotected_eq
      hash_set_order_def put_wb_unprotected_def)

theorem wb_unprotected_update_witness:
  "\<exists>w'. update_wb_unprotected_objects_list_do_work example_core sorted_list_of_set
      (put_wb_unprotected {16, 24, 48} (example_world {} () example_binding)) = Inr w' \<and>
    mutex_data (wb_unprotected_objects (w_binding w')) = {32, 48}"
proof -
  let ?w = "put_wb_unprotected {16, 24, 48} (example_world ({} :: objref set) () example_binding)"
  have "mutex_free (wb_unprotected_objects (w_binding ?w))"
    by (simp add: put_wb_unprotected_def)
  moreover have "{ob. (ob = 16 \<or> ob = 24 \<or> ob = 48) \<and> ob \<noteq> (24 :: objref)} = {16, 48}"
    by auto
  ultimately show ?thesis
    using wb_unprotected_update [of ?w, OF _ sorted_set_order, of example_core]
    by (auto simp: forward_def example_core_def)
qed

text \<open>
  What \<open>process_weak_stuff\<close> submits: the processing of \<open>obj_free\<close> candidates first, then the five
  packets of the global tables and lists, then the packets of entries of the frozen strings table
  (weak keys) and of the global symbols table (weak values), each table with a latch of its own that
  counts its packets.
\<close>

theorem weak_processing_submission:
  assumes "up_st_get_size_info up (up_get_frozen_strings_table up (w_vm w)) (w_vm w) = (es1, eb1, bn1)"
    and "up_st_get_size_info up (up_get_global_symbols_table up (w_vm w)) (w_vm w) = (es2, eb2, bn2)"
    and "0 < st_entries_chunk_size (w_binding w)"
    and "unat (st_entries_chunk_size (w_binding w)) \<le> 2 ^ 63"
    and "unat (st_bins_chunk_size (w_binding w)) \<le> 2 ^ 63"
    and "unat eb1 < 2 ^ 63" "unat bn1 < 2 ^ 63" "unat eb2 < 2 ^ 63" "unat bn2 < 2 ^ 63"
  shows "\<exists>w' l1 l2 entries1 entries2. process_weak_stuff cfg core up w = Inr w' \<and>
    w_buckets w' VMRefClosure = w_buckets w VMRefClosure @
      [ProcessObjFreeCandidates, UpdateGenericIvTbl, UpdateFinalizerAndObjIdTables,
       UpdateOverloadedCmeTable, UpdateCiTable, UpdateWbUnprotectedObjectsList] @
      map (entries_packet ''frozen strings'' (up_get_frozen_strings_table up (w_vm w)) True False
        (mc_current_gc_may_move_object core (w_core w)) (length (w_latches w))) entries1 @
      map (entries_packet ''global symbols'' (up_get_global_symbols_table up (w_vm w)) False True
        (mc_current_gc_may_move_object core (w_core w)) (Suc (length (w_latches w)))) entries2 \<and>
    w_latches w' = w_latches w @ [l1, l2] \<and>
    counter l1 = of_nat (length entries1) \<and> counter l2 = of_nat (length entries2) \<and>
    w_buckets w' Prepare = w_buckets w Prepare \<and> w_binding w' = w_binding w"
proof -
  let ?ec = "st_entries_chunk_size (w_binding w)" and ?bc = "st_bins_chunk_size (w_binding w)"
  have fits: "unat eb1 + unat ?ec \<le> 2 ^ 64" "unat bn1 + unat ?bc \<le> 2 ^ 64"
    "unat eb2 + unat ?ec \<le> 2 ^ 64" "unat bn2 + unat ?bc \<le> 2 ^ 64"
    using assms(4-9) by simp_all
  obtain entries1 where e1: "range_packets cfg es1 eb1 ?ec ?ec = Inr entries1"
    using range_packets_eq [OF assms(3) fits(1)] by blast
  obtain entries2 where e2: "range_packets cfg es2 eb2 ?ec ?ec = Inr entries2"
    using range_packets_eq [OF assms(3) fits(3)] by blast
  obtain bins1 where b1: "range_packets cfg 0 bn1 ?ec ?bc = Inr bins1"
    using range_packets_eq [OF assms(3) fits(2)] by blast
  obtain bins2 where b2: "range_packets cfg 0 bn2 ?ec ?bc = Inr bins2"
    using range_packets_eq [OF assms(3) fits(4)] by blast
  show ?thesis
    using assms(1,2) e1 e2 b1 b2
    by (simp add: process_weak_stuff_def Let_def process_weak_table_chunked_eq weak_packets_def
        bulk_add_def) metis
qed

theorem weak_processing_submission_witness:
  "\<exists>w' l1 l2. process_weak_stuff debug_build example_core null_upcalls
      (example_world {} () example_binding) = Inr w' \<and> w_latches w' = [l1, l2] \<and>
    hd (w_buckets w' VMRefClosure) = ProcessObjFreeCandidates"
  using weak_processing_submission [of null_upcalls "example_world {} () example_binding"
      0 0 0 0 0 0 debug_build example_core]
  by (fastforce simp: null_upcalls_def)



end
