(* ===== verification/Object_Model.thy ===== *)
theory Object_Model
  imports Weak_Proc
begin

text \<open>
  \<open>mmtk/src/object_model.rs\<close>: copying a Ruby object together with its hidden header and suffix, the
  bookkeeping for its generic instance variables, and the sizes and addresses mmtk-core asks for.
  The lookup \<open>get_givtbl\<close> of \<open>abi.rs\<close>, which reads that bookkeeping, is here too. The allocation of
  the new copy (\<open>alloc_copy\<close>) and \<open>post_copy\<close> are functions of mmtk-core and parameters.
\<close>

section \<open>Constants and metadata placement\<close>

definition BITS_IN_BYTE :: int where
  "BITS_IN_BYTE = 8"

text \<open>The in-header forwarding pointer, as a bit offset from the object reference.\<close>

definition LOCAL_FORWARDING_POINTER_OFFSET :: int where
  "LOCAL_FORWARDING_POINTER_OFFSET = - (uint OBJREF_OFFSET * BITS_IN_BYTE)"

text \<open>
  The metadata outside the objects. Where a kind of metadata starts is computed by mmtk-core, at the front
  of the side metadata or after another kind: \<open>side_first\<close> and \<open>side_after\<close> are its functions.
\<close>

datatype side_metadata = Log_bit | Forwarding_bits | Mark_bit | Pinning_bit | Los_mark_nursery

record 'spec side_layout =
  side_first :: "side_metadata \<Rightarrow> 'spec"
  side_after :: "side_metadata \<Rightarrow> 'spec \<Rightarrow> 'spec"

definition GLOBAL_LOG_BIT_SPEC :: "'spec side_layout \<Rightarrow> 'spec" where
  "GLOBAL_LOG_BIT_SPEC sl = side_first sl Log_bit"

definition LOCAL_FORWARDING_BITS_SPEC :: "'spec side_layout \<Rightarrow> 'spec" where
  "LOCAL_FORWARDING_BITS_SPEC sl = side_first sl Forwarding_bits"

definition LOCAL_MARK_BIT_SPEC :: "'spec side_layout \<Rightarrow> 'spec" where
  "LOCAL_MARK_BIT_SPEC sl = side_after sl Mark_bit (LOCAL_FORWARDING_BITS_SPEC sl)"

definition LOCAL_PINNING_BIT_SPEC :: "'spec side_layout \<Rightarrow> 'spec" where
  "LOCAL_PINNING_BIT_SPEC sl = side_after sl Pinning_bit (LOCAL_MARK_BIT_SPEC sl)"

definition LOCAL_LOS_MARK_NURSERY_SPEC :: "'spec side_layout \<Rightarrow> 'spec" where
  "LOCAL_LOS_MARK_NURSERY_SPEC sl = side_after sl Los_mark_nursery (LOCAL_PINNING_BIT_SPEC sl)"

definition UNIFIED_OBJECT_REFERENCE_ADDRESS :: bool where
  "UNIFIED_OBJECT_REFERENCE_ADDRESS = False"

definition OBJECT_REF_OFFSET_LOWER_BOUND :: int where
  "OBJECT_REF_OFFSET_LOWER_BOUND = uint OBJREF_OFFSET"

definition NEED_VO_BITS_DURING_TRACING :: bool where
  "NEED_VO_BITS_DURING_TRACING = True"

definition ref_to_object_start :: "objref \<Rightarrow> address" where
  "ref_to_object_start ob = obj_start (from_objref ob)"

definition ref_to_header :: "objref \<Rightarrow> address" where
  "ref_to_header ob = payload_addr (from_objref ob)"

definition get_current_size :: "build \<Rightarrow> usize \<Rightarrow> memory \<Rightarrow> objref \<Rightarrow> usize res" where
  "get_current_size cfg sfx m ob = object_size cfg sfx m (from_objref ob)"

definition get_size_when_copied :: "build \<Rightarrow> usize \<Rightarrow> memory \<Rightarrow> objref \<Rightarrow> usize res" where
  "get_size_when_copied cfg sfx m ob = get_current_size cfg sfx m ob"

text \<open>Operations of the trait that only a plan the binding does not support would call.\<close>

definition copy_to :: "objref \<Rightarrow> objref \<Rightarrow> address \<Rightarrow> address res" where
  "copy_to from_ob to_ob region = Inl Unimplemented"

definition get_reference_when_copied_to :: "objref \<Rightarrow> address \<Rightarrow> objref res" where
  "get_reference_when_copied_to from_ob to_addr = Inl Unimplemented"

definition get_type_descriptor :: "objref \<Rightarrow> byte list res" where
  "get_type_descriptor ob = Inl Todo"

definition get_align_when_copied :: "objref \<Rightarrow> usize res" where
  "get_align_when_copied ob = Inl Todo"

definition get_align_offset_when_copied :: "objref \<Rightarrow> usize res" where
  "get_align_offset_when_copied ob = Inl Todo"

definition dump_object :: "objref \<Rightarrow> unit res" where
  "dump_object ob = Inl Todo"

section \<open>Looking up generic instance variables\<close>

definition get_original_givtbl :: "'v ruby_upcalls \<Rightarrow> 'v \<Rightarrow> objref \<Rightarrow> address option" where
  "get_original_givtbl up v ob =
     (let addr = up_get_original_givtbl up ob v in if addr = 0 then None else Some addr)"

definition get_givtbl :: "'v ruby_upcalls \<Rightarrow> ruby_binding \<Rightarrow> 'v \<Rightarrow> objref \<Rightarrow> address res" where
  "get_givtbl up b v ob =
     (case get_original_givtbl up v ob of
        Some p \<Rightarrow> Inr p
      | None \<Rightarrow>
          bind_res (lock_unwrap (moved_givtbl b)) (\<lambda>moved.
          case moved ob of
            Some e \<Rightarrow> Inr (gen_ivtbl e)
          | None \<Rightarrow> Inl (Panic ''The givtbl of object is not found'')))"

lemma get_original_givtbl_contract:
  "givtbl_contract up tbl \<Longrightarrow> get_original_givtbl up v ob = tbl v ob"
  by (auto simp: givtbl_contract_def get_original_givtbl_def Let_def split: option.split)

section \<open>Bulk memory operations\<close>

definition disjoint_regions :: "address \<Rightarrow> address \<Rightarrow> usize \<Rightarrow> bool" where
  "disjoint_regions a b n \<longleftrightarrow> n \<le> a - b \<and> n \<le> b - a"

definition in_region :: "address \<Rightarrow> usize \<Rightarrow> address \<Rightarrow> bool" where
  "in_region a n x \<longleftrightarrow> x - a < n"

definition copy_nonoverlapping :: "address \<Rightarrow> address \<Rightarrow> usize \<Rightarrow> memory \<Rightarrow> memory res" where
  "copy_nonoverlapping src dst n m =
     (if disjoint_regions src dst n
      then Inr (\<lambda>x. if in_region dst n x then m (src + (x - dst)) else m x)
      else Inl (UB ''copy_nonoverlapping: overlapping regions''))"

definition write_bytes :: "address \<Rightarrow> byte \<Rightarrow> usize \<Rightarrow> memory \<Rightarrow> memory" where
  "write_bytes dst val n m = (\<lambda>x. if in_region dst n x then val else m x)"

lemma word_window:
  fixes n d k :: usize
  assumes "n \<le> d" "n \<le> 0 - d" "k < n"
  shows "\<not> k - d < n"
proof -
  have wrap: "uint (a - b) = uint a - uint b + 2 ^ 64" if "uint a < uint b" for a b :: usize
  proof -
    have "uint (a - b) = (uint a - uint b + 2 ^ 64) mod 2 ^ 64"
      by (simp add: uint_word_ariths)
    moreover have "uint b < 2 ^ 64"
      using uint_bounded [of b] by simp
    then have "0 \<le> uint a - uint b + 2 ^ 64"
      using uint_nonnegative [of a] by linarith
    then have "(uint a - uint b + 2 ^ 64) mod 2 ^ 64 = uint a - uint b + 2 ^ 64"
      using that by (intro mod_pos_pos_trivial) simp_all
    ultimately show ?thesis by (simp only:)
  qed
  have k: "uint k < uint d"
    using assms(1,3) by (simp add: word_le_def word_less_def)
  then have "uint (0 :: usize) < uint d"
    using uint_nonnegative [of k] by (metis le_less_trans unsigned_0)
  then have "uint n \<le> 2 ^ 64 - uint d"
    using assms(2) wrap [of 0 d] by (simp add: word_le_def)
  then show ?thesis
    using wrap [OF k] uint_nonnegative [of k] unfolding word_less_def by linarith
qed

lemma disjoint_offsets:
  assumes "disjoint_regions a b n" and "in_region a n x"
  shows "\<not> in_region b n x"
  using word_window [of n "b - a" "x - a"] assms
  by (simp add: disjoint_regions_def in_region_def)

lemma in_region_offset: "in_region a n (a + k) \<longleftrightarrow> k < n"
  by (simp add: in_region_def)

text \<open>Every address of a region is an offset into it.\<close>

lemma in_regionE:
  assumes "in_region a n x"
  obtains k where "x = a + k" "k < n"
  using assms by (metis in_region_def add.commute diff_add_cancel)

section \<open>copy\<close>

text \<open>
  The state \<open>copy\<close> changes: memory, the copy context of the worker (of type \<open>'c\<close>, owned by mmtk-core)
  and the binding.
\<close>

record 'c copy_state =
  cs_mem :: memory
  cs_ctx :: 'c
  cs_binding :: ruby_binding

record ('c, 'sem) copy_context =
  cc_alloc_copy :: "objref \<Rightarrow> usize \<Rightarrow> usize \<Rightarrow> usize \<Rightarrow> 'sem \<Rightarrow> 'c \<Rightarrow> address \<times> 'c"
  cc_post_copy :: "objref \<Rightarrow> usize \<Rightarrow> 'sem \<Rightarrow> 'c \<Rightarrow> 'c"

definition record_moved_givtbl :: "objref \<Rightarrow> objref \<Rightarrow> address \<Rightarrow> ruby_binding \<Rightarrow> ruby_binding res" where
  "record_moved_givtbl from_ob to_ob givtbl b =
     bind_res (lock_unwrap (moved_givtbl b)) (\<lambda>moved.
     Inr (b\<lparr>moved_givtbl := (moved_givtbl b)\<lparr>mutex_data :=
       moved(to_ob \<mapsto> \<lparr>old_objref = from_ob, gen_ivtbl = givtbl\<rparr>)\<rparr>\<rparr>))"

definition object_copy ::
  "build \<Rightarrow> 'v ruby_upcalls \<Rightarrow> usize \<Rightarrow> ('c, 'sem) copy_context \<Rightarrow> 'v \<Rightarrow> objref \<Rightarrow> 'sem \<Rightarrow>
   'c copy_state \<Rightarrow> (objref \<times> 'c copy_state) res" where
  "object_copy cfg up sfx cc v from_ob sem s =
     (let from_acc = from_objref from_ob in
      bind_res (if has_exivar_flag (cs_mem s) from_acc
                then (case get_original_givtbl up v from_ob of
                        None \<Rightarrow> Inl (Panic ''Object has FL_EXIVAR but no givtbl.'')
                      | Some p \<Rightarrow> Inr (Some p))
                else Inr None) (\<lambda>maybe_givtbl.
      let from_start = obj_start from_acc in
      bind_res (object_size cfg sfx (cs_mem s) from_acc) (\<lambda>osize.
      let (to_start, ctx1) = cc_alloc_copy cc from_ob osize MIN_OBJ_ALIGN 0 sem (cs_ctx s) in
      bind_res (debug_assert cfg (to_start \<noteq> 0) ''!to_start.is_zero()'') (\<lambda>_.
      let to_payload = to_start + OBJREF_OFFSET in
      bind_res (copy_nonoverlapping from_start to_start osize (cs_mem s)) (\<lambda>m1.
      let to_obj = to_payload;
          ctx2 = cc_post_copy cc to_obj osize sem ctx1;
          m2 = (if clear_old_copy cfg then write_bytes from_start 0 osize m1 else m1) in
      bind_res (case maybe_givtbl of
                  None \<Rightarrow> Inr (cs_binding s)
                | Some givtbl \<Rightarrow> record_moved_givtbl from_ob to_obj givtbl (cs_binding s)) (\<lambda>b.
      Inr (to_obj, s\<lparr>cs_mem := m2, cs_ctx := ctx2, cs_binding := b\<rparr>)))))))"

section \<open>What copy preserves\<close>

lemma load_usize_region_cong:
  assumes "\<And>i. i < n \<Longrightarrow> m' (a' + i) = m (a + i)" and "8 \<le> n"
  shows "load_usize m' a' = load_usize m a"
proof (rule load_usize_cong)
  fix i :: nat assume "i < 8"
  then have "(of_nat i :: usize) < 8"
    by (simp add: word_less_nat_alt usize_simps)
  then have "(of_nat i :: usize) < n"
    using assms(2) by (rule order.strict_trans2)
  then show "m' (a' + of_nat i) = m (a + of_nat i)"
    by (rule assms(1))
qed

text \<open>The bytes of a region, found at another place of another memory.\<close>

definition same_bytes :: "address \<Rightarrow> address \<Rightarrow> usize \<Rightarrow> memory \<Rightarrow> memory \<Rightarrow> bool" where
  "same_bytes src dst n m m' \<longleftrightarrow> (\<forall>i < n. m' (dst + i) = m (src + i))"

text \<open>
  Memory after a copy without clearing, at both ends of the copied region and elsewhere.
\<close>

definition copied :: "address \<Rightarrow> address \<Rightarrow> usize \<Rightarrow> memory \<Rightarrow> memory \<Rightarrow> bool" where
  "copied src dst n m m' \<longleftrightarrow>
     same_bytes src dst n m m' \<and>
     (\<forall>x. \<not> in_region dst n x \<longrightarrow> \<not> in_region src n x \<longrightarrow> m' x = m x)"

lemma copy_nonoverlapping_copied:
  "copy_nonoverlapping src dst n m = Inr m' \<Longrightarrow>
   copied src dst n m m' \<and> (\<forall>x. in_region src n x \<longrightarrow> m' x = m x)"
proof -
  assume c: "copy_nonoverlapping src dst n m = Inr m'"
  then have d: "disjoint_regions src dst n"
    and m': "m' = (\<lambda>x. if in_region dst n x then m (src + (x - dst)) else m x)"
    by (auto simp: copy_nonoverlapping_def split: if_splits)
  have "\<not> in_region dst n x" if x: "in_region src n x" for x
    using disjoint_offsets [OF d x] .
  then show ?thesis
    by (auto simp: copied_def same_bytes_def m' in_region_offset)
qed

text \<open>
  The circumstances in which mmtk-core calls \<open>copy\<close>: the size of the object is readable, the new
  region is not null and apart from the old one, and a flagged object has an ivar table.
\<close>

definition copy_ready ::
  "build \<Rightarrow> 'v ruby_upcalls \<Rightarrow> usize \<Rightarrow> ('c, 'sem) copy_context \<Rightarrow> 'v \<Rightarrow> objref \<Rightarrow> 'sem \<Rightarrow>
   'c copy_state \<Rightarrow> usize \<Rightarrow> address \<Rightarrow> bool" where
  "copy_ready cfg up sfx cc v from_ob sem s n to_start \<longleftrightarrow>
     object_size cfg sfx (cs_mem s) (from_objref from_ob) = Inr n \<and>
     fst (cc_alloc_copy cc from_ob n MIN_OBJ_ALIGN 0 sem (cs_ctx s)) = to_start \<and> to_start \<noteq> 0 \<and>
     disjoint_regions (from_ob - OBJREF_OFFSET) to_start n \<and>
     \<not> mutex_poisoned (moved_givtbl (cs_binding s)) \<and>
     (has_exivar_flag (cs_mem s) (from_objref from_ob) \<longrightarrow> get_original_givtbl up v from_ob \<noteq> None)"

text \<open>What the binding knows after the copy: a move is recorded exactly for a flagged object.\<close>

definition binding_after_copy ::
  "'v ruby_upcalls \<Rightarrow> 'v \<Rightarrow> objref \<Rightarrow> objref \<Rightarrow> memory \<Rightarrow> ruby_binding \<Rightarrow> ruby_binding" where
  "binding_after_copy up v from_ob to_ob m b =
     (if has_exivar_flag m (from_objref from_ob)
      then b\<lparr>moved_givtbl := (moved_givtbl b)\<lparr>mutex_data := (mutex_data (moved_givtbl b))
             (to_ob \<mapsto> \<lparr>old_objref = from_ob,
                        gen_ivtbl = the (get_original_givtbl up v from_ob)\<rparr>)\<rparr>\<rparr>
      else b)"

lemma obj_start_from_objref [simp]: "obj_start (from_objref ob) = ob - OBJREF_OFFSET"
  by (simp add: obj_start_def from_objref_def prefix_size_def)

lemma object_copy_runs:
  assumes r: "copy_ready cfg up sfx cc v from_ob sem s n to_start"
  obtains s' where "object_copy cfg up sfx cc v from_ob sem s = Inr (to_start + OBJREF_OFFSET, s')"
    "copied (from_ob - OBJREF_OFFSET) to_start n (cs_mem s) (cs_mem s')"
    "\<forall>x. in_region (from_ob - OBJREF_OFFSET) n x \<longrightarrow>
       cs_mem s' x = (if clear_old_copy cfg then 0 else cs_mem s x)"
    "cs_binding s' = binding_after_copy up v from_ob (to_start + OBJREF_OFFSET) (cs_mem s) (cs_binding s)"
    "cs_ctx s' = cc_post_copy cc (to_start + OBJREF_OFFSET) n sem
       (snd (cc_alloc_copy cc from_ob n MIN_OBJ_ALIGN 0 sem (cs_ctx s)))"
proof -
  let ?src = "from_ob - OBJREF_OFFSET"
  obtain ctx1 where alloc: "cc_alloc_copy cc from_ob n MIN_OBJ_ALIGN 0 sem (cs_ctx s) = (to_start, ctx1)"
    using r by (cases "cc_alloc_copy cc from_ob n MIN_OBJ_ALIGN 0 sem (cs_ctx s)")
      (auto simp: copy_ready_def)
  have d: "disjoint_regions ?src to_start n"
    using r by (simp add: copy_ready_def)
  then obtain m1 where m1: "copy_nonoverlapping ?src to_start n (cs_mem s) = Inr m1"
    by (simp add: copy_nonoverlapping_def)
  let ?m2 = "if clear_old_copy cfg then write_bytes ?src 0 n m1 else m1"
  let ?b = "binding_after_copy up v from_ob (to_start + OBJREF_OFFSET) (cs_mem s) (cs_binding s)"
  let ?s = "s\<lparr>cs_mem := ?m2,
    cs_ctx := cc_post_copy cc (to_start + OBJREF_OFFSET) n sem ctx1, cs_binding := ?b\<rparr>"
  have "object_copy cfg up sfx cc v from_ob sem s = Inr (to_start + OBJREF_OFFSET, ?s)"
    using r alloc m1
    by (auto simp: object_copy_def copy_ready_def Let_def record_moved_givtbl_def lock_unwrap_def
        binding_after_copy_def)
  moreover have "\<not> in_region ?src n (to_start + i)" if "i < n" for i
    using that disjoint_offsets [OF d] in_region_offset by blast
  then have "copied ?src to_start n (cs_mem s) ?m2"
    using copy_nonoverlapping_copied [OF m1] by (auto simp: copied_def same_bytes_def write_bytes_def)
  moreover have "\<forall>x. in_region ?src n x \<longrightarrow> ?m2 x = (if clear_old_copy cfg then 0 else cs_mem s x)"
    using copy_nonoverlapping_copied [OF m1] by (auto simp: write_bytes_def)
  ultimately show thesis
    by (intro that [of ?s]) (simp_all add: alloc)
qed

lemma same_bytes_load:
  assumes c: "same_bytes src dst n m m'" and k: "unat k + 8 \<le> unat n"
  shows "load_usize m' (dst + k) = load_usize m (src + k)"
proof (rule load_usize_cong)
  fix i :: nat assume i: "i < 8"
  then have "unat (of_nat i :: usize) = i"
    by (intro unat_of_nat_usize) simp
  then have "unat (k + of_nat i) = unat k + i"
    using i k unat_usize_lt [of n] by (simp add: usize_simps)
  then have "k + of_nat i < n"
    using i k by (simp add: word_less_nat_alt)
  then show "m' (dst + k + of_nat i) = m (src + k + of_nat i)"
    using c unfolding same_bytes_def by (simp add: add.assoc)
qed

lemma same_bytes_object:
  assumes c: "same_bytes (from_ob - OBJREF_OFFSET) to_start n m m'"
    and size: "object_size cfg sfx m (from_objref from_ob) = Inr n" and sfx: "unat sfx < 2 ^ 63"
    and payload: "payload_size cfg m (from_objref from_ob) = Inr p" "8 \<le> unat p"
  shows "payload_size cfg m' (from_objref (to_start + OBJREF_OFFSET)) = Inr p"
    and "object_size cfg sfx m' (from_objref (to_start + OBJREF_OFFSET)) = Inr n"
    and "load_flags m' (from_objref (to_start + OBJREF_OFFSET)) = load_flags m (from_objref from_ob)"
proof -
  have n: "unat n = 8 + unat p + unat sfx"
    using object_size_fits [OF payload(1) sfx] size by auto
  have "load_usize m' (to_start + 0) = load_usize m (from_ob - OBJREF_OFFSET + 0)"
    using n by (intro same_bytes_load [OF c]) simp
  then have "payload_size cfg m' (from_objref (to_start + OBJREF_OFFSET)) =
      payload_size cfg m (from_objref from_ob)"
    by (simp add: payload_size_cases hidden_header_of_def)
  then show "payload_size cfg m' (from_objref (to_start + OBJREF_OFFSET)) = Inr p"
    "object_size cfg sfx m' (from_objref (to_start + OBJREF_OFFSET)) = Inr n"
    using size payload(1) by (simp_all add: object_size_def)
  have "load_usize m' (to_start + 8) = load_usize m (from_ob - OBJREF_OFFSET + 8)"
    using n payload(2) by (intro same_bytes_load [OF c]) simp
  then show "load_flags m' (from_objref (to_start + OBJREF_OFFSET)) = load_flags m (from_objref from_ob)"
    by (simp add: load_flags_def from_objref_def OBJREF_OFFSET_def)
qed

section \<open>The record of moves\<close>

text \<open>A copy of a flagged object that was not copied before keeps the record fit for the drain.\<close>

lemma moves_ok_insert:
  assumes ok: "moves_ok t moved" and t: "t from_ob = Some p"
    and fresh: "moved to_ob = None" "moved from_ob = None" "to_ob \<noteq> from_ob"
    and once: "\<And>new e. moved new = Some e \<Longrightarrow> old_objref e \<noteq> from_ob \<and> old_objref e \<noteq> to_ob"
  shows "moves_ok t (moved(to_ob \<mapsto> \<lparr>old_objref = from_ob, gen_ivtbl = p\<rparr>))"
  using assms unfolding moves_ok_def by auto

section \<open>Properties\<close>

text \<open>
  C28. Copying an object: the result is a reference \<open>OBJREF_OFFSET\<close> into the new region; hidden header,
  payload and suffix arrive byte for byte, so size and flags of the new object are the old ones;
  memory outside the two regions is untouched, and the old region is kept, or cleared in a build with
  \<open>clear_old_copy\<close>.
\<close>

theorem copy_preserves_object:
  assumes r: "copy_ready cfg up sfx cc v from_ob sem s n to_start"
    and p: "payload_size cfg (cs_mem s) (from_objref from_ob) = Inr p" "8 \<le> unat p" "unat sfx < 2 ^ 63"
  shows "\<exists>s'. object_copy cfg up sfx cc v from_ob sem s = Inr (to_start + OBJREF_OFFSET, s') \<and>
    unat n = 8 + unat p + unat sfx \<and>
    (\<forall>i < n. cs_mem s' (ref_to_object_start (to_start + OBJREF_OFFSET) + i) =
       cs_mem s (ref_to_object_start from_ob + i)) \<and>
    (\<forall>x. \<not> in_region to_start n x \<and> \<not> in_region (ref_to_object_start from_ob) n x \<longrightarrow>
       cs_mem s' x = cs_mem s x) \<and>
    (\<forall>x. in_region (ref_to_object_start from_ob) n x \<longrightarrow>
       cs_mem s' x = (if clear_old_copy cfg then 0 else cs_mem s x)) \<and>
    get_current_size cfg sfx (cs_mem s') (to_start + OBJREF_OFFSET) =
      get_current_size cfg sfx (cs_mem s) from_ob \<and>
    load_flags (cs_mem s') (from_objref (to_start + OBJREF_OFFSET)) =
      load_flags (cs_mem s) (from_objref from_ob)"
proof -
  obtain s' where s': "object_copy cfg up sfx cc v from_ob sem s = Inr (to_start + OBJREF_OFFSET, s')"
    "copied (from_ob - OBJREF_OFFSET) to_start n (cs_mem s) (cs_mem s')"
    "\<forall>x. in_region (from_ob - OBJREF_OFFSET) n x \<longrightarrow>
       cs_mem s' x = (if clear_old_copy cfg then 0 else cs_mem s x)"
    using r by (rule object_copy_runs)
  have size: "object_size cfg sfx (cs_mem s) (from_objref from_ob) = Inr n"
    using r by (simp add: copy_ready_def)
  then have "unat n = 8 + unat p + unat sfx"
    using object_size_fits [OF p(1,3)] by auto
  moreover have b: "same_bytes (from_ob - OBJREF_OFFSET) to_start n (cs_mem s) (cs_mem s')"
    using s'(2) by (simp add: copied_def)
  ultimately show ?thesis
    using s' same_bytes_object [OF b size p(3,1,2)] size
    by (auto simp: copied_def same_bytes_def ref_to_object_start_def get_current_size_def)
qed

text \<open>
  An object of 40 bytes at 1000 with \<open>FL_EXIVAR\<close> set, in a heap that is zero elsewhere; the new copy is
  allocated at 2000.
\<close>

definition example_memory :: memory where
  "example_memory a = (if a = 992 then 40 else if a = 1001 then 4 else 0)"

definition example_copy_context :: "(unit, unit) copy_context" where
  "example_copy_context = \<lparr>cc_alloc_copy = (\<lambda>_ _ _ _ _ c. (2000, c)), cc_post_copy = (\<lambda>_ _ _ c. c)\<rparr>"

definition example_copy_state :: "unit copy_state" where
  "example_copy_state = \<lparr>cs_mem = example_memory, cs_ctx = (), cs_binding = example_binding\<rparr>"

lemma example_loads:
  "load_usize example_memory 992 = 40" "load_usize example_memory 1000 = 1024"
  by (simp_all add: load_usize_def load_bytes_def example_memory_def upt_rec)

lemma example_payload: "payload_size debug_build example_memory (from_objref 1000) = Inr 40"
  by (simp add: payload_size_cases hidden_header_of_def OBJREF_OFFSET_def example_loads is_sane_def
      HIDDEN_SIZE_MASK_def)

lemma example_exivar: "has_exivar_flag example_memory (from_objref 1000)"
  by (simp add: has_exivar_flag_def load_flags_def from_objref_def example_loads RUBY_FL_EXIVAR_def)

lemma example_copy_ready:
  "copy_ready debug_build ivar_upcalls 8 example_copy_context [1000 \<mapsto> 512] 1000 () example_copy_state
     56 2000"
  by (simp add: copy_ready_def example_copy_state_def object_size_def example_payload prefix_size_def
      OBJREF_OFFSET_def usize_add_def example_copy_context_def disjoint_regions_def mutex_new_def
      example_exivar get_original_givtbl_def ivar_upcalls_def)

theorem copy_preserves_object_witness:
  "\<exists>s'. object_copy debug_build ivar_upcalls 8 example_copy_context [1000 \<mapsto> 512] 1000 ()
      example_copy_state = Inr (2008, s') \<and>
    get_current_size debug_build 8 (cs_mem s') 2008 = Inr 56 \<and>
    load_flags (cs_mem s') (from_objref 2008) = 1024"
proof -
  have m: "cs_mem example_copy_state = example_memory"
    by (simp add: example_copy_state_def)
  have "get_current_size debug_build 8 example_memory 1000 = Inr 56"
    using example_copy_ready by (simp add: copy_ready_def get_current_size_def m)
  moreover have "load_flags example_memory (from_objref 1000) = 1024"
    by (simp add: load_flags_def from_objref_def example_loads)
  ultimately show ?thesis
    using copy_preserves_object [OF example_copy_ready, unfolded m, OF example_payload]
    by (auto simp: OBJREF_OFFSET_def)
qed

text \<open>
  C25. Generic ivars follow a copied object: right after the copy the lookup during GC finds the ivar
  table of the old object under the new reference, and the drain after tracing has it in the table of
  the VM under the new reference only.
\<close>

theorem copied_object_keeps_ivars:
  assumes c: "givtbl_contract up tbl"
    and r: "copy_ready cfg up sfx cc v from_ob sem s n to_start"
    and flag: "has_exivar_flag (cs_mem s) (from_objref from_ob)"
    and free: "mutex_free (moved_givtbl (cs_binding s))"
    and ok: "moves_ok (tbl v) (mutex_data (moved_givtbl (cs_binding s)))"
    and fresh: "tbl v (to_start + OBJREF_OFFSET) = None"
      "mutex_data (moved_givtbl (cs_binding s)) (to_start + OBJREF_OFFSET) = None"
      "mutex_data (moved_givtbl (cs_binding s)) from_ob = None"
    and once: "\<And>new e. mutex_data (moved_givtbl (cs_binding s)) new = Some e \<Longrightarrow> old_objref e \<noteq> from_ob"
    and ord: "hash_map_order ord"
  shows "\<exists>s' p. object_copy cfg up sfx cc v from_ob sem s = Inr (to_start + OBJREF_OFFSET, s') \<and>
    tbl v from_ob = Some p \<and>
    get_givtbl up (cs_binding s') v (to_start + OBJREF_OFFSET) = Inr p \<and>
    tbl (move_givtbls up (ord (mutex_data (moved_givtbl (cs_binding s')))) v)
      (to_start + OBJREF_OFFSET) = Some p \<and>
    tbl (move_givtbls up (ord (mutex_data (moved_givtbl (cs_binding s')))) v) from_ob = None"
proof -
  let ?to = "to_start + OBJREF_OFFSET" and ?moved = "mutex_data (moved_givtbl (cs_binding s))"
  note get = get_original_givtbl_contract [OF c]
  obtain p where p: "tbl v from_ob = Some p"
    using r flag by (auto simp: copy_ready_def get)
  obtain s' where s': "object_copy cfg up sfx cc v from_ob sem s = Inr (?to, s')"
    "cs_binding s' = binding_after_copy up v from_ob ?to (cs_mem s) (cs_binding s)"
    using r by (rule object_copy_runs)
  have b: "mutex_data (moved_givtbl (cs_binding s')) = ?moved(?to \<mapsto> \<lparr>old_objref = from_ob, gen_ivtbl = p\<rparr>)"
    "mutex_free (moved_givtbl (cs_binding s'))"
    using s'(2) flag p free by (simp_all add: binding_after_copy_def get)
  have ne: "?to \<noteq> from_ob"
    using p fresh(1) by auto
  have to: "old_objref e \<noteq> ?to" if "?moved new = Some e" for new e
    using ok fresh(1) that unfolding moves_ok_def by (metis option.distinct(1))
  have "moves_ok (tbl v) (mutex_data (moved_givtbl (cs_binding s')))"
    unfolding b by (rule moves_ok_insert [OF ok p fresh(2,3) ne]) (use once to in auto)
  from move_givtbls_rekeyed [OF c this ord] have
    "tbl (move_givtbls up (ord (mutex_data (moved_givtbl (cs_binding s')))) v) =
     rekeyed (tbl v) (?moved(?to \<mapsto> \<lparr>old_objref = from_ob, gen_ivtbl = p\<rparr>))"
    by (simp only: b)
  moreover have "rekeyed (tbl v) (?moved(?to \<mapsto> \<lparr>old_objref = from_ob, gen_ivtbl = p\<rparr>)) from_ob = None"
    using ne fresh(3) by (auto simp: rekeyed_def)
  ultimately show ?thesis
    using s'(1) p b fresh(1) by (intro exI [of _ s'] exI [of _ p]) (simp add: get_givtbl_def get rekeyed_def)
qed

theorem copied_object_keeps_ivars_witness:
  "\<exists>s'. object_copy debug_build ivar_upcalls 8 example_copy_context [1000 \<mapsto> 512] 1000 ()
      example_copy_state = Inr (2008, s') \<and>
    get_givtbl ivar_upcalls (cs_binding s') [1000 \<mapsto> 512] 2008 = Inr 512"
proof -
  have b: "cs_mem example_copy_state = example_memory"
    "mutex_free (moved_givtbl (cs_binding example_copy_state))"
    "mutex_data (moved_givtbl (cs_binding example_copy_state)) = Map.empty"
    by (simp_all add: example_copy_state_def)
  have "moves_ok t Map.empty" for t
    by (simp add: moves_ok_def)
  moreover have "ivar_table [1000 \<mapsto> 512] 1000 = Some 512" "ivar_table [1000 \<mapsto> 512] 2008 = None"
    by (simp_all add: ivar_table_def)
  ultimately show ?thesis
    using copied_object_keeps_ivars [OF ivar_upcalls_contract example_copy_ready _ b(2) _ _ _ _ _
        sorted_map_order]
    by (auto simp: b(1,3) example_exivar OBJREF_OFFSET_def)
qed

text \<open>
  A flagged object that has no ivar table is a panic before anything is allocated or copied, and the
  lookup during GC panics exactly when neither the VM's table nor the record of moves has the object.
\<close>

theorem missing_ivars_panic:
  assumes c: "givtbl_contract up tbl" and "\<not> mutex_poisoned (moved_givtbl (cs_binding s))"
  shows "(has_exivar_flag (cs_mem s) (from_objref ob) \<and> tbl v ob = None \<longrightarrow>
      object_copy cfg up sfx cc v ob sem s = Inl (Panic ''Object has FL_EXIVAR but no givtbl.'')) \<and>
    ((\<exists>e. get_givtbl up (cs_binding s) v ob = Inl e) \<longleftrightarrow>
      tbl v ob = None \<and> mutex_data (moved_givtbl (cs_binding s)) ob = None)"
  using assms(2)
  by (auto simp: object_copy_def get_givtbl_def get_original_givtbl_contract [OF c] lock_unwrap_def
      Let_def split: option.splits)

theorem missing_ivars_panic_witness:
  "object_copy debug_build ivar_upcalls 8 example_copy_context Map.empty 1000 () example_copy_state =
     Inl (Panic ''Object has FL_EXIVAR but no givtbl.'')"
proof -
  have "\<not> mutex_poisoned (moved_givtbl (cs_binding example_copy_state))"
    "cs_mem example_copy_state = example_memory" "ivar_table Map.empty 1000 = None"
    by (simp_all add: example_copy_state_def mutex_new_def ivar_table_def)
  with missing_ivars_panic [OF ivar_upcalls_contract this(1), of 1000 Map.empty debug_build 8
      example_copy_context "()"] example_exivar show ?thesis
    by simp
qed

end
