(* ===== verification/Scanning.thy ===== *)
theory Scanning
  imports Ppp Weak_Proc
begin

text \<open>
  \<open>mmtk/src/scanning.rs\<close>: tracing the edges of an object, collecting roots into vectors of at most
  4096 for the work factory, the packets that scan the global roots, the write-barrier-unprotected
  objects in a nursery GC, and the entry point of weak processing.
\<close>

section \<open>Constant answers and unsupported operations\<close>

definition UNIQUE_OBJECT_ENQUEUING :: bool where
  "UNIQUE_OBJECT_ENQUEUING = True"

definition support_slot_enqueuing :: "vm_worker_thread \<Rightarrow> objref \<Rightarrow> bool" where
  "support_slot_enqueuing tls ob = False"

definition scan_object :: "vm_worker_thread \<Rightarrow> objref \<Rightarrow> unit res" where
  "scan_object tls ob =
     Inl (Unreachable ''We have not enabled slot enqueuing for any types, yet.'')"

definition notify_initial_thread_scan_complete :: "bool \<Rightarrow> vm_worker_thread \<Rightarrow> ('m, 'v) world \<Rightarrow> ('m, 'v) world" where
  "notify_initial_thread_scan_complete partial_scan tls w = w"

definition supports_return_barrier :: bool where
  "supports_return_barrier = False"

definition prepare_for_roots_re_scanning :: "unit res" where
  "prepare_for_roots_re_scanning = Inl Todo"

definition forward_weak_refs :: "unit res" where
  "forward_weak_refs = Inl (Panic ''We can't use MarkCompact in Ruby.'')"

section \<open>Tracing the edges of an object\<close>

definition edge_visitor :: "build \<Rightarrow> 'm mmtk_core \<Rightarrow> 'm visitor" where
  "edge_visitor cfg core target pin m =
     bind_res (extra_assert cfg (is_mmtk_object_safe core m target)
       ''Destination is not an MMTk object.'') (\<lambda>_. Inr (mc_trace_object core target m))"

definition scan_object_and_trace_edges ::
  "build \<Rightarrow> 'm mmtk_core \<Rightarrow> 'v ruby_upcalls \<Rightarrow> (address \<rightharpoonup> 'm gc_thread_tls) \<Rightarrow> vm_worker_thread \<Rightarrow>
   objref \<Rightarrow> ('m, 'v) world \<Rightarrow> ('m, 'v) world res" where
  "scan_object_and_trace_edges cfg core up tls_mem tls ob w =
     bind_res (extra_assert cfg (is_mmtk_object_safe core (w_core w) ob) ''Not an MMTk object'') (\<lambda>_.
     bind_res (from_vwt_check cfg tls_mem tls) (\<lambda>gc_tls.
     bind_res (run_with_closure cfg (object_closure gc_tls) (edge_visitor cfg core)
                (up_scan_object_ruby_style up ob (w_vm w)) (w_core w)) (\<lambda>(v, m).
     Inr (w\<lparr>w_vm := v, w_core := m\<rparr>))))"

section \<open>Collecting roots\<close>

definition OBJECT_BUFFER_SIZE :: nat where
  "OBJECT_BUFFER_SIZE = 4096"

text \<open>The buffer and what has been given to the factory so far.\<close>

type_synonym root_env = "objref list \<times> objref list list"

definition push_root :: "objref \<Rightarrow> root_env \<Rightarrow> root_env" where
  "push_root ob = (\<lambda>(buffer, made).
     let buffer' = buffer @ [ob]
     in if length buffer' \<ge> OBJECT_BUFFER_SIZE then ([], made @ [buffer']) else (buffer', made))"

definition root_visitor :: "build \<Rightarrow> 'm mmtk_core \<Rightarrow> 'm \<Rightarrow> root_env visitor" where
  "root_visitor cfg core m ob pin env =
     bind_res (extra_assert cfg (is_mmtk_object_safe core m ob)
       ''Root does not point to MMTk object.'') (\<lambda>_. Inr (ob, push_root ob env))"

definition flush_roots :: "root_env \<Rightarrow> objref list list" where
  "flush_roots = (\<lambda>(buffer, made). if buffer \<noteq> [] then made @ [buffer] else made)"

definition collect_object_roots_in ::
  "build \<Rightarrow> 'm mmtk_core \<Rightarrow> root_env gc_thread_tls \<Rightarrow> ('v \<Rightarrow> 'v vmcode) \<Rightarrow>
   ('m, 'v) world \<Rightarrow> ('m, 'v) world res" where
  "collect_object_roots_in cfg core gc_tls callback w =
     bind_res (run_with_closure cfg (object_closure gc_tls) (root_visitor cfg core (w_core w))
                (callback (w_vm w)) ([], w_root_work w)) (\<lambda>(v, env).
     Inr (w\<lparr>w_vm := v, w_root_work := flush_roots env\<rparr>))"

text \<open>The vectors made of a sequence of roots, and that the buffer is a collector of size 4096.\<close>

definition root_chunks :: "objref list \<Rightarrow> objref list list" where
  "root_chunks obs = flush_roots (fold push_root obs ([], []))"

lemma push_root_collector:
  assumes "collector_inv c" and "chunk_size c = 4096"
  shows "push_root ob (current_vec c, made @ vecs c) =
    (current_vec (collector_add ob c), made @ vecs (collector_add ob c))"
  using assms
  by (auto simp: push_root_def collector_add_def collector_flush_def collector_inv_def Let_def
      OBJECT_BUFFER_SIZE_def)

lemma fold_push_root_collector:
  assumes "collector_inv c" and "chunk_size c = 4096"
  shows "fold push_root obs (current_vec c, made @ vecs c) =
    (current_vec (collector_extend obs c), made @ vecs (collector_extend obs c))"
  using assms
proof (induction obs arbitrary: c)
  case Nil
  then show ?case by (simp add: collector_extend_def)
next
  case (Cons ob obs)
  have "fold push_root (ob # obs) (current_vec c, made @ vecs c) =
      fold push_root obs (current_vec (collector_add ob c), made @ vecs (collector_add ob c))"
    using push_root_collector [OF Cons.prems] by simp
  also have "\<dots> = (current_vec (collector_extend obs (collector_add ob c)),
      made @ vecs (collector_extend obs (collector_add ob c)))"
    using Cons.prems by (intro Cons.IH) (simp_all add: collector_add_inv)
  finally show ?case by (simp add: collector_extend_def)
qed

lemma fold_push_root:
  "flush_roots (fold push_root obs ([], made)) = made @ collect_chunks 4096 obs"
proof -
  have "fold push_root obs (current_vec (collector_new 4096), made @ vecs (collector_new 4096)) =
      (current_vec (collector_extend obs (collector_new 4096)),
       made @ vecs (collector_extend obs (collector_new 4096)))"
    by (rule fold_push_root_collector) (simp_all add: collector_new_inv, simp add: collector_new_def)
  then show ?thesis
    by (simp add: collector_new_def flush_roots_def collect_chunks_def collector_into_vecs_def
        collector_flush_def)
qed

interpretation root_chunks: full_chunker root_chunks OBJECT_BUFFER_SIZE
proof -
  have "root_chunks = collect_chunks 4096"
    by (rule ext) (simp add: root_chunks_def fold_push_root)
  moreover have "full_chunker (collect_chunks 4096 :: objref list \<Rightarrow> objref list list) 4096"
    using collect_chunks_full_chunker [of 4096] by simp
  ultimately show "full_chunker root_chunks OBJECT_BUFFER_SIZE"
    by (simp add: OBJECT_BUFFER_SIZE_def)
qed

lemma fold_push_root_chunks:
  "flush_roots (fold push_root obs ([], made)) = made @ root_chunks obs"
  using fold_push_root [of obs made] fold_push_root [of obs "[]"] by (simp add: root_chunks_def)

text \<open>
  What the callback reports as roots is handed to the factory, in order, after what was there; in a
  build with the extra assertions every root must be an MMTk object.
\<close>

definition roots_checked :: "build \<Rightarrow> 'm mmtk_core \<Rightarrow> 'm \<Rightarrow> 'r vmcode \<Rightarrow> bool" where
  "roots_checked cfg core m c \<longleftrightarrow>
     (debug_assertions cfg \<or> extra_assert_feature cfg \<longrightarrow>
        (\<forall>ob \<in> fst ` set (visits c). is_mmtk_object_safe core m ob))"

lemma fold_root_visits:
  "fold (\<lambda>(ob, pin). push_root ob) vs env = fold push_root (map fst vs) env"
  by (induction vs arbitrary: env) auto

lemma collect_object_roots_eq:
  assumes "object_closure gc_tls = object_closure_default"
    and "roots_checked cfg core (w_core w) (callback (w_vm w))"
  shows "collect_object_roots_in cfg core gc_tls callback w =
    Inr (w\<lparr>w_vm := vm_result (callback (w_vm w)),
           w_root_work := w_root_work w @ root_chunks (map fst (visits (callback (w_vm w))))\<rparr>)"
proof -
  have "run_with_closure cfg object_closure_default (root_visitor cfg core (w_core w))
      (callback (w_vm w)) ([], w_root_work w) =
    Inr (vm_result (callback (w_vm w)),
      fold (\<lambda>(ob, pin). push_root ob) (visits (callback (w_vm w))) ([], w_root_work w))"
    using assms(2)
    by (intro closure_host.run_identity)
      (force simp: root_visitor_def extra_assert_def assert_def roots_checked_def)
  then show ?thesis
    using assms(1)
    by (simp add: collect_object_roots_in_def fold_root_visits fold_push_root_chunks)
qed

lemma collect_object_roots_bad_root:
  assumes "object_closure gc_tls = object_closure_default"
    and "debug_assertions cfg \<or> extra_assert_feature cfg"
    and "callback (w_vm w) = VM_visit ob pin k" and "\<not> is_mmtk_object_safe core (w_core w) ob"
  shows "collect_object_roots_in cfg core gc_tls callback w =
    Inl (AssertFailed ''Root does not point to MMTk object.'')"
proof -
  have "root_visitor cfg core (w_core w) ob pin ([], w_root_work w) =
      Inl (AssertFailed ''Root does not point to MMTk object.'')"
    using assms(2,4) by (simp add: root_visitor_def extra_assert_def)
  then have "run_with_closure cfg object_closure_default (root_visitor cfg core (w_core w))
      (VM_visit ob pin k) ([], w_root_work w) =
    Inl (AssertFailed ''Root does not point to MMTk object.'')"
    by (rule closure_host.run_first_panic)
  then show ?thesis
    using assms(1,3) by (simp add: collect_object_roots_in_def)
qed

section \<open>Root scanning packets\<close>

definition scan_roots_in_mutator_thread ::
  "build \<Rightarrow> 'm mmtk_core \<Rightarrow> 'v ruby_upcalls \<Rightarrow> (address \<rightharpoonup> root_env gc_thread_tls) \<Rightarrow>
   vm_worker_thread \<Rightarrow> address \<Rightarrow> ('m, 'v) world \<Rightarrow> ('m, 'v) world res" where
  "scan_roots_in_mutator_thread cfg core up tls_mem tls mutator_tls w =
     bind_res (from_vwt_check cfg tls_mem tls) (\<lambda>gc_tls.
     collect_object_roots_in cfg core gc_tls (up_scan_roots_in_mutator_thread up mutator_tls tls) w)"

text \<open>The upcall of each packet that \<open>define_global_root_scanner!\<close> defines.\<close>

fun scan_roots :: "'v ruby_upcalls \<Rightarrow> gc_work \<Rightarrow> ('v \<Rightarrow> 'v vmcode) option" where
  "scan_roots up ScanVMRoots = Some (up_scan_vm_roots up)"
| "scan_roots up ScanEndProcRoots = Some (up_scan_end_proc_roots up)"
| "scan_roots up ScanGlobalTblRoots = Some (up_scan_global_tbl_roots up)"
| "scan_roots up ScanYjitRoots = Some (up_scan_yjit_roots up)"
| "scan_roots up ScanGlobalSymbolsRoots = Some (up_scan_global_symbols_roots up)"
| "scan_roots up ScanFinalizerTblRoots = Some (up_scan_finalizer_tbl_roots up)"
| "scan_roots up ScanObjToIdTblRoots = Some (up_scan_obj_to_id_tbl_roots up)"
| "scan_roots up ScanMiscRoots = Some (up_scan_misc_roots up)"
| "scan_roots up ScanFinalJobsRoots = Some (up_scan_final_jobs_roots up)"
| "scan_roots up _ = None"

definition global_root_scanners :: "gc_work list" where
  "global_root_scanners = [ScanVMRoots, ScanEndProcRoots, ScanGlobalTblRoots, ScanYjitRoots,
     ScanGlobalSymbolsRoots, ScanFinalizerTblRoots, ScanObjToIdTblRoots, ScanMiscRoots,
     ScanFinalJobsRoots]"

definition global_root_do_work ::
  "build \<Rightarrow> 'm mmtk_core \<Rightarrow> (address \<rightharpoonup> root_env gc_thread_tls) \<Rightarrow> vm_worker_thread \<Rightarrow>
   ('v \<Rightarrow> 'v vmcode) \<Rightarrow> ('m, 'v) world \<Rightarrow> ('m, 'v) world res" where
  "global_root_do_work cfg core tls_mem tls scan w =
     bind_res (from_vwt_check cfg tls_mem tls) (\<lambda>gc_tls.
     collect_object_roots_in cfg core gc_tls scan w)"

text \<open>The loop of \<open>ScanWbUnprotectedRoots\<close> under the closure: young parents are skipped.\<close>

fun wb_scan_body ::
  "'m mmtk_core \<Rightarrow> 'm \<Rightarrow> 'v ruby_upcalls \<Rightarrow> objref list \<Rightarrow> 'v \<Rightarrow> 'v vmcode" where
  "wb_scan_body core m up [] v = VM_done v"
| "wb_scan_body core m up (ob # obs) v =
     (if mc_is_reachable core ob m
      then vm_bind (up_scan_object_ruby_style up ob v) (wb_scan_body core m up obs)
      else wb_scan_body core m up obs v)"

definition scan_wb_unprotected_roots_do_work ::
  "build \<Rightarrow> 'm mmtk_core \<Rightarrow> 'v ruby_upcalls \<Rightarrow> (address \<rightharpoonup> root_env gc_thread_tls) \<Rightarrow>
   vm_worker_thread \<Rightarrow> objref list \<Rightarrow> ('m, 'v) world \<Rightarrow> ('m, 'v) world res" where
  "scan_wb_unprotected_roots_do_work cfg core up tls_mem tls objects w =
     bind_res (from_vwt_check cfg tls_mem tls) (\<lambda>gc_tls.
     collect_object_roots_in cfg core gc_tls (wb_scan_body core (w_core w) up objects) w)"

text \<open>The body is the code for the reachable parents only.\<close>

lemma wb_scan_body_filter:
  "wb_scan_body core m up obs v =
     wb_scan_body core m up (filter (\<lambda>ob. mc_is_reachable core ob m) obs) v"
  by (induction obs arbitrary: v) (auto intro!: arg_cong [where f = "vm_bind _"])

definition scan_vm_specific_roots ::
  "build \<Rightarrow> 'm mmtk_core \<Rightarrow> (objref set \<Rightarrow> objref list) \<Rightarrow> (address \<rightharpoonup> root_env gc_thread_tls) \<Rightarrow>
   vm_worker_thread \<Rightarrow> ('m, 'v) world \<Rightarrow> ('m, 'v) world res" where
  "scan_vm_specific_roots cfg core ord tls_mem tls w =
     bind_res (from_vwt_check cfg tls_mem tls) (\<lambda>gc_tls.
     bind_res (tls_worker gc_tls) (\<lambda>_.
     let w1 = submit Prepare global_root_scanners w
     in if mc_generational_nursery core (w_core w1) \<noteq> Some True then Inr w1
        else
          bind_res (try_lock_expect ''Someone is holding the lock of wb_unprotected_objects?''
                     (wb_unprotected_objects (w_binding w1))) (\<lambda>objects.
          if objects = {} then Inr w1
          else Inr (submit Prepare
            (map ScanWbUnprotectedRoots (collect_chunks 128 (ord objects))) w1))))"

section \<open>Weak processing\<close>

definition process_weak_refs ::
  "build \<Rightarrow> 'm mmtk_core \<Rightarrow> 'v ruby_upcalls \<Rightarrow> ('m, 'v) world \<Rightarrow> (bool \<times> ('m, 'v) world) res" where
  "process_weak_refs cfg core up w =
     bind_res (process_weak_stuff cfg core up w) (\<lambda>w1.
     bind_res (cleanup_ppps cfg core w1) (\<lambda>w2. Inr (False, w2)))"

section \<open>Properties\<close>

text \<open>
  C31. A root scanning packet hands every object its upcall reports to the work factory, in the order
  reported and once per report, in vectors of 4096 of which only the last may be shorter and none is
  empty; the VM state becomes what the upcall returns.
\<close>

theorem root_scanner_delivers_roots:
  assumes "scan_roots up packet = Some scan" and "idle_gc_thread tls_mem tls"
    and "roots_checked cfg core (w_core w) (scan (w_vm w))"
  shows "packet \<in> set global_root_scanners \<and>
    global_root_do_work cfg core tls_mem tls scan w =
      Inr (w\<lparr>w_vm := vm_result (scan (w_vm w)),
             w_root_work := w_root_work w @ slices 4096 (map fst (visits (scan (w_vm w))))\<rparr>)"
proof
  show "packet \<in> set global_root_scanners"
    using assms(1) by (cases packet) (simp_all add: global_root_scanners_def)
  obtain gc_tls where "from_vwt_check cfg tls_mem tls = Inr gc_tls"
    "object_closure gc_tls = object_closure_default"
    using assms(2) by (rule idle_from_vwt_check)
  with collect_object_roots_eq [where gc_tls = gc_tls and callback = scan, OF _ assms(3)] show "global_root_do_work cfg core tls_mem tls scan w =
      Inr (w\<lparr>w_vm := vm_result (scan (w_vm w)),
             w_root_work := w_root_work w @ slices 4096 (map fst (visits (scan (w_vm w))))\<rparr>)"
    by (simp add: global_root_do_work_def root_chunks.chunk_eq_slices OBJECT_BUFFER_SIZE_def)
qed

definition rooted_upcalls :: "unit ruby_upcalls" where
  "rooted_upcalls = null_upcalls\<lparr>
     up_scan_vm_roots := (\<lambda>v. VM_visit 16 False (\<lambda>_. VM_visit 48 True (\<lambda>_. VM_done v)))\<rparr>"

theorem root_scanner_delivers_roots_witness:
  "\<exists>w'. global_root_do_work debug_build example_core example_tls 4096 (up_scan_vm_roots rooted_upcalls)
      (example_world {} () example_binding) = Inr w' \<and> w_root_work w' = [[16, 48]]"
proof -
  let ?w = "example_world ({} :: objref set) () example_binding"
  have "scan_roots rooted_upcalls ScanVMRoots = Some (up_scan_vm_roots rooted_upcalls)"
    by simp
  moreover have "roots_checked debug_build example_core (w_core ?w) (up_scan_vm_roots rooted_upcalls (w_vm ?w))"
    by (simp add: roots_checked_def rooted_upcalls_def is_mmtk_object_safe_def example_core_def
        is_aligned_to_def)
  ultimately show ?thesis
    using root_scanner_delivers_roots [OF _ example_tls_idle, of rooted_upcalls ScanVMRoots
        "up_scan_vm_roots rooted_upcalls" debug_build example_core ?w]
    by (simp add: rooted_upcalls_def slices_step)
qed

text \<open>
  In a build with the extra assertions a root that is not an MMTk object is a panic at the first
  report, and no vector is made.
\<close>

theorem bad_root_panics:
  assumes "debug_assertions cfg \<or> extra_assert_feature cfg" and "idle_gc_thread tls_mem tls"
    and "scan (w_vm w) = VM_visit ob pin k" and "\<not> is_mmtk_object_safe core (w_core w) ob"
  shows "global_root_do_work cfg core tls_mem tls scan w =
    Inl (AssertFailed ''Root does not point to MMTk object.'')"
proof -
  obtain gc_tls where "from_vwt_check cfg tls_mem tls = Inr gc_tls"
    "object_closure gc_tls = object_closure_default"
    using assms(2) by (rule idle_from_vwt_check)
  with collect_object_roots_bad_root [where callback = scan, OF _ assms(1,3,4), of gc_tls] show ?thesis
    by (simp add: global_root_do_work_def)
qed

theorem bad_root_panics_witness:
  "global_root_do_work debug_build example_core example_tls 4096 (\<lambda>v. VM_visit 17 True (\<lambda>_. VM_done v))
     (example_world {} () example_binding) =
   Inl (AssertFailed ''Root does not point to MMTk object.'')"
proof -
  have "\<not> is_mmtk_object_safe example_core m 17" for m
    by (simp add: is_mmtk_object_safe_def is_aligned_to_def example_core_def)
  then show ?thesis
    by (intro bad_root_panics [OF _ example_tls_idle, where ob = 17]) simp_all
qed

text \<open>
  \<open>scan_vm_specific_roots\<close> always submits the nine root scanners; the WB-unprotected objects are
  scanned as roots in a nursery GC only, then each exactly once, in non-empty packets of at most 128,
  in whatever order the hash set iterates.
\<close>

theorem vm_specific_roots_submission:
  assumes "idle_gc_thread tls_mem tls" and "hash_set_order ord"
    and "mutex_free (wb_unprotected_objects (w_binding w))"
    and "finite (mutex_data (wb_unprotected_objects (w_binding w)))"
  shows "\<exists>w' vecs. scan_vm_specific_roots cfg core ord tls_mem tls w = Inr w' \<and>
    w_buckets w' = bulk_add Prepare
      ([ScanVMRoots, ScanEndProcRoots, ScanGlobalTblRoots, ScanYjitRoots, ScanGlobalSymbolsRoots,
        ScanFinalizerTblRoots, ScanObjToIdTblRoots, ScanMiscRoots, ScanFinalJobsRoots] @
       map ScanWbUnprotectedRoots vecs) (w_buckets w) \<and>
    distinct (concat vecs) \<and>
    set (concat vecs) = (if mc_generational_nursery core (w_core w) = Some True
      then mutex_data (wb_unprotected_objects (w_binding w)) else {}) \<and>
    (\<forall>v \<in> set vecs. v \<noteq> [] \<and> length v \<le> 128)"
proof -
  let ?S = "mutex_data (wb_unprotected_objects (w_binding w))"
  let ?vecs = "if mc_generational_nursery core (w_core w) = Some True then collect_chunks 128 (ord ?S)
    else []"
  obtain gc_tls where g: "from_vwt_check cfg tls_mem tls = Inr gc_tls" "kind gc_tls = GC_THREAD_KIND_WORKER"
    using assms(1) by (rule idle_from_vwt_check)
  have ord: "distinct (ord ?S)" "set (ord ?S) = ?S"
    using assms(2,4) by (auto simp: hash_set_order_def)
  have "?S = {} \<Longrightarrow> collect_chunks 128 (ord ?S) = []"
    using ord(2) wb_chunks.chunk_Nil by simp
  then have "\<exists>w'. scan_vm_specific_roots cfg core ord tls_mem tls w = Inr w' \<and>
      w_buckets w' = bulk_add Prepare (global_root_scanners @ map ScanWbUnprotectedRoots ?vecs) (w_buckets w)"
    using g assms(3)
    by (auto simp: scan_vm_specific_roots_def tls_worker_def Let_def bulk_add_bulk_add)
  moreover have "distinct (concat ?vecs)" "set (concat ?vecs) =
      (if mc_generational_nursery core (w_core w) = Some True then ?S else {})"
    using ord by (simp_all add: wb_chunks.concat_chunk del: set_concat)
  moreover have "\<forall>v \<in> set ?vecs. v \<noteq> [] \<and> length v \<le> 128"
    by (auto dest: wb_chunks.chunk_nonempty wb_chunks.chunk_bounded)
  ultimately show ?thesis
    unfolding global_root_scanners_def by blast
qed

theorem vm_specific_roots_submission_witness:
  "\<exists>w' vecs. scan_vm_specific_roots debug_build example_core sorted_list_of_set example_tls 4096
      (put_wb_unprotected {16, 48} (example_world {} () example_binding)) = Inr w' \<and>
    filter (\<lambda>p. p \<notin> set global_root_scanners) (w_buckets w' Prepare) = map ScanWbUnprotectedRoots vecs \<and>
    set (concat vecs) = {16, 48}"
proof -
  let ?w = "put_wb_unprotected {16, 48} (example_world ({} :: objref set) () example_binding)"
  have "mutex_free (wb_unprotected_objects (w_binding ?w))"
    "finite (mutex_data (wb_unprotected_objects (w_binding ?w)))"
    by (simp_all add: put_wb_unprotected_def)
  from vm_specific_roots_submission [OF example_tls_idle sorted_set_order this, of debug_build example_core]
  obtain w' vecs where
    "scan_vm_specific_roots debug_build example_core sorted_list_of_set example_tls 4096 ?w = Inr w'"
    "w_buckets w' = bulk_add Prepare (global_root_scanners @ map ScanWbUnprotectedRoots vecs) (w_buckets ?w)"
    "set (concat vecs) = (if mc_generational_nursery example_core (w_core ?w) = Some True
      then mutex_data (wb_unprotected_objects (w_binding ?w)) else {})"
    by (elim exE conjE) (rule that, simp_all only: global_root_scanners_def)
  moreover have "filter (\<lambda>p. p \<notin> set global_root_scanners) (map ScanWbUnprotectedRoots vecs) =
      map ScanWbUnprotectedRoots vecs" for vecs
    by (rule filter_True) (auto simp: global_root_scanners_def)
  ultimately show ?thesis
    by (intro exI [of _ w'] exI [of _ vecs]) (simp add: example_core_def)
qed

text \<open>
  Scanning WB-unprotected parents in a nursery GC skips the young ones: the packet does exactly what
  it would do for its old (reachable) parents alone.
\<close>

theorem wb_unprotected_scan_skips_young:
  "scan_wb_unprotected_roots_do_work cfg core up tls_mem tls objects w =
   scan_wb_unprotected_roots_do_work cfg core up tls_mem tls
     (filter (\<lambda>ob. mc_is_reachable core ob (w_core w)) objects) w"
  unfolding scan_wb_unprotected_roots_do_work_def
  by (subst wb_scan_body_filter [abs_def]) simp

text \<open>
  Tracing the edges of an object: the tracer is called once per edge the VM reports, in order, and
  the VM goes on with the reference the tracer returned, so that it stores the new address of a moved
  target. The closure of the GC thread plays no further part.
\<close>

theorem edges_are_traced:
  assumes "idle_gc_thread tls_mem tls" and "\<not> debug_assertions cfg" "\<not> extra_assert_feature cfg"
  shows "scan_object_and_trace_edges cfg core up tls_mem tls ob w =
    bind_res (run_visitor (\<lambda>target pin m. Inr (mc_trace_object core target m))
        (up_scan_object_ruby_style up ob (w_vm w)) (w_core w))
      (\<lambda>(v, m). Inr (w\<lparr>w_vm := v, w_core := m\<rparr>)) \<and>
    (\<exists>w'. scan_object_and_trace_edges cfg core up tls_mem tls ob w = Inr w')"
proof -
  obtain gc_tls where g: "from_vwt_check cfg tls_mem tls = Inr gc_tls"
    "object_closure gc_tls = object_closure_default"
    using assms(1) by (rule idle_from_vwt_check)
  have v: "edge_visitor cfg core = (\<lambda>target pin m. Inr (mc_trace_object core target m))"
    using assms(2,3) by (simp add: edge_visitor_def extra_assert_def fun_eq_iff)
  have "\<exists>r. run_visitor (\<lambda>target pin m. Inr (mc_trace_object core target m)) c m = Inr r"
    for c :: "'b vmcode" and m
    by (induction c arbitrary: m) (auto split: prod.split)
  then show ?thesis
    using g assms(2,3)
    by (auto simp: scan_object_and_trace_edges_def extra_assert_def run_with_closure_default v
        bind_res_eq_Inr split: prod.splits)
qed

theorem edges_are_traced_witness:
  "\<exists>w'. scan_object_and_trace_edges release_build
      (example_core\<lparr>mc_trace_object := \<lambda>ob m. (ob + 8, insert ob m)\<rparr>)
      (null_upcalls\<lparr>up_scan_object_ruby_style := \<lambda>_ _. VM_visit 16 False VM_done\<rparr>)
      example_tls 4096 40 (example_world {} 0 example_binding) = Inr w' \<and>
    w_vm w' = 24 \<and> w_core w' = {16}"
  using edges_are_traced [OF example_tls_idle, of release_build
      "example_core\<lparr>mc_trace_object := \<lambda>ob m. (ob + 8, insert ob m)\<rparr>"
      "null_upcalls\<lparr>up_scan_object_ruby_style := \<lambda>_ _. VM_visit 16 False VM_done\<rparr>" 40
      "example_world {} 0 example_binding"]
  by simp

end
