(* ===== verification/Collection.thy ===== *)
theory Collection
  imports Ppp
begin

text \<open>
  \<open>mmtk/src/collection.rs\<close> and \<open>mmtk/src/active_plan.rs\<close>: stopping and resuming the mutators,
  enumerating them, and the life of GC worker threads from \<open>spawn_gc_thread\<close> to the join before a
  fork, as a step relation over the statics, the thread-local records and the phases of the threads.
\<close>

section \<open>Mutators\<close>

definition is_collection_enabled :: "statics \<Rightarrow> bool" where
  "is_collection_enabled g = gc_enabled g"

text \<open>\<open>visitor\<close> is the closure behind the data pointer, with its captured state of type \<open>'f\<close>.\<close>

definition notify_mutator_ready :: "(address \<Rightarrow> 'f \<Rightarrow> 'f) \<Rightarrow> address \<Rightarrow> 'f \<Rightarrow> 'f" where
  "notify_mutator_ready mutator_visitor mutator = mutator_visitor mutator"

definition stop_all_mutators ::
  "build \<Rightarrow> 'm mmtk_core \<Rightarrow> 'v ruby_upcalls \<Rightarrow> (address \<rightharpoonup> 's gc_thread_tls) \<Rightarrow> vm_worker_thread \<Rightarrow>
   (address \<Rightarrow> 'f \<Rightarrow> 'f) \<Rightarrow> 'f \<Rightarrow> ('m, 'v) world \<Rightarrow> ('f \<times> ('m, 'v) world) res" where
  "stop_all_mutators cfg core up tls_mem tls mutator_visitor f w =
     bind_res (pin_ppp_children cfg core tls_mem tls (w\<lparr>w_vm := up_stop_the_world up tls (w_vm w)\<rparr>))
       (\<lambda>w1. Inr (fold (notify_mutator_ready mutator_visitor) (up_get_mutators up (w_vm w1)) f, w1))"

definition resume_mutators ::
  "'v ruby_upcalls \<Rightarrow> vm_worker_thread \<Rightarrow> ('m, 'v) world \<Rightarrow> ('m, 'v) world" where
  "resume_mutators up tls w = w\<lparr>w_vm := up_resume_mutators up tls (w_vm w)\<rparr>"

definition block_for_gc :: "'v ruby_upcalls \<Rightarrow> address \<Rightarrow> ('m, 'v) world \<Rightarrow> ('m, 'v) world" where
  "block_for_gc up tls w = w\<lparr>w_vm := up_block_for_gc up tls (w_vm w)\<rparr>"

definition vm_live_bytes :: "'v ruby_upcalls \<Rightarrow> ('m, 'v) world \<Rightarrow> usize" where
  "vm_live_bytes up w = up_vm_live_bytes up (w_vm w)"

section \<open>The active plan\<close>

definition number_of_mutators :: "'v ruby_upcalls \<Rightarrow> 'v \<Rightarrow> usize" where
  "number_of_mutators up v = up_number_of_mutators up v"

definition is_mutator :: "'v ruby_upcalls \<Rightarrow> address \<Rightarrow> 'v \<Rightarrow> bool" where
  "is_mutator up tls v = up_is_mutator up v"

definition active_plan_mutator :: "address \<Rightarrow> address res" where
  "active_plan_mutator tls = Inl Unimplemented"

definition add_mutator_to_vec :: "address \<Rightarrow> address list \<Rightarrow> address list" where
  "add_mutator_to_vec mutator mutators = mutators @ [mutator]"

definition mutators :: "'v ruby_upcalls \<Rightarrow> 'v \<Rightarrow> address list" where
  "mutators up v = fold add_mutator_to_vec (up_get_mutators up v) []"

text \<open>\<open>RubyMutatorIterator::next\<close>, and the sequence a caller gets by calling it until \<open>None\<close>.\<close>

definition mutator_next :: "address list \<Rightarrow> address option \<times> address list" where
  "mutator_next q = (case q of [] \<Rightarrow> (None, []) | m # q' \<Rightarrow> (Some m, q'))"

function iterate_mutators :: "address list \<Rightarrow> address list" where
  "iterate_mutators q =
     (case mutator_next q of (None, _) \<Rightarrow> [] | (Some m, q') \<Rightarrow> m # iterate_mutators q')"
  by pat_completeness auto
termination
  by (relation "measure length") (auto simp: mutator_next_def split: list.splits)

declare iterate_mutators.simps [simp del]

lemma iterate_mutators_eq: "iterate_mutators q = q"
  by (induction q) (simp_all add: iterate_mutators.simps mutator_next_def)

lemma mutators_eq: "mutators up v = up_get_mutators up v"
proof -
  have "fold add_mutator_to_vec ms acc = acc @ ms" for ms acc
    by (induction ms arbitrary: acc) (simp_all add: add_mutator_to_vec_def)
  then show ?thesis by (simp add: mutators_def)
qed

section \<open>The life of a GC thread\<close>

text \<open>The spawner's side of \<open>spawn_gc_thread\<close>: it keeps the join handle.\<close>

definition push_join_handle :: "thread_id \<Rightarrow> statics \<Rightarrow> statics res" where
  "push_join_handle t g =
     bind_res (binding g) (\<lambda>b.
     bind_res (lock_unwrap (gc_thread_join_handles b)) (\<lambda>handles.
     Inr (g\<lparr>BINDING := Some (b\<lparr>gc_thread_join_handles :=
       (gc_thread_join_handles b)\<lparr>mutex_data := handles @ [t]\<rparr>\<rparr>)\<rparr>)))"

text \<open>
  The closure the thread runs, up to \<open>start_worker\<close> and after it. \<open>p\<close> is the address \<open>Box::into_raw\<close>
  returned for the thread-local record, \<open>worker\<close> the address of the worker.
\<close>

definition gc_thread_begin ::
  "'v ruby_upcalls \<Rightarrow> thread_id \<Rightarrow> address \<Rightarrow> address \<Rightarrow> statics \<times> 'v \<times> (address \<rightharpoonup> 's gc_thread_tls) \<Rightarrow>
   (statics \<times> 'v \<times> (address \<rightharpoonup> 's gc_thread_tls)) res" where
  "gc_thread_begin up t worker p = (\<lambda>(g, v, tls_mem).
     bind_res (register_gc_thread t g) (\<lambda>g'.
     Inr (g', up_init_gc_worker_thread up p v, tls_mem(p \<mapsto> for_worker worker))))"

definition gc_thread_end :: "thread_id \<Rightarrow> statics \<Rightarrow> statics res" where
  "gc_thread_end t g = unregister_gc_thread t g"

text \<open>\<open>mmtk_prepare_to_fork\<close> after mmtk-core has asked the workers to quit.\<close>

definition join_gc_threads :: "(thread_id \<Rightarrow> bool) \<Rightarrow> statics \<Rightarrow> (thread_id list \<times> statics) res" where
  "join_gc_threads ended_ok g =
     bind_res (binding g) (\<lambda>b.
     bind_res (join_all_gc_threads ended_ok b) (\<lambda>(joined, b').
     Inr (joined, g\<lparr>BINDING := Some b'\<rparr>)))"

datatype thread_phase = Not_spawned | Starting | Running address | Quit

text \<open>
  \<open>ts_unpushed\<close> holds the threads whose spawner has not stored the handle yet; a spawned thread may
  start, run and quit before that.
\<close>

record ('v, 's) thread_sys =
  ts_statics :: statics
  ts_vm :: 'v
  ts_tls :: "address \<rightharpoonup> 's gc_thread_tls"
  ts_phase :: "thread_id \<Rightarrow> thread_phase"
  ts_unpushed :: "thread_id set"
  ts_joined :: "thread_id set"

text \<open>
  A \<open>join\<close> waits for its thread, so the step of the joining thread is taken when all threads whose
  handles are stored have quit; a GC thread that panics aborts the process, so a thread that quit has
  returned.
\<close>

inductive thread_step :: "'v ruby_upcalls \<Rightarrow> ('v, 's) thread_sys \<Rightarrow> ('v, 's) thread_sys \<Rightarrow> bool"
  for up where
  thread_spawn: "ts_phase s t = Not_spawned \<Longrightarrow>
     thread_step up s (s\<lparr>ts_phase := (ts_phase s)(t := Starting),
                        ts_unpushed := insert t (ts_unpushed s)\<rparr>)"
| thread_push: "t \<in> ts_unpushed s \<Longrightarrow> push_join_handle t (ts_statics s) = Inr g \<Longrightarrow>
     thread_step up s (s\<lparr>ts_statics := g, ts_unpushed := ts_unpushed s - {t}\<rparr>)"
| thread_begin: "ts_phase s t = Starting \<Longrightarrow> p \<noteq> 0 \<Longrightarrow> ts_tls s p = None \<Longrightarrow>
     gc_thread_begin up t worker p (ts_statics s, ts_vm s, ts_tls s) = Inr (g, v, tls_mem) \<Longrightarrow>
     thread_step up s (s\<lparr>ts_statics := g, ts_vm := v, ts_tls := tls_mem,
                        ts_phase := (ts_phase s)(t := Running p)\<rparr>)"
| thread_end: "ts_phase s t = Running p \<Longrightarrow> gc_thread_end t (ts_statics s) = Inr g \<Longrightarrow>
     thread_step up s (s\<lparr>ts_statics := g, ts_phase := (ts_phase s)(t := Quit)\<rparr>)"
| thread_join: "binding (ts_statics s) = Inr b \<Longrightarrow>
     \<forall>t \<in> set (mutex_data (gc_thread_join_handles b)). ts_phase s t = Quit \<Longrightarrow>
     join_gc_threads (\<lambda>_. True) (ts_statics s) = Inr (joined, g) \<Longrightarrow>
     thread_step up s (s\<lparr>ts_statics := g, ts_joined := ts_joined s \<union> set joined\<rparr>)"

inductive_cases thread_stepE: "thread_step up s t"

text \<open>The state when the first GC thread is spawned: the binding and the panic hook are in place.\<close>

definition thread_start :: "statics \<Rightarrow> 'v \<Rightarrow> ('v, 's) thread_sys" where
  "thread_start g v = \<lparr>ts_statics = g, ts_vm = v, ts_tls = Map.empty,
     ts_phase = (\<lambda>_. Not_spawned), ts_unpushed = {}, ts_joined = {}\<rparr>"

definition join_handles :: "statics \<Rightarrow> thread_id list" where
  "join_handles g = (case BINDING g of None \<Rightarrow> [] | Some b \<Rightarrow> mutex_data (gc_thread_join_handles b))"

text \<open>
  The registered GC threads are the running ones, each with a valid thread-local record; every
  spawned thread has its handle in exactly one place; joined threads have quit.
\<close>

definition statics_ok :: "statics \<Rightarrow> bool" where
  "statics_ok g \<longleftrightarrow>
     (\<exists>m. GC_THREADS g = Some m \<and> mutex_free m) \<and>
     (\<exists>b. BINDING g = Some b \<and> mutex_free (gc_thread_join_handles b))"

definition thread_inv :: "('v, 's) thread_sys \<Rightarrow> bool" where
  "thread_inv s \<longleftrightarrow>
     statics_ok (ts_statics s) \<and>
     gc_threads (ts_statics s) = Inr {t. \<exists>p. ts_phase s t = Running p} \<and>
     (\<forall>t p. ts_phase s t = Running p \<longrightarrow> idle_gc_thread (ts_tls s) p) \<and>
     distinct (join_handles (ts_statics s)) \<and>
     set (join_handles (ts_statics s)) \<inter> ts_unpushed s = {} \<and>
     set (join_handles (ts_statics s)) \<union> ts_unpushed s \<union> ts_joined s =
       {t. ts_phase s t \<noteq> Not_spawned} \<and>
     set (join_handles (ts_statics s)) \<inter> ts_joined s = {} \<and> ts_unpushed s \<inter> ts_joined s = {} \<and>
     (\<forall>t \<in> ts_joined s. ts_phase s t = Quit)"

lemma thread_start_inv:
  assumes "statics_ok g" "gc_threads g = Inr {}" "join_handles g = []"
  shows "thread_inv (thread_start g v)"
  using assms by (simp add: thread_inv_def thread_start_def)

lemma put_gc_threads_simps [simp]:
  "statics_ok (put_gc_threads T g) = statics_ok g"
  "join_handles (put_gc_threads T g) = join_handles g"
  "BINDING (put_gc_threads T g) = BINDING g"
  by (auto simp: put_gc_threads_def statics_ok_def join_handles_def)

lemma gc_threads_put: "statics_ok g \<Longrightarrow> gc_threads (put_gc_threads T g) = Inr T"
  by (auto simp: statics_ok_def gc_threads_def put_gc_threads_def)

lemma push_join_handle_ok:
  "statics_ok g \<Longrightarrow> push_join_handle t g = Inr g' \<Longrightarrow>
   statics_ok g' \<and> gc_threads g' = gc_threads g \<and> join_handles g' = join_handles g @ [t]"
  by (auto simp: statics_ok_def push_join_handle_def binding_def gc_threads_def join_handles_def)

lemma join_gc_threads_ok:
  "statics_ok g \<Longrightarrow> join_gc_threads (\<lambda>_. True) g = Inr (joined, g') \<Longrightarrow>
   statics_ok g' \<and> gc_threads g' = gc_threads g \<and> join_handles g' = [] \<and> joined = join_handles g"
  by (auto simp: statics_ok_def join_gc_threads_def binding_def gc_threads_def join_handles_def
      join_all_gc_threads_def join_threads_eq)

lemma idle_gc_thread_other: "idle_gc_thread tls_mem q \<Longrightarrow> tls_mem p = None \<Longrightarrow>
    idle_gc_thread (tls_mem(p \<mapsto> tls)) q"
  by (auto simp: idle_gc_thread_def)

lemma thread_step_inv:
  assumes "thread_step up s t" and "thread_inv s"
  shows "thread_inv t"
  using assms
proof (induction rule: thread_step.induct)
  case (thread_spawn s t)
  then show ?case
    by (auto simp: thread_inv_def)
next
  case (thread_push t s g)
  from push_join_handle_ok [OF _ thread_push(2)] thread_push(1,3) show ?case
    by (auto simp: thread_inv_def)
next
  case (thread_begin s t p worker g v tls_mem)
  have ok: "statics_ok (ts_statics s)"
    using thread_begin by (simp add: thread_inv_def)
  have g: "g = put_gc_threads (insert t {t. \<exists>p. ts_phase s t = Running p}) (ts_statics s)"
    "tls_mem = (ts_tls s)(p \<mapsto> for_worker worker)"
    using thread_begin(4,5) by (auto simp: gc_thread_begin_def register_gc_thread_def thread_inv_def)
  have "idle_gc_thread tls_mem p"
    using thread_begin(2) idle_for_worker [of p] g(2) by (simp add: to_vwt_def)
  then show ?case
    using thread_begin ok g
    by (auto simp: thread_inv_def gc_threads_put intro: idle_gc_thread_other)
next
  case (thread_end s t p g)
  have ok: "statics_ok (ts_statics s)"
    using thread_end by (simp add: thread_inv_def)
  have g: "g = put_gc_threads ({t. \<exists>p. ts_phase s t = Running p} - {t}) (ts_statics s)"
    using thread_end(2,3) by (auto simp: gc_thread_end_def unregister_gc_thread_def thread_inv_def)
  show ?case
    using thread_end ok g by (auto simp: thread_inv_def gc_threads_put)
next
  case (thread_join s b joined g)
  from join_gc_threads_ok [OF _ thread_join(3)] have
    j: "statics_ok g" "gc_threads g = gc_threads (ts_statics s)" "join_handles g = []"
      "joined = join_handles (ts_statics s)"
    using thread_join(4) by (auto simp: thread_inv_def)
  have "\<forall>t \<in> set (join_handles (ts_statics s)). ts_phase s t = Quit"
    using thread_join(1,2) by (auto simp: join_handles_def binding_def split: option.splits)
  then show ?case
    using thread_join(4) j by (auto simp: thread_inv_def)
qed

lemma thread_reach_inv:
  assumes "(thread_step up)\<^sup>*\<^sup>* (thread_start g v) s"
    and "statics_ok g" "gc_threads g = Inr {}" "join_handles g = []"
  shows "thread_inv s"
  using assms(1) by (induction rule: rtranclp_induct)
    (auto intro: thread_start_inv [OF assms(2-4)] thread_step_inv)

section \<open>Properties\<close>

lemma thread_reach_invD:
  assumes "(thread_step up)\<^sup>*\<^sup>* (thread_start g v) s"
    and "statics_ok g" "gc_threads g = Inr {}" "join_handles g = []"
  shows "gc_threads (ts_statics s) = Inr {t. \<exists>p. ts_phase s t = Running p}"
    and "statics_ok (ts_statics s)" "distinct (join_handles (ts_statics s))"
    and "set (join_handles (ts_statics s)) \<union> ts_unpushed s \<union> ts_joined s = {t. ts_phase s t \<noteq> Not_spawned}"
    and "\<And>t. t \<in> ts_joined s \<Longrightarrow> ts_phase s t = Quit"
    and "\<And>t p. ts_phase s t = Running p \<Longrightarrow> idle_gc_thread (ts_tls s) p"
  using thread_reach_inv [OF assms] by (simp_all add: thread_inv_def)

text \<open>Statics after the initialisation of the binding, and one thread that has begun to run.\<close>

definition example_statics :: statics where
  "example_statics = \<lparr>BINDING = Some example_binding, gc_enabled = False, suffix_size = 8,
     GC_THREADS = Some (mutex_new {}), hook = Binding_hook Old_hook\<rparr>"

lemma example_statics_ok:
  "statics_ok example_statics" "gc_threads example_statics = Inr {}" "join_handles example_statics = []"
  by (simp_all add: statics_ok_def example_statics_def gc_threads_def join_handles_def)

lemma example_thread_runs:
  "\<exists>s. (thread_step up)\<^sup>*\<^sup>* (thread_start example_statics v :: ('v, 's) thread_sys) s \<and>
     ts_phase s = (\<lambda>_. Not_spawned)(7 := Running 4096) \<and> ts_tls s = [4096 \<mapsto> for_worker 8192] \<and>
     BINDING (ts_statics s) = Some example_binding"
proof -
  let ?s0 = "thread_start example_statics v :: ('v, 's) thread_sys"
  let ?s1 = "?s0\<lparr>ts_phase := (ts_phase ?s0)(7 := Starting), ts_unpushed := insert 7 (ts_unpushed ?s0)\<rparr>"
  have s1: "thread_step up ?s0 ?s1"
    by (rule thread_spawn) (simp add: thread_start_def)
  obtain g v' m where b:
    "gc_thread_begin up 7 8192 4096 (ts_statics ?s1, ts_vm ?s1, ts_tls ?s1) = Inr (g, v', m)"
    "m = [4096 \<mapsto> for_worker 8192]" "BINDING g = Some example_binding"
    by (simp add: gc_thread_begin_def register_gc_thread_def thread_start_def example_statics_ok)
      (simp add: example_statics_def)
  let ?s2 = "?s1\<lparr>ts_statics := g, ts_vm := v', ts_tls := m, ts_phase := (ts_phase ?s1)(7 := Running 4096)\<rparr>"
  have "thread_step up ?s1 ?s2"
    by (rule thread_begin [OF _ _ _ b(1)]) (simp_all add: thread_start_def)
  with s1 have "(thread_step up)\<^sup>*\<^sup>* ?s0 ?s2"
    by (meson converse_rtranclp_into_rtranclp r_into_rtranclp)
  moreover have "ts_phase ?s2 = (\<lambda>_. Not_spawned)(7 := Running 4096)"
    by (simp add: thread_start_def)
  ultimately show ?thesis
    using b(2,3) by (intro exI [of _ ?s2]) (simp del: fun_upd_apply)
qed

text \<open>
  C32. In every reachable state, however the threads interleave, the set of registered GC threads is the
  set of running ones; so a panic aborts the process exactly when it happens on a running GC thread
  and reaches the previous hook on any other thread; and the record of every running GC thread is
  valid for \<open>from_vwt_check\<close>.
\<close>

theorem gc_thread_panic_aborts:
  assumes "(thread_step up)\<^sup>*\<^sup>* (thread_start g v) s"
    and "statics_ok g" "gc_threads g = Inr {}" "join_handles g = []"
  shows "is_gc_thread t (ts_statics s) = Inr (\<exists>p. ts_phase s t = Running p) \<and>
    run_hook (Binding_hook old) t (ts_statics s) =
      (if \<exists>p. ts_phase s t = Running p then Inr Process_abort else run_hook old t (ts_statics s)) \<and>
    (\<forall>p. ts_phase s t = Running p \<longrightarrow> (\<exists>tls. from_vwt_check cfg (ts_tls s) p = Inr tls))"
proof -
  note inv = thread_reach_invD [OF assms]
  have "\<exists>tls. from_vwt_check cfg (ts_tls s) p = Inr tls" if "ts_phase s t = Running p" for p
    using idle_from_vwt_check [OF inv(6) [OF that]] by metis
  with inv(1) show ?thesis
    by (auto simp: is_gc_thread_def)
qed

theorem gc_thread_panic_aborts_witness:
  "\<exists>s. (thread_step null_upcalls)\<^sup>*\<^sup>* (thread_start example_statics () :: (unit, unit) thread_sys) s \<and>
     run_hook (Binding_hook Old_hook) 7 (ts_statics s) = Inr Process_abort \<and>
     run_hook (Binding_hook Old_hook) 8 (ts_statics s) = Inr Old_hook_ran"
proof -
  obtain s :: "(unit, unit) thread_sys" where
    s: "(thread_step null_upcalls)\<^sup>*\<^sup>* (thread_start example_statics ()) s"
    "ts_phase s = (\<lambda>_. Not_spawned)(7 := Running 4096)"
    using example_thread_runs [of null_upcalls "()"] by blast
  from gc_thread_panic_aborts [OF s(1) example_statics_ok, of 7 Old_hook debug_build]
    gc_thread_panic_aborts [OF s(1) example_statics_ok, of 8 Old_hook debug_build] s
  show ?thesis
    by (intro exI [of _ s]) auto
qed



text \<open>
  Enumerating mutators: calling \<open>next\<close> on the iterator until it is exhausted yields the mutators the
  VM reports, each once per report, in order.
\<close>

theorem mutators_enumerated: "iterate_mutators (mutators up v) = up_get_mutators up v"
  by (simp add: iterate_mutators_eq mutators_eq)

end
