(* ===== verification/Api.thy ===== *)
theory Api
  imports Object_Model Scanning Collection
begin

text \<open>
  The C API of \<open>mmtk/src/api.rs\<close>: the builder and the initialisation of the binding, allocation,
  switching collection on and off, the registrations that mutators call, and the vectors handed to C.
  \<open>Core_Api\<close> has the functions that hand a request to mmtk-core.
\<close>

section \<open>The builder\<close>

text \<open>The cases of the option types of mmtk-core that the binding names.\<close>

datatype gc_trigger_selector = DynamicHeapSize usize usize | FixedHeapSize usize | Default_trigger

datatype plan_selector = MarkSweep | Immix | StickyImmix | Other_plan string

record mmtk_builder =
  no_finalizer :: bool
  gc_trigger :: gc_trigger_selector
  plan :: plan_selector

text \<open>
  \<open>MMTKOption::set\<close> stores a value that its validator accepts and ignores one that it rejects; the
  validators, the parser of plan names and the initial options belong to mmtk-core.
\<close>

record option_rules =
  valid_trigger :: "gc_trigger_selector \<Rightarrow> bool"
  valid_plan :: "plan_selector \<Rightarrow> bool"
  parse_plan :: "string \<Rightarrow> plan_selector option"
  new_no_env_vars :: mmtk_builder

type_synonym builders = "address \<rightharpoonup> mmtk_builder"

definition mmtk_builder_default :: "option_rules \<Rightarrow> address \<Rightarrow> builders \<Rightarrow> address \<times> builders" where
  "mmtk_builder_default rules p bs = (p, bs(p \<mapsto> (new_no_env_vars rules)\<lparr>no_finalizer := True\<rparr>))"

definition with_builder :: "address \<Rightarrow> builders \<Rightarrow> (mmtk_builder \<Rightarrow> 'r res) \<Rightarrow> 'r res" where
  "with_builder p bs f =
     (case bs p of None \<Rightarrow> Inl (UB ''invalid MMTKBuilder pointer'') | Some b \<Rightarrow> f b)"

definition set_gc_trigger ::
  "option_rules \<Rightarrow> address \<Rightarrow> gc_trigger_selector \<Rightarrow> builders \<Rightarrow> builders res" where
  "set_gc_trigger rules p t bs = with_builder p bs (\<lambda>b.
     Inr (if valid_trigger rules t then bs(p \<mapsto> b\<lparr>gc_trigger := t\<rparr>) else bs))"

definition mmtk_builder_set_dynamic_heap_size ::
  "option_rules \<Rightarrow> address \<Rightarrow> usize \<Rightarrow> usize \<Rightarrow> builders \<Rightarrow> builders res" where
  "mmtk_builder_set_dynamic_heap_size rules p low high bs =
     set_gc_trigger rules p (DynamicHeapSize low high) bs"

definition mmtk_builder_set_fixed_heap_size ::
  "option_rules \<Rightarrow> address \<Rightarrow> usize \<Rightarrow> builders \<Rightarrow> builders res" where
  "mmtk_builder_set_fixed_heap_size rules p heap_size bs =
     set_gc_trigger rules p (FixedHeapSize heap_size) bs"

text \<open>\<open>plan_name_str\<close> is what \<open>CStr::to_str\<close> returns: nothing when the bytes are not UTF-8.\<close>

definition mmtk_builder_set_plan ::
  "option_rules \<Rightarrow> address \<Rightarrow> string option \<Rightarrow> builders \<Rightarrow> builders res" where
  "mmtk_builder_set_plan rules p plan_name_str bs = with_builder p bs (\<lambda>b.
     case plan_name_str of
       None \<Rightarrow> Inl (Panic ''plan_name_cstr.to_str().unwrap()'')
     | Some s \<Rightarrow>
         (case parse_plan rules s of
            None \<Rightarrow> Inl (Panic ''parse::<PlanSelector>().unwrap()'')
          | Some sel \<Rightarrow> Inr (if valid_plan rules sel then bs(p \<mapsto> b\<lparr>plan := sel\<rparr>) else bs)))"

definition mmtk_builder_is_mark_sweep :: "address \<Rightarrow> builders \<Rightarrow> bool res" where
  "mmtk_builder_is_mark_sweep p bs = with_builder p bs (\<lambda>b. Inr (plan b = MarkSweep))"

definition mmtk_builder_is_immix :: "address \<Rightarrow> builders \<Rightarrow> bool res" where
  "mmtk_builder_is_immix p bs = with_builder p bs (\<lambda>b. Inr (plan b = Immix))"

definition mmtk_builder_is_sticky_immix :: "address \<Rightarrow> builders \<Rightarrow> bool res" where
  "mmtk_builder_is_sticky_immix p bs = with_builder p bs (\<lambda>b. Inr (plan b = StickyImmix))"

text \<open>\<open>mmtk_init_binding\<close> consumes the builder and initialises the statics, once.\<close>

definition mmtk_init_binding ::
  "(string \<rightharpoonup> string) \<Rightarrow> address \<Rightarrow> ruby_binding_options \<Rightarrow> statics \<times> builders \<Rightarrow>
   (statics \<times> builders) res" where
  "mmtk_init_binding env p binding_options = (\<lambda>(g, bs).
     let g1 = set_panic_hook g in
     with_builder p bs (\<lambda>_.
     let (sfx, b) = ruby_binding_new env binding_options;
         g2 = g1\<lparr>suffix_size := sfx\<rparr>
     in if BINDING g2 \<noteq> None then Inl (Panic ''Binding is already initialized'')
        else Inr (g2\<lparr>BINDING := Some b\<rparr>, bs(p := None))))"

section \<open>Allocation and queries\<close>

text \<open>\<open>alloc\<close> is \<open>memory_manager::alloc\<close>, \<open>min_object_size\<close> its \<open>MIN_OBJECT_SIZE\<close>.\<close>

definition mmtk_alloc ::
  "(usize \<Rightarrow> usize \<Rightarrow> usize \<Rightarrow> 'sem \<Rightarrow> 'a \<Rightarrow> address \<times> 'a) \<Rightarrow> usize \<Rightarrow>
   usize \<Rightarrow> usize \<Rightarrow> usize \<Rightarrow> 'sem \<Rightarrow> 'a \<Rightarrow> address \<times> 'a" where
  "mmtk_alloc alloc min_object_size size' align offset semantics mutator =
     alloc (max size' min_object_size) align offset semantics mutator"

definition mmtk_enable_collection :: "statics \<Rightarrow> statics" where
  "mmtk_enable_collection g = g\<lparr>gc_enabled := True\<rparr>"

definition mmtk_disable_collection :: "statics \<Rightarrow> statics" where
  "mmtk_disable_collection g = g\<lparr>gc_enabled := False\<rparr>"

definition mmtk_is_collection_enabled :: "statics \<Rightarrow> bool" where
  "mmtk_is_collection_enabled g = gc_enabled g"

definition mmtk_is_mmtk_object :: "build \<Rightarrow> 'm mmtk_core \<Rightarrow> 'm \<Rightarrow> address \<Rightarrow> bool res" where
  "mmtk_is_mmtk_object cfg core m addr =
     bind_res (debug_assert cfg (addr \<noteq> 0) ''!addr.is_zero()'') (\<lambda>_.
     bind_res (debug_assert cfg (is_aligned_to addr (mc_vo_bit_region_size core)) ''addr.is_aligned_to'')
       (\<lambda>_. Inr (mc_is_mmtk_object core addr m \<noteq> None)))"

definition mmtk_get_forwarded_object :: "'m mmtk_core \<Rightarrow> 'm \<Rightarrow> objref \<Rightarrow> address" where
  "mmtk_get_forwarded_object core m ob =
     (case mc_get_forwarded_object core ob m of None \<Rightarrow> 0 | Some n \<Rightarrow> n)"

definition mmtk_hidden_header_is_sane :: "hidden_header \<Rightarrow> bool" where
  "mmtk_hidden_header_is_sane h = is_sane h"

text \<open>\<open>usize::trailing_zeros\<close>.\<close>

definition trailing_zeros :: "usize \<Rightarrow> nat" where
  "trailing_zeros w = length (takeWhile (\<lambda>i. \<not> bit w i) [0..<64])"

definition mmtk_get_vo_bit_log_region_size :: "'m mmtk_core \<Rightarrow> usize" where
  "mmtk_get_vo_bit_log_region_size core = of_nat (trailing_zeros (mc_vo_bit_region_size core))"

lemma trailing_zeros_exp: "k < 64 \<Longrightarrow> trailing_zeros (2 ^ k) = k"
proof -
  assume k: "k < 64"
  have b: "bit (2 ^ k :: usize) i \<longleftrightarrow> i = k" if "i < 64" for i
    using that by (simp add: bit_exp_iff)
  have "[0..<64] = [0..<k] @ k # [Suc k..<64]"
    using k by (metis le_add1 add_0 less_imp_le_nat upt_add_eq_append upt_conv_Cons le_Suc_ex)
  moreover have "takeWhile (\<lambda>i. \<not> bit (2 ^ k :: usize) i) ([0..<k] @ k # [Suc k..<64]) = [0..<k]"
    using k b by (subst takeWhile_append2) auto
  ultimately show ?thesis by (simp add: trailing_zeros_def)
qed

section \<open>Registrations\<close>

text \<open>An operation on the binding through the global \<open>binding()\<close>.\<close>

definition with_binding :: "(ruby_binding \<Rightarrow> ruby_binding res) \<Rightarrow> statics \<Rightarrow> statics res" where
  "with_binding f g = bind_res (binding g) (\<lambda>b. bind_res (f b) (\<lambda>b'. Inr (g\<lparr>BINDING := Some b'\<rparr>)))"

definition mmtk_add_obj_free_candidate :: "objref \<Rightarrow> statics \<Rightarrow> statics res" where
  "mmtk_add_obj_free_candidate ob = with_binding (\<lambda>b.
     bind_res (add_obj_free_candidate ob (weak_proc b)) (\<lambda>wp. Inr (b\<lparr>weak_proc := wp\<rparr>)))"

text \<open>A slice from C is a list: \<open>from_raw_parts(objects, len)\<close> read from memory.\<close>

definition mmtk_add_obj_free_candidates :: "objref list \<Rightarrow> statics \<Rightarrow> statics res" where
  "mmtk_add_obj_free_candidates objects = with_binding (\<lambda>b.
     bind_res (add_obj_free_candidates objects (weak_proc b)) (\<lambda>wp. Inr (b\<lparr>weak_proc := wp\<rparr>)))"

definition mmtk_register_ppp :: "objref \<Rightarrow> statics \<Rightarrow> statics res" where
  "mmtk_register_ppp ob = with_binding (\<lambda>b.
     bind_res (register ob (ppp_reg b)) (\<lambda>r. Inr (b\<lparr>ppp_reg := r\<rparr>)))"

definition mmtk_register_ppps :: "objref list \<Rightarrow> statics \<Rightarrow> statics res" where
  "mmtk_register_ppps objects = with_binding (\<lambda>b.
     bind_res (register_many objects (ppp_reg b)) (\<lambda>r. Inr (b\<lparr>ppp_reg := r\<rparr>)))"

definition mmtk_register_wb_unprotected_object :: "objref \<Rightarrow> statics \<Rightarrow> statics res" where
  "mmtk_register_wb_unprotected_object ob = with_binding (register_wb_unprotected_object ob)"

definition mmtk_is_object_wb_unprotected :: "objref \<Rightarrow> statics \<Rightarrow> bool res" where
  "mmtk_is_object_wb_unprotected ob g = bind_res (binding g) (is_object_wb_unprotected ob)"

definition mmtk_get_givtbl_during_gc ::
  "'v ruby_upcalls \<Rightarrow> 'v \<Rightarrow> objref \<Rightarrow> statics \<Rightarrow> address res" where
  "mmtk_get_givtbl_during_gc up v ob g = bind_res (binding g) (\<lambda>b. get_givtbl up b v ob)"

text \<open>
  The candidates leave the binding as a vector. \<open>place\<close> says where the \<open>Vec\<close> that collected them has
  its buffer and how large that is.
\<close>

definition mmtk_get_all_obj_free_candidates ::
  "(objref list \<Rightarrow> address \<times> usize) \<Rightarrow> statics \<times> leaked \<Rightarrow>
   (raw_vec_of_obj_ref \<times> statics \<times> leaked) res" where
  "mmtk_get_all_obj_free_candidates place = (\<lambda>(g, leaked).
     bind_res (binding g) (\<lambda>b.
     bind_res (get_all_obj_free_candidates (weak_proc b)) (\<lambda>(xs, wp).
     let (p, c) = place xs;
         (raw, leaked') = from_vec \<lparr>vec_ptr = p, vec_items = xs, vec_capa = c\<rparr> leaked
     in Inr (raw, g\<lparr>BINDING := Some (b\<lparr>weak_proc := wp\<rparr>)\<rparr>, leaked'))))"

text \<open>The vector taken back is dropped at once, which frees its buffer.\<close>

definition mmtk_free_raw_vec_of_obj_ref :: "raw_vec_of_obj_ref \<Rightarrow> leaked \<Rightarrow> leaked res" where
  "mmtk_free_raw_vec_of_obj_ref raw leaked = bind_res (into_vec raw leaked) (\<lambda>(_, leaked'). Inr leaked')"

text \<open>\<open>mmtk_prepare_to_fork\<close>: mmtk-core stops its workers (\<open>prepare\<close>), then they are joined.\<close>

definition mmtk_prepare_to_fork ::
  "('m \<Rightarrow> 'm) \<Rightarrow> (thread_id \<Rightarrow> bool) \<Rightarrow> 'm \<times> statics \<Rightarrow> ('m \<times> statics) res" where
  "mmtk_prepare_to_fork prepare ended_ok = (\<lambda>(m, g).
     let m' = prepare m
     in bind_res (join_gc_threads ended_ok g) (\<lambda>(_, g'). Inr (m', g')))"

text \<open>The write barrier passes a null slot and no target: only the object matters.\<close>

definition mmtk_object_reference_write_post ::
  "(objref \<Rightarrow> address \<Rightarrow> objref option \<Rightarrow> 'a \<Rightarrow> 'a) \<Rightarrow> objref \<Rightarrow> 'a \<Rightarrow> 'a" where
  "mmtk_object_reference_write_post write_post ob mutator =
     write_post ob 0 (objref_from_raw_address 0) mutator"

text \<open>\<open>mmtk_enumerate_objects\<close>: the callback once per object, in the order of mmtk-core.\<close>

definition mmtk_enumerate_objects :: "objref list \<Rightarrow> (objref \<Rightarrow> 'd \<Rightarrow> 'd) \<Rightarrow> 'd \<Rightarrow> 'd" where
  "mmtk_enumerate_objects objects callback data = fold callback objects data"

text \<open>\<open>AllocatorInfo\<close> of an allocator: only a bump-pointer allocator has the offset asked for.\<close>

definition mmtk_get_immix_bump_ptr_offset :: "usize option \<Rightarrow> usize res" where
  "mmtk_get_immix_bump_ptr_offset bump_pointer_info =
     (case bump_pointer_info of None \<Rightarrow> Inl (Panic ''Expected BumpPointer'') | Some n \<Rightarrow> Inr n)"

section \<open>The reference glue\<close>

text \<open>\<open>mmtk/src/reference_glue.rs\<close>: the Java-style weak references of mmtk-core are not used.\<close>

definition get_referent :: "objref \<Rightarrow> objref option res" where
  "get_referent ob = Inl Unimplemented"

definition set_referent :: "objref \<Rightarrow> objref \<Rightarrow> unit res" where
  "set_referent reff referent = Inl Unimplemented"

definition enqueue_references :: "objref list \<Rightarrow> vm_worker_thread \<Rightarrow> unit res" where
  "enqueue_references references tls = Inl Unimplemented"

definition clear_referent :: "objref \<Rightarrow> unit res" where
  "clear_referent new_reference = Inl Unimplemented"

section \<open>Calls of mutators\<close>

text \<open>The registrations a mutator can make, in the order the mutexes of the binding serialise them.\<close>

datatype mutator_call =
    Add_candidate objref
  | Add_candidates "objref list"
  | Register_ppp objref
  | Register_ppps "objref list"
  | Register_wb_unprotected objref

fun run_call :: "mutator_call \<Rightarrow> statics \<Rightarrow> statics res" where
  "run_call (Add_candidate ob) = mmtk_add_obj_free_candidate ob"
| "run_call (Add_candidates obs) = mmtk_add_obj_free_candidates obs"
| "run_call (Register_ppp ob) = mmtk_register_ppp ob"
| "run_call (Register_ppps obs) = mmtk_register_ppps obs"
| "run_call (Register_wb_unprotected ob) = mmtk_register_wb_unprotected_object ob"

fun candidate_reports :: "mutator_call \<Rightarrow> objref list" where
  "candidate_reports (Add_candidate ob) = [ob]"
| "candidate_reports (Add_candidates obs) = obs"
| "candidate_reports _ = []"

fun ppp_reports :: "mutator_call \<Rightarrow> objref list" where
  "ppp_reports (Register_ppp ob) = [ob]"
| "ppp_reports (Register_ppps obs) = obs"
| "ppp_reports _ = []"

fun wb_reports :: "mutator_call \<Rightarrow> objref list" where
  "wb_reports (Register_wb_unprotected ob) = [ob]"
| "wb_reports _ = []"

definition registries_free :: "ruby_binding \<Rightarrow> bool" where
  "registries_free b \<longleftrightarrow> mutex_free (obj_free_candidates (weak_proc b)) \<and>
     mutex_free (ppps (ppp_reg b)) \<and> mutex_free (wb_unprotected_objects b)"

lemma run_call_step:
  assumes "BINDING g = Some b" and "registries_free b"
  shows "\<exists>g' b'. run_call call g = Inr g' \<and> BINDING g' = Some b' \<and> registries_free b' \<and>
    candidates (weak_proc b') = candidates (weak_proc b) @ candidate_reports call \<and>
    registered (ppp_reg b') = registered (ppp_reg b) @ ppp_reports call \<and>
    mutex_data (wb_unprotected_objects b') =
      mutex_data (wb_unprotected_objects b) \<union> set (wb_reports call)"
proof (cases call)
  case (Add_candidate ob)
  then show ?thesis
    using assms candidate_registry.add_ok [of "weak_proc b" ob]
    by (auto simp: mmtk_add_obj_free_candidate_def with_binding_def binding_def registries_free_def)
next
  case (Add_candidates obs)
  then show ?thesis
    using assms candidate_registry.add_many_ok [of "weak_proc b" obs]
    by (auto simp: mmtk_add_obj_free_candidates_def with_binding_def binding_def registries_free_def)
next
  case (Register_ppp ob)
  then show ?thesis
    using assms ppp_registry.add_ok [of "ppp_reg b" ob]
    by (auto simp: mmtk_register_ppp_def with_binding_def binding_def registries_free_def)
next
  case (Register_ppps obs)
  then show ?thesis
    using assms ppp_registry.add_many_ok [of "ppp_reg b" obs]
    by (auto simp: mmtk_register_ppps_def with_binding_def binding_def registries_free_def)
next
  case (Register_wb_unprotected ob)
  then show ?thesis
    using assms
    by (simp add: mmtk_register_wb_unprotected_object_def with_binding_def binding_def
        registries_free_def register_wb_unprotected_object_def)
qed

section \<open>Properties\<close>

text \<open>
  No registration is lost: after any sequence of the registering calls, interleaved in any way, the
  candidates for \<open>obj_free\<close> and the PPPs are the earlier ones followed by all reported since, in order
  and with repetitions, and the WB-unprotected objects are exactly those reported.
\<close>

theorem mutator_calls_recorded:
  assumes "BINDING g = Some b" and "registries_free b"
  shows "\<exists>g' b'. fold_res run_call calls g = Inr g' \<and> BINDING g' = Some b' \<and> registries_free b' \<and>
    candidates (weak_proc b') = candidates (weak_proc b) @ concat (map candidate_reports calls) \<and>
    registered (ppp_reg b') = registered (ppp_reg b) @ concat (map ppp_reports calls) \<and>
    (\<forall>ob. mmtk_is_object_wb_unprotected ob g' = Inr (ob \<in> mutex_data (wb_unprotected_objects b) \<or>
       ob \<in> set (concat (map wb_reports calls))))"
proof -
  have "\<exists>g' b'. fold_res run_call calls g = Inr g' \<and> BINDING g' = Some b' \<and> registries_free b' \<and>
    candidates (weak_proc b') = candidates (weak_proc b) @ concat (map candidate_reports calls) \<and>
    registered (ppp_reg b') = registered (ppp_reg b) @ concat (map ppp_reports calls) \<and>
    mutex_data (wb_unprotected_objects b') =
      mutex_data (wb_unprotected_objects b) \<union> set (concat (map wb_reports calls))"
    using assms
  proof (induction calls arbitrary: g b)
    case Nil
    then show ?case by simp
  next
    case (Cons call calls)
    obtain g1 b1 where g1: "run_call call g = Inr g1" "BINDING g1 = Some b1" "registries_free b1"
      "candidates (weak_proc b1) = candidates (weak_proc b) @ candidate_reports call"
      "registered (ppp_reg b1) = registered (ppp_reg b) @ ppp_reports call"
      "mutex_data (wb_unprotected_objects b1) =
        mutex_data (wb_unprotected_objects b) \<union> set (wb_reports call)"
      using run_call_step [OF Cons.prems, of call] by blast
    from Cons.IH [OF g1(2,3)] g1 show ?case
      by (auto simp: Un_assoc)
  qed
  then show ?thesis
    by (fastforce simp: mmtk_is_object_wb_unprotected_def binding_def is_object_wb_unprotected_def
        registries_free_def)
qed

theorem mutator_calls_recorded_witness:
  "\<exists>g' b'. fold_res run_call [Add_candidate 8, Register_ppps [16, 24], Add_candidates [32, 8],
      Register_wb_unprotected 40] example_statics = Inr g' \<and> BINDING g' = Some b' \<and>
    candidates (weak_proc b') = [8, 32, 8] \<and> registered (ppp_reg b') = [16, 24] \<and>
    mmtk_is_object_wb_unprotected 40 g' = Inr True"
proof -
  have b: "BINDING example_statics = Some example_binding" "registries_free example_binding"
    by (simp_all add: example_statics_def registries_free_def weak_processor_new_def ppp_registry_new_def)
  show ?thesis
    using mutator_calls_recorded [OF b, of "[Add_candidate 8, Register_ppps [16, 24],
        Add_candidates [32, 8], Register_wb_unprotected 40]"]
    by (auto simp: candidates_def registered_def weak_processor_new_def ppp_registry_new_def
        simp del: fold_res.simps)
qed

text \<open>
  C40. Handing the candidates to C: the vector returned describes a buffer with all candidates, the
  binding has none left, freeing the vector gives the buffer back and leaves the other buffers alone,
  and freeing it again is undefined behaviour.
\<close>

theorem candidates_handed_over_and_freed:
  assumes "BINDING g = Some b" and "mutex_free (obj_free_candidates (weak_proc b))"
    and "place (candidates (weak_proc b)) = (p, c)" and "leaked p = None"
    and "length (candidates (weak_proc b)) \<le> unat c" "0 < c"
  shows "\<exists>raw g' b' leaked'. mmtk_get_all_obj_free_candidates place (g, leaked) = Inr (raw, g', leaked') \<and>
    BINDING g' = Some b' \<and> candidates (weak_proc b') = [] \<and>
    leaked' (ptr raw) = Some (candidates (weak_proc b), capa raw) \<and>
    unat (len raw) = length (candidates (weak_proc b)) \<and>
    mmtk_free_raw_vec_of_obj_ref raw leaked' = Inr leaked \<and>
    mmtk_free_raw_vec_of_obj_ref raw leaked = Inl (UB ''Vec::from_raw_parts: not an allocation'')"
proof -
  let ?v = "\<lparr>vec_ptr = p, vec_items = candidates (weak_proc b), vec_capa = c\<rparr>"
  obtain raw leaked' where raw: "from_vec ?v leaked = (raw, leaked')"
    by (cases "from_vec ?v leaked")
  have "vec_ok ?v leaked"
    using assms(4,5) by (simp add: vec_ok_def)
  then have i: "into_vec raw leaked' = Inr (?v, leaked)"
    using raw by (rule into_vec_from_vec)
  have capa: "capa raw \<noteq> 0" and ptr: "ptr raw = p"
    and at: "leaked' p = Some (candidates (weak_proc b), capa raw)"
    and len: "len raw = of_nat (length (candidates (weak_proc b)))"
    using raw assms(6) by (auto simp: from_vec_def)
  have "length (candidates (weak_proc b)) < 2 ^ 64"
    using assms(5) unat_usize_lt [of c] by linarith
  then have "unat (len raw) = length (candidates (weak_proc b))"
    by (simp add: len usize_simps)
  with i capa ptr at into_vec_twice [OF i capa] assms(1-3) raw show ?thesis
    by (auto simp: mmtk_get_all_obj_free_candidates_def binding_def get_all_obj_free_candidates_def
        candidates_def mmtk_free_raw_vec_of_obj_ref_def Let_def)
qed

theorem candidates_handed_over_and_freed_witness:
  "\<exists>raw g' leaked'. mmtk_get_all_obj_free_candidates (\<lambda>xs. (64, 4)) (example_statics\<lparr>BINDING :=
      Some (example_binding\<lparr>weak_proc := \<lparr>obj_free_candidates = mutex_new [8, 16]\<rparr>\<rparr>)\<rparr>, Map.empty) =
      Inr (raw, g', leaked') \<and>
    leaked' (ptr raw) = Some ([8, 16], capa raw) \<and>
    mmtk_free_raw_vec_of_obj_ref raw leaked' = Inr Map.empty"
  using candidates_handed_over_and_freed [of "example_statics\<lparr>BINDING :=
      Some (example_binding\<lparr>weak_proc := \<lparr>obj_free_candidates = mutex_new [8, 16]\<rparr>\<rparr>)\<rparr>"
      "example_binding\<lparr>weak_proc := \<lparr>obj_free_candidates = mutex_new [8, 16]\<rparr>\<rparr>"
      "\<lambda>xs. (64, 4)" 64 4 Map.empty]
  by (auto simp: candidates_def)

text \<open>
  The binding is initialised once: the first call installs the panic hook over the old one, sets the
  suffix size and the binding and consumes the builder; a second call with another builder panics, and
  one with the same builder is undefined behaviour.
\<close>

theorem binding_initialised_once:
  assumes "BINDING g = None" "GC_THREADS g = None" "bs p = Some builder"
  shows "\<exists>g' bs'. mmtk_init_binding env p opts (g, bs) = Inr (g', bs') \<and>
    binding g' = Inr (snd (ruby_binding_new env opts)) \<and> suffix_size g' = opt_suffix_size opts \<and>
    hook g' = Binding_hook (hook g) \<and> gc_threads g' = Inr {} \<and> bs' = bs(p := None) \<and>
    mmtk_init_binding env2 p opts2 (g', bs') = Inl (UB ''invalid MMTKBuilder pointer'') \<and>
    (\<forall>q. bs' q \<noteq> None \<longrightarrow>
       mmtk_init_binding env2 q opts2 (g', bs') = Inl (Panic ''Binding is already initialized''))"
  using assms
  by (auto simp: mmtk_init_binding_def with_builder_def set_panic_hook_def binding_def gc_threads_def
      ruby_binding_new_def Let_def)

theorem binding_initialised_once_witness:
  "\<exists>g' bs'. mmtk_init_binding Map.empty 8 example_options (statics_new,
      [8 \<mapsto> \<lparr>no_finalizer = True, gc_trigger = Default_trigger, plan = Immix\<rparr>]) = Inr (g', bs') \<and>
    suffix_size g' = 8 \<and> hook g' = Binding_hook Old_hook"
  using binding_initialised_once [of statics_new "[8 \<mapsto> \<lparr>no_finalizer = True,
      gc_trigger = Default_trigger, plan = Immix\<rparr>]" 8 "\<lparr>no_finalizer = True,
      gc_trigger = Default_trigger, plan = Immix\<rparr>" Map.empty example_options Map.empty
      example_options]
  by (auto simp: statics_new_def example_options_def)

text \<open>
  The logarithm of the valid-object-bit region size that C gets is the exponent of that size, for
  every power of two a \<open>usize\<close> can hold.
\<close>

theorem vo_bit_log_region_size:
  assumes "mc_vo_bit_region_size core = 2 ^ k" and "k < 64"
  shows "2 ^ unat (mmtk_get_vo_bit_log_region_size core) = mc_vo_bit_region_size core"
  using assms
  by (simp add: mmtk_get_vo_bit_log_region_size_def trailing_zeros_exp unat_of_nat_usize)

theorem vo_bit_log_region_size_witness:
  "(2 :: usize) ^ unat (mmtk_get_vo_bit_log_region_size example_core) = 8"
  using vo_bit_log_region_size [of example_core 3] by (simp add: example_core_def)

end
