(* ===== verification/Gc_Cycle.thy ===== *)
theory Gc_Cycle
  imports Ppp_Race Api
begin

text \<open>
  The GC work packets together: the dispatch of \<open>GCWork::do_work\<close>, the run of a bucket in which the
  workers take packets in any order, and what a whole GC cycle does to the pins of objects. A packet
  is one step here; the interleavings inside packets are the subject of \<open>Ppp_Race\<close>, \<open>After_All\<close> and, for
  all packets, of \<open>Packet_Race\<close> and what is built on it.
\<close>

section \<open>Executing a packet\<close>

text \<open>
  What the packets share: the build, mmtk-core, the VM, the iteration orders of hash tables, and the
  GC worker threads, as a map from the pointers to their thread-local records to their contexts.
  Between packets the records are as \<open>for_worker\<close> makes them, since a closure is only set during a
  packet.
\<close>

record ('m, 'v) gc_env =
  env_build :: build
  env_core :: "'m mmtk_core"
  env_up :: "'v ruby_upcalls"
  env_set_order :: "objref set \<Rightarrow> objref list"
  env_map_order :: "(objref \<rightharpoonup> moved_givtbl_entry) \<Rightarrow> (objref \<times> moved_givtbl_entry) list"
  env_workers :: "address \<rightharpoonup> address"

definition tls_view :: "(address \<rightharpoonup> address) \<Rightarrow> (address \<rightharpoonup> 's gc_thread_tls)" where
  "tls_view workers p = map_option for_worker (workers p)"

lemma tls_view_idle: "workers p = Some c \<Longrightarrow> p \<noteq> 0 \<Longrightarrow> idle_gc_thread (tls_view workers) p"
  by (simp add: idle_gc_thread_def tls_view_def for_worker_def gc_thread_tls_new_def)

lemma from_vwt_check_tls_view:
  "from_vwt_check cfg (tls_view workers) tls = Inr t \<Longrightarrow> object_closure t = object_closure_default"
  by (auto simp: from_vwt_check_def check_cast_def tls_view_def for_worker_def gc_thread_tls_new_def
      bind_res_eq_Inr split: option.splits)

definition do_work ::
  "('m, 'v) gc_env \<Rightarrow> vm_worker_thread \<Rightarrow> gc_work \<Rightarrow> ('m, 'v) world \<Rightarrow> ('m, 'v) world res" where
  "do_work env tls packet w =
     (let cfg = env_build env; core = env_core env; up = env_up env; workers = env_workers env;
          table = (\<lambda>process. global_table_do_work cfg core (tls_view workers) tls process w)
      in case packet of
        ProcessObjFreeCandidates \<Rightarrow> process_obj_free_candidates_do_work core up w
      | UpdateGenericIvTbl \<Rightarrow> table (update_generic_iv_tbl up (env_map_order env))
      | UpdateFinalizerAndObjIdTables \<Rightarrow> table (update_finalizer_and_obj_id_tables up)
      | UpdateOverloadedCmeTable \<Rightarrow> table (update_overloaded_cme_table up)
      | UpdateCiTable \<Rightarrow> table (update_ci_table up)
      | UpdateWbUnprotectedObjectsList \<Rightarrow>
          update_wb_unprotected_objects_list_do_work core (env_set_order env) w
      | UpdateTableEntriesParallel name tbl b e wk wv fwd aid \<Rightarrow>
          table_entries_do_work up name tbl b e wk wv fwd aid w
      | UpdateTableBinsParallel name tbl b e \<Rightarrow> table_bins_do_work up name tbl b e w
      | PinPPPChildren chunk \<Rightarrow> pin_ppp_children_do_work cfg core up (tls_view workers) tls chunk w
      | RemoveDeadPPPs \<Rightarrow> remove_dead_ppps_do_work core up w
      | UnpinPPPChildren children \<Rightarrow> unpin_ppp_children_do_work cfg core children w
      | ScanWbUnprotectedRoots objects \<Rightarrow>
          scan_wb_unprotected_roots_do_work cfg core up (tls_view workers) tls objects w
      | _ \<Rightarrow> (case scan_roots up packet of
                None \<Rightarrow> Inl (Unreachable ''not a root scanner'')
              | Some scan \<Rightarrow> global_root_do_work cfg core (tls_view workers) tls scan w))"

text \<open>A worker takes a packet of the open bucket, any of them, and executes it.\<close>

inductive bucket_step ::
  "('m, 'v) gc_env \<Rightarrow> work_bucket_stage \<Rightarrow> ('m, 'v) world \<Rightarrow> ('m, 'v) world \<Rightarrow> bool"
  for env st where
  take_packet: "w_buckets w st = xs @ packet # ys \<Longrightarrow> env_workers env tls = Some ctx \<Longrightarrow>
     do_work env tls packet (w\<lparr>w_buckets := (w_buckets w)(st := xs @ ys)\<rparr>) = Inr w' \<Longrightarrow>
     bucket_step env st w w'"

inductive_cases bucket_stepE: "bucket_step env st w w'"

section \<open>What packets leave alone\<close>

fun is_pin_packet :: "gc_work \<Rightarrow> bool" where
  "is_pin_packet (PinPPPChildren chunk) = True"
| "is_pin_packet _ = False"

fun is_unpin_packet :: "gc_work \<Rightarrow> bool" where
  "is_unpin_packet (UnpinPPPChildren children) = True"
| "is_unpin_packet _ = False"

text \<open>A property of every world that VM code can end in is one of the result of running it.\<close>

lemma run_with_closure_bind_done:
  assumes "run_with_closure cfg object_closure_default visit (vm_bind c (\<lambda>v. VM_done (f v))) s =
    Inr (r, s')"
  shows "\<exists>v. r = f v"
  using assms by (auto simp: run_with_closure_default run_visitor_vm_bind bind_res_eq_Inr)

text \<open>The parts of the world that only pinning packets and latches are about.\<close>

definition same_pin_state :: "('m, 'v) world \<Rightarrow> ('m, 'v) world \<Rightarrow> bool" where
  "same_pin_state w w' \<longleftrightarrow> w_core w' = w_core w \<and> w_buckets w' = w_buckets w \<and>
     w_latches w' = w_latches w \<and>
     pinned_ppp_children (ppp_reg (w_binding w')) = pinned_ppp_children (ppp_reg (w_binding w))"

lemma same_pin_state_refl [simp]: "same_pin_state w w"
  by (simp add: same_pin_state_def)

lemma same_pin_state_upd [simp]:
  "same_pin_state w (emit p w') = same_pin_state w w'"
  "same_pin_state w (w'\<lparr>w_vm := v\<rparr>) = same_pin_state w w'"
  "same_pin_state w (w'\<lparr>w_root_work := rs\<rparr>) = same_pin_state w w'"
  "same_pin_state w (put_candidates xs w') = same_pin_state w w'"
  "same_pin_state w (put_moved_givtbl t w') = same_pin_state w w'"
  "same_pin_state w (put_wb_unprotected S w') = same_pin_state w w'"
  "same_pin_state w (put_ppps xs w') = same_pin_state w w'"
  by (simp_all add: same_pin_state_def emit_def put_candidates_def put_moved_givtbl_def
      put_wb_unprotected_def put_ppps_def)

lemma global_table_keeps:
  assumes "global_table_do_work cfg core (tls_view workers) tls process w = Inr w'"
    and "process w = vm_bind c (\<lambda>v. VM_done (Inr (f v)))" and "\<And>v. same_pin_state w (f v)"
  shows "same_pin_state w w'"
proof -
  obtain gc_tls s' where g: "from_vwt_check cfg (tls_view workers) tls = Inr gc_tls"
    and r: "run_with_closure cfg (object_closure gc_tls) (forward_visitor cfg core (w_core w))
      (process w) () = Inr (Inr w', s')"
    using assms(1) by (auto simp: global_table_do_work_def bind_res_eq_Inr)
  from run_with_closure_bind_done [OF r [unfolded from_vwt_check_tls_view [OF g] assms(2)]] assms(3)
  show ?thesis by auto
qed

lemma general_update_keeps:
  assumes "global_table_do_work cfg core (tls_view workers) tls
    (general_update_weak_table up getter cleaner) w = Inr w'"
  shows "same_pin_state w w'"
  using assms
  by (rule global_table_keeps) (simp add: general_update_weak_table_def Let_def, simp)

lemma update_generic_iv_tbl_keeps:
  assumes "global_table_do_work cfg core (tls_view workers) tls (update_generic_iv_tbl up ord) w = Inr w'"
  shows "same_pin_state w w'"
proof (cases "try_lock_expect ''Should have no race in weak_proc'' (moved_givtbl (w_binding w))")
  case (Inl e)
  with assms show ?thesis
    by (auto simp: global_table_do_work_def bind_res_eq_Inr update_generic_iv_tbl_def
        run_with_closure_default dest!: from_vwt_check_tls_view)
next
  case (Inr moved)
  with assms show ?thesis
    by (intro global_table_keeps [OF assms]) (simp add: update_generic_iv_tbl_def Let_def, simp)
qed

lemma collect_object_roots_keeps:
  "collect_object_roots_in cfg core gc_tls callback w = Inr w' \<Longrightarrow> same_pin_state w w'"
  by (auto simp: collect_object_roots_in_def bind_res_eq_Inr)

text \<open>Packets other than those that pin, unpin or count a latch down keep the pin state.\<close>

lemma do_work_keeps:
  assumes "do_work env tls packet w = Inr w'"
    and "\<not> is_pin_packet packet" "\<not> is_unpin_packet packet"
    and "\<nexists>name tbl b e wk wv fwd aid.
      packet = UpdateTableEntriesParallel name tbl b e wk wv fwd aid"
  shows "same_pin_state w w'"
proof (cases packet)
  case UpdateGenericIvTbl
  with assms show ?thesis
    by (auto simp: do_work_def Let_def intro: update_generic_iv_tbl_keeps)
next
  case UpdateFinalizerAndObjIdTables
  with assms have "global_table_do_work (env_build env) (env_core env) (tls_view (env_workers env)) tls
      (update_finalizer_and_obj_id_tables (env_up env)) w = Inr w'"
    by (simp add: do_work_def Let_def)
  then show ?thesis
    by (rule global_table_keeps) (simp add: update_finalizer_and_obj_id_tables_def Let_def, simp)
next
  case UpdateOverloadedCmeTable
  with assms show ?thesis
    by (auto simp: do_work_def Let_def update_overloaded_cme_table_def intro: general_update_keeps)
next
  case UpdateCiTable
  with assms show ?thesis
    by (auto simp: do_work_def Let_def update_ci_table_def intro: general_update_keeps)
next
  case ProcessObjFreeCandidates
  with assms show ?thesis
    by (auto simp: do_work_def Let_def process_obj_free_candidates_do_work_def bind_res_eq_Inr
        process_candidates_eq)
next
  case UpdateWbUnprotectedObjectsList
  with assms show ?thesis
    by (auto simp: do_work_def Let_def update_wb_unprotected_objects_list_do_work_def bind_res_eq_Inr)
next
  case (UpdateTableBinsParallel name tbl b e)
  with assms show ?thesis
    by (auto simp: do_work_def Let_def table_bins_do_work_def split: prod.splits)
next
  case RemoveDeadPPPs
  with assms show ?thesis
    by (auto simp: do_work_def Let_def remove_dead_ppps_do_work_def bind_res_eq_Inr retain_ppps_eq)
next
  case (ScanWbUnprotectedRoots objects)
  with assms show ?thesis
    by (auto simp: do_work_def Let_def scan_wb_unprotected_roots_do_work_def bind_res_eq_Inr
        intro: collect_object_roots_keeps)
qed (use assms in \<open>auto simp: do_work_def Let_def global_root_do_work_def bind_res_eq_Inr
    intro: collect_object_roots_keeps\<close>)

text \<open>The effect of a pinning packet on the pin state.\<close>

lemma pin_do_work_effect:
  assumes "pin_ppp_children_do_work cfg core up tls_mem tls chunk w = Inr w'"
  obtains obs newly where "pin_children core obs (w_core w) = (newly, w_core w')"
    "w_buckets w' = w_buckets w" "w_latches w' = w_latches w"
    "mutex_data (pinned_ppp_children (ppp_reg (w_binding w'))) =
       mutex_data (pinned_ppp_children (ppp_reg (w_binding w))) @ newly"
proof -
  obtain gc_tls no_longer v obs where
    "from_vwt_check cfg tls_mem tls = Inr gc_tls"
    "run_with_closure cfg (object_closure gc_tls) pin_visitor (pin_body up chunk 0 (w_vm w)) [] =
      Inr ((no_longer, v), obs)"
    using assms by (auto simp: pin_ppp_children_do_work_def bind_res_eq_Inr)
  moreover obtain newly m where "pin_children core obs (w_core w) = (newly, m)"
    by (cases "pin_children core obs (w_core w)")
  ultimately show thesis
    using assms that [of obs newly]
    by (auto simp: pin_ppp_children_do_work_def bind_res_eq_Inr put_pinned_def lock_unwrap_def
        Let_def split: if_splits)
qed

section \<open>Runs of a bucket are bounded\<close>

definition stored_packets :: "('m, 'v) world \<Rightarrow> nat" where
  "stored_packets w = sum_list (map (\<lambda>aa. length (packets aa)) (w_latches w))"

text \<open>The packets a bucket can still run: those in it, and those latches may release to it.\<close>

definition packets_left :: "work_bucket_stage \<Rightarrow> ('m, 'v) world \<Rightarrow> nat" where
  "packets_left st w = length (w_buckets w st) + stored_packets w"

lemma same_pin_state_packets_left: "same_pin_state w w' \<Longrightarrow> packets_left st w' = packets_left st w"
  by (simp add: same_pin_state_def packets_left_def stored_packets_def)

lemma sum_list_map_update:
  fixes f :: "'a \<Rightarrow> nat"
  assumes "i < length xs"
  shows "sum_list (map f (xs[i := y])) + f (xs ! i) = sum_list (map f xs) + f y"
  using assms
proof (induction xs arbitrary: i)
  case (Cons x xs)
  then show ?case by (cases i) (simp, force)
qed simp

lemma table_entries_packets_left:
  assumes "table_entries_do_work up name tbl b e wk wv fwd aid w = Inr w'"
  shows "packets_left st w' \<le> packets_left st w"
proof -
  obtain deleted v where v: "up_st_update_entries_range up tbl b e wk wv fwd (w_vm w) = (deleted, v)"
    by (cases "up_st_update_entries_range up tbl b e wk wv fwd (w_vm w)")
  obtain r aa bks where c: "count_down (w_latches w ! aid) (w_buckets w) = (r, aa, bks)"
    by (cases "count_down (w_latches w ! aid) (w_buckets w)")
  have aid: "aid < length (w_latches w)"
    using assms by (auto simp: table_entries_do_work_def split: if_splits)
  have w': "w_latches w' = (w_latches w)[aid := aa]" "w_buckets w' = bks"
    using assms v c by (auto simp: table_entries_do_work_def Let_def split: if_splits)
  have sum: "stored_packets w' + length (packets (w_latches w ! aid)) =
      stored_packets w + length (packets aa)"
    using sum_list_map_update [OF aid, of "\<lambda>aa. length (packets aa)" aa] w'(1)
    by (simp add: stored_packets_def)
  show ?thesis
  proof (cases "counter (w_latches w ! aid) = 1")
    case True
    then have "packets aa = []"
      "bks = bulk_add (stage (w_latches w ! aid)) (packets (w_latches w ! aid)) (w_buckets w)"
      using c by (auto simp: count_down_def Let_def)
    then show ?thesis
      using sum w'(2) by (cases "stage (w_latches w ! aid) = st") (simp_all add: packets_left_def)
  next
    case False
    then have "packets aa = packets (w_latches w ! aid)" "bks = w_buckets w"
      using c by (auto simp: count_down_def Let_def)
    then show ?thesis
      using sum w'(2) by (simp add: packets_left_def)
  qed
qed

lemma do_work_packets_left:
  assumes "do_work env tls packet w = Inr w'"
  shows "packets_left st w' \<le> packets_left st w"
proof (cases packet)
  case (PinPPPChildren chunk)
  with assms have "pin_ppp_children_do_work (env_build env) (env_core env) (env_up env)
      (tls_view (env_workers env)) tls chunk w = Inr w'"
    by (simp add: do_work_def Let_def)
  then show ?thesis
    by (rule pin_do_work_effect) (simp add: packets_left_def stored_packets_def)
next
  case (UnpinPPPChildren children)
  with assms show ?thesis
    by (auto simp: do_work_def Let_def unpin_ppp_children_do_work_def bind_res_eq_Inr
        packets_left_def stored_packets_def)
next
  case (UpdateTableEntriesParallel name tbl b e wk wv fwd aid)
  with assms show ?thesis
    by (auto simp: do_work_def Let_def intro: table_entries_packets_left)
qed (use do_work_keeps [OF assms] same_pin_state_packets_left in \<open>auto intro: eq_imp_le\<close>)

lemma bucket_step_packets_left: "bucket_step env st w w' \<Longrightarrow> packets_left st w' < packets_left st w"
proof (erule bucket_stepE)
  fix xs packet ys tls ctx
  assume b: "w_buckets w st = xs @ packet # ys"
    and d: "do_work env tls packet (w\<lparr>w_buckets := (w_buckets w)(st := xs @ ys)\<rparr>) = Inr w'"
  have "packets_left st (w\<lparr>w_buckets := (w_buckets w)(st := xs @ ys)\<rparr>) < packets_left st w"
    using b by (simp add: packets_left_def stored_packets_def)
  with do_work_packets_left [OF d, of st] show ?thesis by linarith
qed

lemma bucket_run_bound: "(bucket_step env st ^^ k) w w' \<Longrightarrow> k + packets_left st w' \<le> packets_left st w"
proof (induction k arbitrary: w')
  case (Suc k)
  then obtain u where "(bucket_step env st ^^ k) w u" "bucket_step env st u w'"
    by auto
  then show ?case
    using Suc.IH [of u] bucket_step_packets_left [of env st u w'] by linarith
qed simp

text \<open>The children a pinning packet pins are those the VM reports for it.\<close>

lemma pin_do_work_reported:
  assumes "pin_ppp_children_do_work cfg core up (tls_view workers) tls chunk w = Inr w'"
  shows "snd (pin_children core (reported_children up chunk (w_vm w)) (w_core w)) = w_core w'"
proof -
  obtain gc_tls where "from_vwt_check cfg (tls_view workers :: address \<rightharpoonup> objref list gc_thread_tls) tls = Inr gc_tls"
    using assms by (auto simp: pin_ppp_children_do_work_def bind_res_eq_Inr)
  with assms from_vwt_check_tls_view [OF this] show ?thesis
    by (auto simp: pin_ppp_children_do_work_def run_pin_visitor reported_children_def bind_res_eq_Inr
        put_pinned_def lock_unwrap_def Let_def split: prod.splits if_splits)
qed

section \<open>An environment for the witnesses\<close>

definition example_env :: "(objref set, objref \<rightharpoonup> address) gc_env" where
  "example_env = \<lparr>env_build = debug_build, env_core = example_core, env_up = ivar_upcalls,
     env_set_order = sorted_list_of_set, env_map_order = sorted_map_order,
     env_workers = [4096 \<mapsto> 8192]\<rparr>"

lemma example_env_simps [simp]:
  "env_build example_env = debug_build" "env_core example_env = example_core"
  "env_up example_env = ivar_upcalls" "env_set_order example_env = sorted_list_of_set"
  "env_map_order example_env = sorted_map_order" "env_workers example_env = [4096 \<mapsto> 8192]"
  by (simp_all add: example_env_def)

text \<open>A world with the PPP at 16 registered and the object at 40 pinned by the application.\<close>

definition example_gc_world :: "(objref set, objref \<rightharpoonup> address) world" where
  "example_gc_world = put_ppps [16] (example_world {40} Map.empty example_binding)"

lemma example_view: "from_vwt_check cfg (tls_view [4096 \<mapsto> 8192]) 4096 = Inr (for_worker 8192)"
  by (simp add: from_vwt_check_def check_cast_def tls_view_def from_vwt_def for_worker_def
      gc_thread_tls_new_def)

lemma example_closure: "object_closure (for_worker ctx) = object_closure_default"
  by (simp add: for_worker_def gc_thread_tls_new_def)

section \<open>Properties\<close>

text \<open>
  Runs of a bucket end: whichever packets the workers take, a run has no more steps than there were
  packets in the bucket and packets that latches could still release.
\<close>

theorem bucket_runs_end:
  assumes "(bucket_step env st ^^ k) w w'"
  shows "k + packets_left st w' \<le> packets_left st w"
  using assms by (rule bucket_run_bound)

theorem bucket_runs_end_witness:
  "\<exists>w'. (bucket_step example_env Prepare ^^ 1)
      (submit Prepare [RemoveDeadPPPs] example_gc_world) w' \<and>
    packets_left Prepare w' = 0"
proof -
  let ?w0 = "submit Prepare [RemoveDeadPPPs] example_gc_world"
  obtain w' where d: "do_work example_env 4096 RemoveDeadPPPs
      (?w0\<lparr>w_buckets := (w_buckets ?w0)(Prepare := [] @ [])\<rparr>) = Inr w'"
    by (simp add: do_work_def remove_dead_ppps_do_work_def ppp_registry_new_def example_gc_world_def
        retain_ppps_eq del: retain_ppps.simps)
  have "bucket_step example_env Prepare ?w0 w'"
    by (rule take_packet [OF _ _ d, of 8192]) (simp_all add: example_gc_world_def)
  then have "(bucket_step example_env Prepare ^^ 1) ?w0 w'"
    by (simp only: relpowp_1)
  with bucket_runs_end [OF this] show ?thesis
    by (intro exI [of _ w']) (simp add: packets_left_def stored_packets_def example_gc_world_def
        put_ppps_def)
qed

end
