(* ===== verification/Pin_Cycle.thy ===== *)
theory Pin_Cycle
  imports Gc_Cycle
begin

text \<open>
  A whole GC cycle as mmtk-core drives it through the callbacks of the binding, and its effect on
  pinning: objects pinned for the sake of PPPs are unpinned again, no other pin is lost, and the
  registry is ready for the next cycle.
\<close>

section \<open>Running a bucket to its end\<close>

text \<open>One worker draining a bucket in order; fuel bounds the number of packets.\<close>

fun run_bucket ::
  "nat \<Rightarrow> ('m, 'v) gc_env \<Rightarrow> vm_worker_thread \<Rightarrow> work_bucket_stage \<Rightarrow>
   ('m, 'v) world \<Rightarrow> ('m, 'v) world res" where
  "run_bucket 0 env tls st w =
     (if w_buckets w st = [] then Inr w else Inl (Panic ''out of fuel''))"
| "run_bucket (Suc n) env tls st w =
     (case w_buckets w st of
        [] \<Rightarrow> Inr w
      | packet # ps \<Rightarrow>
          bind_res (do_work env tls packet (w\<lparr>w_buckets := (w_buckets w)(st := ps)\<rparr>))
            (run_bucket n env tls st))"

lemma run_bucket_steps:
  assumes "env_workers env tls = Some ctx" and "run_bucket n env tls st w = Inr w'"
  shows "(bucket_step env st)\<^sup>*\<^sup>* w w' \<and> w_buckets w' st = []"
  using assms(2)
proof (induction n arbitrary: w)
  case 0
  then show ?case by (auto split: if_splits)
next
  case (Suc n)
  show ?case
  proof (cases "w_buckets w st")
    case Nil
    with Suc.prems show ?thesis by auto
  next
    case (Cons packet ps)
    with Suc.prems obtain w1 where
      w1: "do_work env tls packet (w\<lparr>w_buckets := (w_buckets w)(st := ps)\<rparr>) = Inr w1"
      "run_bucket n env tls st w1 = Inr w'"
      by (auto simp: bind_res_eq_Inr)
    then have "bucket_step env st w w1"
      using Cons assms(1) by (intro take_packet [of w st "[]" packet ps]) simp_all
    with Suc.IH [OF w1(2)] show ?thesis by (auto intro: converse_rtranclp_into_rtranclp)
  qed
qed

text \<open>Fuel for the packets left is enough: the run ends with the bucket empty, or in a panic of a packet.\<close>

lemma run_bucket_enough:
  assumes "packets_left st w \<le> n" and "run_bucket n env tls st w = Inl e"
  shows "\<exists>packet w1. do_work env tls packet w1 = Inl e"
  using assms
proof (induction n arbitrary: w)
  case 0
  then show ?case by (simp add: packets_left_def)
next
  case (Suc n)
  show ?case
  proof (cases "w_buckets w st")
    case Nil
    with Suc.prems show ?thesis by simp
  next
    case (Cons packet ps)
    let ?w = "w\<lparr>w_buckets := (w_buckets w)(st := ps)\<rparr>"
    have less: "packets_left st ?w \<le> n"
      using Cons Suc.prems(1) by (simp add: packets_left_def stored_packets_def)
    consider "do_work env tls packet ?w = Inl e"
      | w1 where "do_work env tls packet ?w = Inr w1" "run_bucket n env tls st w1 = Inl e"
      using Suc.prems(2) Cons by (auto simp: bind_res_eq_Inl)
    then show ?thesis
    proof cases
      case (2 w1)
      then have "packets_left st w1 \<le> n"
        using do_work_packets_left [of env tls packet ?w w1 st] less by linarith
      with 2 Suc.IH show ?thesis by blast
    qed blast
  qed
qed

section \<open>The preparation of a GC\<close>

text \<open>
  Between \<open>stop_all_mutators\<close> and tracing, mmtk-core runs the packets of the Prepare bucket and calls
  \<open>scan_vm_specific_roots\<close> and \<open>scan_roots_in_mutator_thread\<close>, in any order.
\<close>

inductive prepare_step :: "('m, 'v) gc_env \<Rightarrow> ('m, 'v) world \<Rightarrow> ('m, 'v) world \<Rightarrow> bool" for env where
  prepare_packet: "bucket_step env Prepare w w' \<Longrightarrow> prepare_step env w w'"
| prepare_vm_roots: "scan_vm_specific_roots (env_build env) (env_core env) (env_set_order env)
     (tls_view (env_workers env)) tls w = Inr w' \<Longrightarrow> prepare_step env w w'"
| prepare_mutator: "scan_roots_in_mutator_thread (env_build env) (env_core env) (env_up env)
     (tls_view (env_workers env)) tls mutator_tls w = Inr w' \<Longrightarrow> prepare_step env w w'"

definition pinned_list :: "('m, 'v) world \<Rightarrow> objref list" where
  "pinned_list w = mutex_data (pinned_ppp_children (ppp_reg (w_binding w)))"

text \<open>Nothing waits in a latch but packets that release pins neither way, for the closing bucket.\<close>

definition latches_ok :: "('m, 'v) world \<Rightarrow> bool" where
  "latches_ok w \<longleftrightarrow> (\<forall>aa \<in> set (w_latches w). stage aa = VMRefClosure \<and>
     (\<forall>p \<in> set (packets aa). \<not> is_pin_packet p \<and> \<not> is_unpin_packet p))"

fun prepare_packet_ok :: "gc_work \<Rightarrow> bool" where
  "prepare_packet_ok (PinPPPChildren chunk) = True"
| "prepare_packet_ok (ScanWbUnprotectedRoots objects) = True"
| "prepare_packet_ok packet = (packet \<in> set global_root_scanners)"

text \<open>
  \<open>P\<close> is what was pinned when the cycle began. While \<open>moving\<close> is false there are no pinning packets.
\<close>

definition prepare_inv :: "('m \<Rightarrow> objref set) \<Rightarrow> objref set \<Rightarrow> bool \<Rightarrow> ('m, 'v) world \<Rightarrow> bool" where
  "prepare_inv pinned P moving w \<longleftrightarrow>
     distinct (pinned_list w) \<and> set (pinned_list w) \<inter> P = {} \<and>
     pinned (w_core w) = P \<union> set (pinned_list w) \<and>
     w_buckets w VMRefClosure = [] \<and> latches_ok w \<and>
     (\<forall>p \<in> set (w_buckets w Prepare). prepare_packet_ok p \<and> (is_pin_packet p \<longrightarrow> moving)) \<and>
     (\<not> moving \<longrightarrow> pinned_list w = [])"

lemma same_pin_state_lists:
  "same_pin_state w w' \<Longrightarrow> pinned_list w' = pinned_list w \<and> w_core w' = w_core w \<and>
     w_buckets w' = w_buckets w \<and> w_latches w' = w_latches w"
  by (simp add: same_pin_state_def pinned_list_def)

lemma prepare_inv_same:
  "same_pin_state w w' \<Longrightarrow> prepare_inv pinned P moving w \<Longrightarrow> prepare_inv pinned P moving w'"
  using same_pin_state_lists [of w w'] by (simp add: prepare_inv_def latches_ok_def)

lemma prepare_inv_drop:
  assumes "prepare_inv pinned P moving w" "w_buckets w Prepare = xs @ packet # ys"
  shows "prepare_inv pinned P moving (w\<lparr>w_buckets := (w_buckets w)(Prepare := xs @ ys)\<rparr>)"
  using assms by (auto simp: prepare_inv_def pinned_list_def latches_ok_def)

lemma prepare_inv_submit:
  assumes "prepare_inv pinned P moving w" "\<forall>p \<in> set ps. prepare_packet_ok p \<and> \<not> is_pin_packet p"
  shows "prepare_inv pinned P moving (submit Prepare ps w)"
  using assms by (auto simp: prepare_inv_def pinned_list_def latches_ok_def)

lemma prepare_packet_keeps:
  assumes "do_work env tls packet w = Inr w'" "prepare_packet_ok packet" "\<not> is_pin_packet packet"
  shows "same_pin_state w w'"
  using assms(1,3)
proof (rule do_work_keeps)
  show "\<not> is_unpin_packet packet"
    using assms(2) by (cases packet) (auto simp: global_root_scanners_def)
  show "\<nexists>name tbl b e wk wv fwd aid. packet = UpdateTableEntriesParallel name tbl b e wk wv fwd aid"
    using assms(2) by (auto simp: global_root_scanners_def)
qed

lemma prepare_packet_inv:
  assumes c: "pin_contract (env_core env) pinned"
    and d: "do_work env tls packet w = Inr w'"
    and inv: "prepare_inv pinned P moving w"
    and p: "prepare_packet_ok packet" "is_pin_packet packet \<longrightarrow> moving"
  shows "prepare_inv pinned P moving w'"
proof (cases "is_pin_packet packet")
  case True
  then obtain chunk where chunk: "packet = PinPPPChildren chunk"
    by (cases packet) auto
  with d have "pin_ppp_children_do_work (env_build env) (env_core env) (env_up env)
      (tls_view (env_workers env)) tls chunk w = Inr w'"
    by (simp add: do_work_def Let_def)
  then obtain obs newly where o: "pin_children (env_core env) obs (w_core w) = (newly, w_core w')"
    "w_buckets w' = w_buckets w" "w_latches w' = w_latches w"
    "pinned_list w' = pinned_list w @ newly"
    unfolding pinned_list_def by (rule pin_do_work_effect)
  have "pinned (w_core w') = pinned (w_core w) \<union> set obs \<and> distinct newly \<and>
      set newly = set obs - pinned (w_core w)"
    using c o(1) by (rule pin_children_contract)
  then show ?thesis
    using inv o True p(2) by (auto simp: prepare_inv_def latches_ok_def)
next
  case False
  have "same_pin_state w w'"
    using d p(1) False by (rule prepare_packet_keeps)
  then show ?thesis using inv by (rule prepare_inv_same)
qed

lemma scan_vm_specific_roots_inv:
  assumes "scan_vm_specific_roots cfg core ord tls_mem tls w = Inr w'" "prepare_inv pinned P moving w"
  shows "prepare_inv pinned P moving w'"
proof -
  have g: "prepare_inv pinned P moving (submit Prepare global_root_scanners w)"
    using assms(2) by (rule prepare_inv_submit) (auto simp: global_root_scanners_def)
  consider "w' = submit Prepare global_root_scanners w"
    | obs where "w' = submit Prepare (map ScanWbUnprotectedRoots obs)
        (submit Prepare global_root_scanners w)"
    using assms(1) by (auto simp: scan_vm_specific_roots_def bind_res_eq_Inr Let_def split: if_splits)
  then show ?thesis
  proof cases
    case (2 obs)
    then show ?thesis using prepare_inv_submit [OF g, of "map ScanWbUnprotectedRoots obs"] by auto
  qed (simp add: g)
qed

lemma prepare_step_inv:
  assumes c: "pin_contract (env_core env) pinned"
    and "prepare_step env w w'" and inv: "prepare_inv pinned P moving w"
  shows "prepare_inv pinned P moving w'"
  using assms(2)
proof cases
  case prepare_packet
  then obtain xs packet ys tls where b: "w_buckets w Prepare = xs @ packet # ys"
    and d: "do_work env tls packet (w\<lparr>w_buckets := (w_buckets w)(Prepare := xs @ ys)\<rparr>) = Inr w'"
    by (auto elim: bucket_stepE)
  have "packet \<in> set (w_buckets w Prepare)"
    using b by simp
  then have "prepare_packet_ok packet" "is_pin_packet packet \<longrightarrow> moving"
    using inv unfolding prepare_inv_def by blast+
  then show ?thesis
    using prepare_packet_inv [OF c d prepare_inv_drop [OF inv b]] by blast
next
  case (prepare_vm_roots tls)
  then show ?thesis using inv by (rule scan_vm_specific_roots_inv)
next
  case (prepare_mutator tls mutator_tls)
  then have "same_pin_state w w'"
    by (auto simp: scan_roots_in_mutator_thread_def bind_res_eq_Inr intro: collect_object_roots_keeps)
  then show ?thesis using inv by (rule prepare_inv_same)
qed

lemma prepare_run_inv:
  assumes "pin_contract (env_core env) pinned"
    and "(prepare_step env)\<^sup>*\<^sup>* w w'" and "prepare_inv pinned P moving w"
  shows "prepare_inv pinned P moving w'"
  using assms(2,3) by (induction rule: rtranclp_induct) (auto intro: prepare_step_inv [OF assms(1)])

section \<open>The closing phase\<close>

text \<open>
  In the closing bucket there is the one packet that unpins, until it has run; no packet pins.
\<close>

definition closing_inv :: "('m \<Rightarrow> objref set) \<Rightarrow> objref set \<Rightarrow> ('m, 'v) world \<Rightarrow> bool" where
  "closing_inv pinned P w \<longleftrightarrow>
     pinned_list w = [] \<and> w_buckets w Prepare = [] \<and> latches_ok w \<and>
     (\<forall>p \<in> set (w_buckets w VMRefClosure). \<not> is_pin_packet p) \<and>
     ((\<exists>xs. filter is_unpin_packet (w_buckets w VMRefClosure) = [UnpinPPPChildren xs] \<and>
        distinct xs \<and> set xs \<inter> P = {} \<and> pinned (w_core w) = P \<union> set xs) \<or>
      (filter is_unpin_packet (w_buckets w VMRefClosure) = [] \<and> pinned (w_core w) = P))"

lemma latches_ok_release:
  assumes "latches_ok w" and "aid < length (w_latches w)"
    and "count_down (w_latches w ! aid) (w_buckets w) = (r, aa, bks)"
  shows "\<exists>ps. bks = bulk_add VMRefClosure ps (w_buckets w) \<and>
      (\<forall>p \<in> set ps. \<not> is_pin_packet p \<and> \<not> is_unpin_packet p)"
    and "latches_ok (w\<lparr>w_latches := (w_latches w)[aid := aa]\<rparr>)"
proof -
  have a: "stage (w_latches w ! aid) = VMRefClosure"
    "\<forall>p \<in> set (packets (w_latches w ! aid)). \<not> is_pin_packet p \<and> \<not> is_unpin_packet p"
    using assms(1,2) nth_mem unfolding latches_ok_def by blast+
  show "\<exists>ps. bks = bulk_add VMRefClosure ps (w_buckets w) \<and>
      (\<forall>p \<in> set ps. \<not> is_pin_packet p \<and> \<not> is_unpin_packet p)"
  proof (cases "counter (w_latches w ! aid) = 1")
    case True
    then show ?thesis using assms(3) a by (auto simp: count_down_def Let_def)
  next
    case False
    then show ?thesis
      using assms(3) by (intro exI [of _ "[]"]) (auto simp: count_down_def Let_def)
  qed
  have "stage aa = VMRefClosure \<and> (\<forall>p \<in> set (packets aa). \<not> is_pin_packet p \<and> \<not> is_unpin_packet p)"
    using assms(3) a by (auto simp: count_down_def Let_def split: if_splits)
  then show "latches_ok (w\<lparr>w_latches := (w_latches w)[aid := aa]\<rparr>)"
    using assms(1) by (auto simp: latches_ok_def dest!: set_update_subset_insert [THEN subsetD])
qed

lemma closing_entries_inv:
  assumes "table_entries_do_work up name tbl b e wk wv fwd aid w = Inr w'"
    and inv: "closing_inv pinned P w"
  shows "closing_inv pinned P w'"
proof -
  obtain deleted v where v: "up_st_update_entries_range up tbl b e wk wv fwd (w_vm w) = (deleted, v)"
    by (cases "up_st_update_entries_range up tbl b e wk wv fwd (w_vm w)")
  obtain r aa bks where c: "count_down (w_latches w ! aid) (w_buckets w) = (r, aa, bks)"
    by (cases "count_down (w_latches w ! aid) (w_buckets w)")
  have aid: "aid < length (w_latches w)"
    using assms(1) by (auto simp: table_entries_do_work_def split: if_splits)
  have w': "w_latches w' = (w_latches w)[aid := aa]" "w_buckets w' = bks" "w_core w' = w_core w"
    "pinned_list w' = pinned_list w"
    using assms(1) v c
    by (auto simp: table_entries_do_work_def Let_def pinned_list_def split: if_splits)
  have l: "latches_ok w" using inv by (simp add: closing_inv_def)
  obtain ps where ps: "bks = bulk_add VMRefClosure ps (w_buckets w)"
    "\<forall>p \<in> set ps. \<not> is_pin_packet p \<and> \<not> is_unpin_packet p"
    using latches_ok_release(1) [OF l aid c] by blast
  then have f: "filter is_unpin_packet ps = []"
    by (simp add: filter_empty_conv)
  have "latches_ok w'"
    using latches_ok_release(2) [OF l aid c] w'(1) by (simp add: latches_ok_def)
  then show ?thesis
    using inv w' ps f by (auto simp: closing_inv_def)
qed

lemma closing_unpin_inv:
  assumes c: "pin_contract core pinned"
    and "unpin_ppp_children_do_work cfg core xs (w\<lparr>w_buckets := (w_buckets w)(VMRefClosure := b)\<rparr>) = Inr w'"
    and inv: "closing_inv pinned P w"
    and b: "w_buckets w VMRefClosure = b1 @ UnpinPPPChildren xs # b2" "b = b1 @ b2"
  shows "closing_inv pinned P w'"
proof -
  have f: "filter is_unpin_packet b1 = []" "filter is_unpin_packet b2 = []"
    and xs: "distinct xs" "set xs \<inter> P = {}" "pinned (w_core w) = P \<union> set xs"
    using inv b(1) by (auto simp: closing_inv_def append_eq_Cons_conv)
  obtain m where m: "unpin_children cfg core xs (w_core w) = Inr m" "pinned m = P"
    using unpin_children_restores [OF c xs(1), of "w_core w" cfg] xs by auto
  then have "w' = emit (Probe_unpin_ppp_children (length xs))
      (w\<lparr>w_buckets := (w_buckets w)(VMRefClosure := b), w_core := m\<rparr>)"
    using assms(2) by (simp add: unpin_ppp_children_do_work_def)
  then show ?thesis
    using inv b f m(2) by (auto simp: closing_inv_def pinned_list_def latches_ok_def)
qed

lemma closing_step_inv:
  assumes c: "pin_contract (env_core env) pinned"
    and "bucket_step env VMRefClosure w w'" and inv: "closing_inv pinned P w"
  shows "closing_inv pinned P w'"
proof -
  obtain xs packet ys tls where b: "w_buckets w VMRefClosure = xs @ packet # ys"
    and d: "do_work env tls packet (w\<lparr>w_buckets := (w_buckets w)(VMRefClosure := xs @ ys)\<rparr>) = Inr w'"
    using assms(2) by (auto elim: bucket_stepE)
  let ?w = "w\<lparr>w_buckets := (w_buckets w)(VMRefClosure := xs @ ys)\<rparr>"
  show ?thesis
  proof (cases "is_unpin_packet packet")
    case True
    then obtain children where p: "packet = UnpinPPPChildren children"
      by (cases packet) auto
    with d have "unpin_ppp_children_do_work (env_build env) (env_core env) children ?w = Inr w'"
      by (simp add: do_work_def Let_def)
    then show ?thesis
      using closing_unpin_inv [OF c _ inv] b p by blast
  next
    case False
    have drop: "closing_inv pinned P ?w"
      using inv b False by (auto simp: closing_inv_def pinned_list_def latches_ok_def)
    have np: "\<not> is_pin_packet packet"
      using inv b by (simp add: closing_inv_def)
    show ?thesis
    proof (cases "\<exists>name tbl b e wk wv fwd aid.
        packet = UpdateTableEntriesParallel name tbl b e wk wv fwd aid")
      case True
      then obtain name tbl b e wk wv fwd aid where
        p: "packet = UpdateTableEntriesParallel name tbl b e wk wv fwd aid" by blast
      with d have "table_entries_do_work (env_up env) name tbl b e wk wv fwd aid ?w = Inr w'"
        by (simp add: do_work_def Let_def)
      then show ?thesis using drop by (rule closing_entries_inv)
    next
      case ne: False
      have "same_pin_state ?w w'"
        using d np False ne by (rule do_work_keeps)
      then show ?thesis
        using drop same_pin_state_lists [of ?w w'] by (simp add: closing_inv_def latches_ok_def)
    qed
  qed
qed

lemma closing_run_inv:
  assumes "pin_contract (env_core env) pinned"
    and "(bucket_step env VMRefClosure)\<^sup>*\<^sup>* w w'" and "closing_inv pinned P w"
  shows "closing_inv pinned P w'"
  using assms(2,3) by (induction rule: rtranclp_induct) (auto intro: closing_step_inv [OF assms(1)])

section \<open>process_weak_refs opens the closing phase\<close>

lemma process_weak_table_chunked_effect:
  assumes "process_weak_table_chunked cfg up name table wk wv fwd w = Inr w'" and "latches_ok w"
  shows "\<exists>ps. w_buckets w' = bulk_add VMRefClosure ps (w_buckets w) \<and>
      (\<forall>p \<in> set ps. \<not> is_pin_packet p \<and> \<not> is_unpin_packet p) \<and>
      latches_ok w' \<and> w_core w' = w_core w \<and> w_binding w' = w_binding w"
proof -
  obtain entries bins es eb bn n where
    "w' = submit VMRefClosure (map (entries_packet name table wk wv fwd (length (w_latches w))) entries)
      (emit (Probe_initial_weak_table_stats es eb bn n name) w\<lparr>w_latches := w_latches w @
        [\<lparr>counter = of_nat (length entries), stage = VMRefClosure,
          packets = map (bins_packet name table) bins\<rparr>]\<rparr>)"
    using assms(1) by (rule process_weak_table_chunked_result)
  then show ?thesis
    using assms(2)
    by (intro exI [of _ "map (entries_packet name table wk wv fwd (length (w_latches w))) entries"])
      (auto simp: latches_ok_def entries_packet_def bins_packet_def split: prod.splits)
qed

lemma process_weak_stuff_effect:
  assumes "process_weak_stuff cfg core up w = Inr w'" and "latches_ok w"
  obtains ps where "w_buckets w' = bulk_add VMRefClosure ps (w_buckets w)"
    "\<forall>p \<in> set ps. \<not> is_pin_packet p \<and> \<not> is_unpin_packet p"
    "latches_ok w'" "w_core w' = w_core w" "w_binding w' = w_binding w"
proof -
  let ?w2 = "submit VMRefClosure weak_packets (submit VMRefClosure [ProcessObjFreeCandidates] w)"
  obtain w3 n1 t1 f1 n2 t2 f2 where
    w3: "process_weak_table_chunked cfg up n1 t1 True False f1 ?w2 = Inr w3"
    and w4: "process_weak_table_chunked cfg up n2 t2 False True f2 w3 = Inr w'"
    using assms(1) by (auto simp: process_weak_stuff_def Let_def bind_res_eq_Inr)
  have l: "latches_ok ?w2"
    using assms(2) by (simp add: latches_ok_def)
  obtain ps where ps: "w_buckets w3 = bulk_add VMRefClosure ps (w_buckets ?w2)"
    "\<forall>p \<in> set ps. \<not> is_pin_packet p \<and> \<not> is_unpin_packet p" "latches_ok w3"
    "w_core w3 = w_core w" "w_binding w3 = w_binding w"
    using process_weak_table_chunked_effect [OF w3 l] by auto
  obtain qs where qs: "w_buckets w' = bulk_add VMRefClosure qs (w_buckets w3)"
    "\<forall>p \<in> set qs. \<not> is_pin_packet p \<and> \<not> is_unpin_packet p" "latches_ok w'"
    "w_core w' = w_core w3" "w_binding w' = w_binding w3"
    using process_weak_table_chunked_effect [OF w4 ps(3)] by auto
  show thesis
    by (rule that [of "[ProcessObjFreeCandidates] @ weak_packets @ ps @ qs"])
      (use ps qs in \<open>auto simp: bulk_add_bulk_add weak_packets_def\<close>)
qed

text \<open>
  Tracing is mmtk-core's work, with the callbacks of the object model and of scanning: it moves and
  marks objects, and \<open>trace\<close> relates the worlds before and after. Of the documented behaviour the
  result needs that it neither pins nor unpins objects, that the answer whether the current GC may
  move objects stays the same during a GC, and that it leaves the closing bucket alone.
\<close>

definition trace_keeps_pins ::
  "'m mmtk_core \<Rightarrow> ('m \<Rightarrow> objref set) \<Rightarrow> (('m, 'v) world \<Rightarrow> ('m, 'v) world \<Rightarrow> bool) \<Rightarrow> bool" where
  "trace_keeps_pins core pinned trace \<longleftrightarrow>
     (\<forall>w w'. trace w w' \<longrightarrow>
        pinned (w_core w') = pinned (w_core w) \<and>
        pinned_ppp_children (ppp_reg (w_binding w')) = pinned_ppp_children (ppp_reg (w_binding w)) \<and>
        w_buckets w' = w_buckets w \<and> w_latches w' = w_latches w)"

definition gc_mode :: "'m mmtk_core \<Rightarrow> ('m, 'v) world \<Rightarrow> bool" where
  "gc_mode core w = mc_current_gc_may_move_object core (w_core w)"

text \<open>One GC cycle, from stopping the mutators to the end of the closing bucket.\<close>

inductive gc_cycle ::
  "('m, 'v) gc_env \<Rightarrow> (('m, 'v) world \<Rightarrow> ('m, 'v) world \<Rightarrow> bool) \<Rightarrow>
   ('m, 'v) world \<Rightarrow> ('m, 'v) world \<Rightarrow> bool" for env trace where
  cycle: "stop_all_mutators (env_build env) (env_core env) (env_up env)
      (tls_view (env_workers env) :: address \<rightharpoonup> unit gc_thread_tls) tls visitor (f :: address list) w0 =
      Inr (f', w1) \<Longrightarrow>
    (prepare_step env)\<^sup>*\<^sup>* w1 w2 \<Longrightarrow> w_buckets w2 Prepare = [] \<Longrightarrow>
    trace w2 w3 \<Longrightarrow> gc_mode (env_core env) w3 = gc_mode (env_core env) w0 \<Longrightarrow>
    process_weak_refs (env_build env) (env_core env) (env_up env) w3 = Inr (again, w4) \<Longrightarrow>
    (bucket_step env VMRefClosure)\<^sup>*\<^sup>* w4 w5 \<Longrightarrow> w_buckets w5 VMRefClosure = [] \<Longrightarrow>
    gc_cycle env trace w0 w5"

text \<open>The state between cycles.\<close>

definition quiescent :: "('m, 'v) world \<Rightarrow> bool" where
  "quiescent w \<longleftrightarrow> pinned_list w = [] \<and> w_buckets w Prepare = [] \<and>
     w_buckets w VMRefClosure = [] \<and> latches_ok w"

lemma stop_all_mutators_inv:
  assumes "stop_all_mutators cfg core up tls_mem tls visitor f w0 = Inr (f', w1)" and "quiescent w0"
  shows "prepare_inv pinned (pinned (w_core w0)) (gc_mode core w0) w1"
proof -
  let ?w = "w0\<lparr>w_vm := up_stop_the_world up tls (w_vm w0)\<rparr>"
  have "w1 = ?w \<or> (gc_mode core w0 \<and> (\<exists>chunks. w1 = submit Prepare (map PinPPPChildren chunks) ?w))"
    using assms(1)
    by (auto simp: stop_all_mutators_def pin_ppp_children_def bind_res_eq_Inr gc_mode_def
        split: if_splits)
  then show ?thesis
    using assms(2) by (auto simp: prepare_inv_def quiescent_def pinned_list_def latches_ok_def)
qed

lemma cleanup_ppps_closing:
  assumes "process_weak_refs cfg core up w = Inr (again, w')"
    and inv: "prepare_inv pinned P (gc_mode core w) w" and e: "w_buckets w Prepare = []"
  shows "closing_inv pinned P w'"
proof -
  obtain w1 where w1: "process_weak_stuff cfg core up w = Inr w1" "cleanup_ppps cfg core w1 = Inr w'"
    using assms(1) by (auto simp: process_weak_refs_def bind_res_eq_Inr)
  have "latches_ok w" using inv by (simp add: prepare_inv_def)
  with w1(1) obtain ps where ps: "w_buckets w1 = bulk_add VMRefClosure ps (w_buckets w)"
    "\<forall>p \<in> set ps. \<not> is_pin_packet p \<and> \<not> is_unpin_packet p"
    "latches_ok w1" "w_core w1 = w_core w" "w_binding w1 = w_binding w"
    by (rule process_weak_stuff_effect)
  have f: "filter is_unpin_packet ps = []"
    using ps(2) by (simp add: filter_empty_conv)
  have vb: "w_buckets w VMRefClosure = []"
    using inv by (simp add: prepare_inv_def)
  show ?thesis
  proof (cases "gc_mode core w")
    case True
    then have "w' = submit VMRefClosure [UnpinPPPChildren (pinned_list w)]
        (put_pinned [] (submit VMRefClosure [RemoveDeadPPPs] w1))"
      using w1(2) ps(4,5)
      by (auto simp: cleanup_ppps_def Let_def gc_mode_def bind_res_eq_Inr try_lock_expect_Inr
          pinned_list_def)
    then show ?thesis
      using inv e ps f vb
      by (auto simp: closing_inv_def prepare_inv_def latches_ok_def pinned_list_def put_pinned_def)
  next
    case False
    then have "w' = submit VMRefClosure [RemoveDeadPPPs] w1"
      using w1(2) ps(4)
      by (auto simp: cleanup_ppps_def Let_def gc_mode_def bind_res_eq_Inr split: if_splits)
    then show ?thesis
      using inv e ps f vb False
      by (auto simp: closing_inv_def prepare_inv_def latches_ok_def pinned_list_def)
  qed
qed

lemma gc_cycle_pins:
  assumes c: "pin_contract (env_core env) pinned"
    and t: "trace_keeps_pins (env_core env) pinned trace"
    and "gc_cycle env trace w0 w5" and q: "quiescent w0"
  shows "pinned (w_core w5) = pinned (w_core w0) \<and> quiescent w5"
  using assms(3)
proof cases
  case (cycle tls visitor f f' w1 w2 w3 again w4)
  have "prepare_inv pinned (pinned (w_core w0)) (gc_mode (env_core env) w0) w1"
    using cycle(1) q by (rule stop_all_mutators_inv)
  with c cycle(2) have "prepare_inv pinned (pinned (w_core w0)) (gc_mode (env_core env) w0) w2"
    by (rule prepare_run_inv)
  then have "prepare_inv pinned (pinned (w_core w0)) (gc_mode (env_core env) w3) w3"
    "w_buckets w3 Prepare = []"
    using t cycle(3,4,5)
    by (auto simp: trace_keeps_pins_def prepare_inv_def pinned_list_def latches_ok_def)
  with cycle(6) have "closing_inv pinned (pinned (w_core w0)) w4"
    by (rule cleanup_ppps_closing)
  with c cycle(7) have "closing_inv pinned (pinned (w_core w0)) w5"
    by (rule closing_run_inv)
  then show ?thesis
    using cycle(8) by (auto simp: closing_inv_def quiescent_def)
qed

section \<open>What is pinned when tracing begins\<close>

text \<open>
  The children a PPP wants pinned, as a function \<open>kids\<close> that the VM state does not influence: marking
  the children of an object while the mutators are stopped reports the same objects every time.
\<close>

definition steady_kids :: "'v ruby_upcalls \<Rightarrow> (objref \<Rightarrow> objref set) \<Rightarrow> bool" where
  "steady_kids up kids \<longleftrightarrow>
     (\<forall>chunk v. set (reported_children up chunk v) = (\<Union>ob \<in> set chunk. kids ob))"

definition kids_pinned ::
  "('m \<Rightarrow> objref set) \<Rightarrow> (objref \<Rightarrow> objref set) \<Rightarrow> objref list \<Rightarrow> ('m, 'v) world \<Rightarrow> bool" where
  "kids_pinned pinned kids regs w \<longleftrightarrow>
     (\<forall>ob \<in> set regs. (\<exists>chunk. PinPPPChildren chunk \<in> set (w_buckets w Prepare) \<and> ob \<in> set chunk) \<or>
        kids ob \<subseteq> pinned (w_core w))"

lemma kids_pinned_mono:
  assumes "kids_pinned pinned kids regs w" "w_core w' = w_core w"
    "set (w_buckets w Prepare) \<subseteq> set (w_buckets w' Prepare)"
  shows "kids_pinned pinned kids regs w'"
  using assms unfolding kids_pinned_def by (metis subsetD)

lemma prepare_packet_kids:
  assumes c: "pin_contract (env_core env) pinned" and k: "steady_kids (env_up env) kids"
    and b: "w_buckets w Prepare = xs @ packet # ys"
    and d: "do_work env tls packet (w\<lparr>w_buckets := (w_buckets w)(Prepare := xs @ ys)\<rparr>) = Inr w'"
    and ok: "prepare_packet_ok packet" and kp: "kids_pinned pinned kids regs w"
  shows "kids_pinned pinned kids regs w'"
proof (cases "is_pin_packet packet")
  case True
  let ?w = "w\<lparr>w_buckets := (w_buckets w)(Prepare := xs @ ys)\<rparr>"
  obtain chunk where chunk: "packet = PinPPPChildren chunk"
    using True by (cases packet) auto
  with d have w: "pin_ppp_children_do_work (env_build env) (env_core env) (env_up env)
      (tls_view (env_workers env)) tls chunk ?w = Inr w'"
    by (simp add: do_work_def Let_def)
  have bk: "w_buckets w' Prepare = xs @ ys"
    using w by (rule pin_do_work_effect) simp
  obtain newly where
    "pin_children (env_core env) (reported_children (env_up env) chunk (w_vm w)) (w_core w) = (newly, w_core w')"
    using pin_do_work_reported [OF w]
    by (cases "pin_children (env_core env) (reported_children (env_up env) chunk (w_vm w)) (w_core w)") simp
  from pin_children_contract [OF c this] k
  have "pinned (w_core w') = pinned (w_core w) \<union> (\<Union>ob \<in> set chunk. kids ob)"
    by (simp add: steady_kids_def)
  then have now: "kids ob \<subseteq> pinned (w_core w')" if "ob \<in> set chunk \<or> kids ob \<subseteq> pinned (w_core w)" for ob
    using that by blast
  show ?thesis
    unfolding kids_pinned_def bk
  proof
    fix ob assume "ob \<in> set regs"
    with kp consider chunk' where "PinPPPChildren chunk' \<in> set (xs @ packet # ys)" "ob \<in> set chunk'"
      | "kids ob \<subseteq> pinned (w_core w)"
      unfolding kids_pinned_def b by blast
    then show "(\<exists>chunk. PinPPPChildren chunk \<in> set (xs @ ys) \<and> ob \<in> set chunk) \<or>
        kids ob \<subseteq> pinned (w_core w')"
    proof cases
      case (1 chunk')
      then show ?thesis using now [of ob] chunk by (cases "chunk' = chunk") auto
    qed (use now in blast)
  qed
next
  case False
  have "same_pin_state (w\<lparr>w_buckets := (w_buckets w)(Prepare := xs @ ys)\<rparr>) w'"
    using d ok False by (rule prepare_packet_keeps)
  then have "w_core w' = w_core w" "w_buckets w' Prepare = xs @ ys"
    by (simp_all add: same_pin_state_def)
  moreover have "\<And>chunk. packet \<noteq> PinPPPChildren chunk"
    using False by auto
  ultimately show ?thesis
    using kp unfolding kids_pinned_def b by auto
qed

lemma prepare_step_kids:
  assumes c: "pin_contract (env_core env) pinned" and k: "steady_kids (env_up env) kids"
    and "prepare_step env w w'" and inv: "prepare_inv pinned P moving w"
    and kp: "kids_pinned pinned kids regs w"
  shows "kids_pinned pinned kids regs w'"
  using assms(3)
proof cases
  case prepare_packet
  then obtain xs packet ys tls where b: "w_buckets w Prepare = xs @ packet # ys"
    and d: "do_work env tls packet (w\<lparr>w_buckets := (w_buckets w)(Prepare := xs @ ys)\<rparr>) = Inr w'"
    by (auto elim: bucket_stepE)
  then have "prepare_packet_ok packet"
    using inv by (simp add: prepare_inv_def)
  with prepare_packet_kids [OF c k b d] kp show ?thesis by blast
next
  case (prepare_vm_roots tls)
  then have "w_core w' = w_core w" "set (w_buckets w Prepare) \<subseteq> set (w_buckets w' Prepare)"
    by (auto simp: scan_vm_specific_roots_def bind_res_eq_Inr Let_def split: if_splits)
  with kp show ?thesis by (rule kids_pinned_mono)
next
  case (prepare_mutator tls mutator_tls)
  then have "same_pin_state w w'"
    by (auto simp: scan_roots_in_mutator_thread_def bind_res_eq_Inr intro: collect_object_roots_keeps)
  with kp show ?thesis
    by (intro kids_pinned_mono [OF kp]) (simp_all add: same_pin_state_def)
qed

lemma prepare_run_kids:
  assumes "pin_contract (env_core env) pinned" "steady_kids (env_up env) kids"
    and "(prepare_step env)\<^sup>*\<^sup>* w w'" and "prepare_inv pinned P moving w" "kids_pinned pinned kids regs w"
  shows "kids_pinned pinned kids regs w'"
  using assms(3)
proof (induction rule: rtranclp_induct)
  case (step u w')
  have "prepare_inv pinned P moving u"
    using assms(1) step(1) assms(4) by (rule prepare_run_inv)
  with prepare_step_kids [OF assms(1,2) step(2)] step(3) show ?case by blast
qed (rule assms(5))

lemma stop_all_mutators_kids:
  assumes "stop_all_mutators cfg core up tls_mem tls visitor f w0 = Inr (f', w1)"
    and "mc_current_gc_may_move_object core (w_core w0)"
  shows "kids_pinned pinned kids (registered (ppp_reg (w_binding w0))) w1"
proof -
  let ?xs = "registered (ppp_reg (w_binding w0))"
  have "w_buckets w1 = bulk_add Prepare (map PinPPPChildren (slices 512 ?xs)) (w_buckets w0)"
    using assms
    by (auto simp: stop_all_mutators_def pin_ppp_children_def bind_res_eq_Inr try_lock_expect_Inr
        registered_def ppp_packet_size_def)
  moreover have "(\<Union>c \<in> set (slices 512 ?xs). set c) = set ?xs"
    by (metis concat_slices set_concat zero_less_numeral)
  ultimately show ?thesis
    by (auto simp: kids_pinned_def)
qed

section \<open>Properties\<close>

text \<open>One GC cycle of the example, packet by packet.\<close>

lemma run_prepare:
  assumes "env_workers env tls = Some ctx" and "run_bucket n env tls Prepare w = Inr w'"
  shows "(prepare_step env)\<^sup>*\<^sup>* w w' \<and> w_buckets w' Prepare = []"
proof -
  have "(bucket_step env Prepare)\<^sup>*\<^sup>* w w'" "w_buckets w' Prepare = []"
    using run_bucket_steps [OF assms] by simp_all
  moreover have "bucket_step env Prepare \<le> prepare_step env"
    by (auto intro: prepare_packet)
  ultimately show ?thesis
    using rtranclp_mono by blast
qed

lemma example_quiescent: "quiescent example_gc_world"
  by (simp add: quiescent_def example_gc_world_def pinned_list_def ppp_registry_new_def latches_ok_def
      put_ppps_def)

lemma example_kids: "steady_kids ivar_upcalls (\<lambda>ob. {ob + 64})"
proof -
  have "map fst (filter snd (visits (pin_body ivar_upcalls chunk n v))) = map (\<lambda>ob. ob + 64) chunk"
    for chunk n v
    by (induction chunk arbitrary: n v) (simp_all add: ivar_upcalls_def null_upcalls_def)
  then show ?thesis
    by (auto simp: steady_kids_def reported_children_def)
qed

lemma example_stop:
  "stop_all_mutators debug_build example_core ivar_upcalls
     (tls_view [4096 \<mapsto> 8192] :: address \<rightharpoonup> unit gc_thread_tls) 4096 (\<lambda>_ f. f) ([] :: address list)
     example_gc_world = Inr ([], submit Prepare [PinPPPChildren [16]] example_gc_world)"
proof -
  have "slices 512 [16 :: objref] = [[16]]"
    by (simp add: slices_step)
  then show ?thesis
    by (simp add: stop_all_mutators_def pin_ppp_children_def example_view tls_worker_def for_worker_def
        gc_thread_tls_new_def example_gc_world_def ppp_registry_new_def ppp_packet_size_def put_ppps_def
        example_core_def ivar_upcalls_def null_upcalls_def)
qed

lemma example_prepare:
  "\<exists>w2. (prepare_step example_env)\<^sup>*\<^sup>* (submit Prepare [PinPPPChildren [16]] example_gc_world) w2 \<and>
     w_buckets w2 = (\<lambda>_. []) \<and> w_core w2 = {40, 80} \<and> w_vm w2 = Map.empty \<and> w_latches w2 = [] \<and>
     w_binding w2 = w_binding (put_pinned [80] example_gc_world)"
proof -
  let ?w = "example_gc_world\<lparr>w_buckets := (\<lambda>_. [])\<rparr>"
  have "pin_ppp_children_do_work debug_build example_core ivar_upcalls (tls_view [4096 \<mapsto> 8192]) 4096 [16] ?w =
      Inr (put_pinned [80] (emit (Probe_pin_ppp_children 1 0 1) (?w\<lparr>w_vm := Map.empty, w_core := {40, 80}\<rparr>)))"
    by (simp add: pin_ppp_children_do_work_def example_view example_closure run_pin_visitor
        ivar_upcalls_def null_upcalls_def example_gc_world_def ppp_registry_new_def example_core_def
        insert_commute put_ppps_def)
  moreover have "(submit Prepare [PinPPPChildren [16]] example_gc_world)
      \<lparr>w_buckets := (w_buckets (submit Prepare [PinPPPChildren [16]] example_gc_world))(Prepare := [])\<rparr> = ?w"
    by (simp add: example_gc_world_def submit_def bulk_add_def put_ppps_def fun_eq_iff)
  ultimately have "run_bucket 1 example_env 4096 Prepare (submit Prepare [PinPPPChildren [16]] example_gc_world) =
      Inr (put_pinned [80] (emit (Probe_pin_ppp_children 1 0 1) (?w\<lparr>w_vm := Map.empty, w_core := {40, 80}\<rparr>)))"
    by (simp add: do_work_def example_gc_world_def)
  from run_prepare [OF _ this] show ?thesis
    by (intro exI [of _ "put_pinned [80] (emit (Probe_pin_ppp_children 1 0 1)
        (?w\<lparr>w_vm := Map.empty, w_core := {40, 80}\<rparr>))"])
      (simp add: put_pinned_def example_gc_world_def put_ppps_def)
qed

text \<open>
  C6. The children of PPPs do not move: when a moving GC has stopped the mutators and drained the
  Prepare bucket, in whatever order the workers ran its packets and the root scanning callbacks, every
  child of every PPP registered at that time is pinned.
\<close>

theorem ppp_children_pinned_before_tracing:
  assumes c: "pin_contract (env_core env) pinned" and k: "steady_kids (env_up env) kids"
    and q: "quiescent w0" and m: "mc_current_gc_may_move_object (env_core env) (w_core w0)"
    and stop: "stop_all_mutators (env_build env) (env_core env) (env_up env)
      (tls_view (env_workers env) :: address \<rightharpoonup> unit gc_thread_tls) tls visitor (f :: address list) w0 =
      Inr (f', w1)"
    and run: "(prepare_step env)\<^sup>*\<^sup>* w1 w2" "w_buckets w2 Prepare = []"
    and ob: "ob \<in> set (registered (ppp_reg (w_binding w0)))"
  shows "kids ob \<subseteq> pinned (w_core w2)"
proof -
  have inv: "prepare_inv pinned (pinned (w_core w0)) (gc_mode (env_core env) w0) w1"
    using stop q by (rule stop_all_mutators_inv)
  have "kids_pinned pinned kids (registered (ppp_reg (w_binding w0))) w1"
    using stop m by (rule stop_all_mutators_kids)
  from prepare_run_kids [OF c k run(1) inv this] run(2) ob show ?thesis
    by (auto simp: kids_pinned_def)
qed

theorem ppp_children_pinned_before_tracing_witness:
  "\<exists>w1 w2. stop_all_mutators debug_build example_core ivar_upcalls
      (tls_view [4096 \<mapsto> 8192] :: address \<rightharpoonup> unit gc_thread_tls) 4096 (\<lambda>_ f. f) ([] :: address list)
      example_gc_world = Inr ([], w1) \<and> (prepare_step example_env)\<^sup>*\<^sup>* w1 w2 \<and> 80 \<in> w_core w2"
proof -
  obtain w2 where w2:
    "(prepare_step example_env)\<^sup>*\<^sup>* (submit Prepare [PinPPPChildren [16]] example_gc_world) w2"
    "w_buckets w2 Prepare = []"
    using example_prepare by auto
  have "registered (ppp_reg (w_binding example_gc_world)) = [16]"
    by (simp add: registered_def example_gc_world_def)
  with ppp_children_pinned_before_tracing [of example_env "\<lambda>m. m" "\<lambda>ob. {ob + 64}" example_gc_world
      4096 "\<lambda>_ f. f" "[]" "[]", OF _ _ example_quiescent _ _ w2, of 16]
  have "80 \<in> w_core w2"
    using example_pin_contract example_kids example_stop by (simp add: example_core_def)
  then show ?thesis
    using example_stop w2(1) by blast
qed

text \<open>
  C5. A GC cycle is neutral for pinning: whatever the workers interleave in the Prepare and the closing
  bucket, and whichever packets latches release meanwhile, the pins after the cycle are the pins
  before it, no pinned child is left in the registry, and the buckets are empty. So it is for any
  number of cycles one after another.
\<close>

theorem gc_cycles_keep_pins:
  assumes "pin_contract (env_core env) pinned" and "trace_keeps_pins (env_core env) pinned trace"
    and "(gc_cycle env trace)\<^sup>*\<^sup>* w w'" and "quiescent w"
  shows "pinned (w_core w') = pinned (w_core w) \<and> quiescent w'"
  using assms(3,4)
proof (induction rule: rtranclp_induct)
  case (step u v)
  with gc_cycle_pins [OF assms(1,2) step(2)] show ?case by auto
qed simp

text \<open>The closing phase of the example: nine packets, none of which panics.\<close>

definition example_closing_ok :: "(objref set, objref \<rightharpoonup> address) world \<Rightarrow> bool" where
  "example_closing_ok w \<longleftrightarrow> w_vm w = Map.empty \<and>
     obj_free_candidates (weak_proc (w_binding w)) = mutex_new [] \<and>
     moved_givtbl (w_binding w) = mutex_new Map.empty \<and>
     wb_unprotected_objects (w_binding w) = mutex_new {} \<and>
     mutex_free (ppps (ppp_reg (w_binding w)))"

lemma mutex_data_self [simp]: "mutex_new x\<lparr>mutex_data := x\<rparr> = mutex_new x"
  by (simp add: mutex_new_def)

lemma example_packet_runs:
  assumes "example_closing_ok w" and
    "p \<in> {ProcessObjFreeCandidates, RemoveDeadPPPs} \<union> set weak_packets \<or> p = UnpinPPPChildren [80] \<and> 80 \<in> w_core w"
  shows "\<exists>w'. do_work example_env 4096 p w = Inr w' \<and> example_closing_ok w' \<and> w_buckets w' = w_buckets w \<and>
    (p \<noteq> UnpinPPPChildren [80] \<longrightarrow> w_core w' = w_core w)"
proof -
  note defs = do_work_def global_table_do_work_def example_view example_closure run_with_closure_default
    null_upcalls_def ivar_upcalls_def example_closing_ok_def
  consider "p = ProcessObjFreeCandidates" | "p = RemoveDeadPPPs" | "p = UpdateGenericIvTbl"
    | "p = UpdateFinalizerAndObjIdTables" | "p = UpdateOverloadedCmeTable" | "p = UpdateCiTable"
    | "p = UpdateWbUnprotectedObjectsList" | "p = UnpinPPPChildren [80]" "80 \<in> w_core w"
    using assms(2) by (auto simp: weak_packets_def)
  then show ?thesis
  proof cases
    case 1
    then show ?thesis
      using assms(1) by (simp add: defs process_obj_free_candidates_do_work_def put_candidates_def)
  next
    case 2
    then show ?thesis
      using assms(1)
      by (simp add: defs remove_dead_ppps_do_work_def retain_ppps_eq put_ppps_def)
  next
    case 3
    then show ?thesis
      using assms(1)
      by (simp add: defs update_generic_iv_tbl_def Let_def put_moved_givtbl_def move_givtbls_def
          sorted_map_order_def)
  next
    case 4
    then show ?thesis
      using assms(1) by (simp add: defs update_finalizer_and_obj_id_tables_def Let_def)
  next
    case 5
    then show ?thesis
      using assms(1) by (simp add: defs update_overloaded_cme_table_def general_update_weak_table_def Let_def)
  next
    case 6
    then show ?thesis
      using assms(1) by (simp add: defs update_ci_table_def general_update_weak_table_def Let_def)
  next
    case 7
    then show ?thesis
      using assms(1)
      by (simp add: defs update_wb_unprotected_objects_list_do_work_def retain_wb_unprotected_eq
          put_wb_unprotected_def)
  next
    case 8
    then show ?thesis
      using assms(1) by (simp add: defs unpin_ppp_children_do_work_def example_core_def)
  qed
qed

lemma example_bucket_runs:
  assumes "example_closing_ok w" "80 \<in> w_core w"
    "w_buckets w VMRefClosure = qs @ [UnpinPPPChildren [80]]"
    "set qs \<subseteq> {ProcessObjFreeCandidates, RemoveDeadPPPs} \<union> set weak_packets"
  shows "\<exists>w'. run_bucket (Suc (length qs)) example_env 4096 VMRefClosure w = Inr w'"
  using assms
proof (induction qs arbitrary: w)
  case Nil
  let ?w = "w\<lparr>w_buckets := (w_buckets w)(VMRefClosure := [])\<rparr>"
  have "example_closing_ok ?w" "80 \<in> w_core ?w"
    using Nil by (simp_all add: example_closing_ok_def)
  with example_packet_runs [of ?w "UnpinPPPChildren [80]"] Nil(3) show ?case
    by auto
next
  case (Cons q qs)
  let ?w = "w\<lparr>w_buckets := (w_buckets w)(VMRefClosure := qs @ [UnpinPPPChildren [80]])\<rparr>"
  have ok: "example_closing_ok ?w"
    using Cons.prems(1) by (simp add: example_closing_ok_def)
  have q: "q \<in> {ProcessObjFreeCandidates, RemoveDeadPPPs} \<union> set weak_packets"
    "q \<noteq> UnpinPPPChildren [80]"
    using Cons.prems(4) by (auto simp: weak_packets_def)
  obtain w' where w': "do_work example_env 4096 q ?w = Inr w'" "example_closing_ok w'"
    "w_buckets w' = w_buckets ?w" "w_core w' = w_core ?w"
    using example_packet_runs [OF ok, of q] q by blast
  have "\<exists>w''. run_bucket (Suc (length qs)) example_env 4096 VMRefClosure w' = Inr w''"
    using w' Cons.prems by (intro Cons.IH) simp_all
  then show ?case
    using w'(1) Cons.prems(3) by (auto simp del: run_bucket.simps(2) simp: run_bucket.simps(2) [of "Suc _"])
qed

lemma example_closing:
  assumes "w_buckets w2 = (\<lambda>_. [])" "w_core w2 = {40, 80}" "w_vm w2 = Map.empty" "w_latches w2 = []"
    "w_binding w2 = w_binding (put_pinned [80] example_gc_world)"
  shows "\<exists>w4 w5. process_weak_refs debug_build example_core ivar_upcalls w2 = Inr (False, w4) \<and>
    run_bucket 8 example_env 4096 VMRefClosure w4 = Inr w5"
proof -
  have r: "range_packets debug_build 0 0 1024 k = Inr []" for k
    by (simp add: range_packets_def step_by_def)
  have b: "st_entries_chunk_size (w_binding w2) = 1024"
    by (simp add: assms(5) put_pinned_def example_gc_world_def put_ppps_def)
  have t: "process_weak_table_chunked debug_build ivar_upcalls name tbl wk wv fwd w = Inr
      (emit (Probe_initial_weak_table_stats 0 0 0 0 name) w\<lparr>w_latches := w_latches w @
        [\<lparr>counter = 0, stage = VMRefClosure, packets = []\<rparr>]\<rparr>)"
    if "st_entries_chunk_size (w_binding w) = 1024" for name tbl wk wv fwd and w :: "(objref set, _) world"
    using that by (simp add: process_weak_table_chunked_def r ivar_upcalls_def null_upcalls_def
        add_packets_def count_up_def after_all_new_def submit_def)
  let ?qs = "ProcessObjFreeCandidates # weak_packets @ [RemoveDeadPPPs]"
  obtain w3 where w3: "process_weak_stuff debug_build example_core ivar_upcalls w2 = Inr w3"
    "w_core w3 = {40, 80}" "w_vm w3 = Map.empty" "w_binding w3 = w_binding w2"
    "w_buckets w3 VMRefClosure = ProcessObjFreeCandidates # weak_packets"
    using assms b by (simp add: process_weak_stuff_def Let_def t)
  let ?w4 = "submit VMRefClosure [UnpinPPPChildren [80]] (put_pinned [] (submit VMRefClosure [RemoveDeadPPPs] w3))"
  have "process_weak_refs debug_build example_core ivar_upcalls w2 = Inr (False, ?w4)"
    using w3 assms(5)
    by (simp add: process_weak_refs_def cleanup_ppps_def Let_def example_core_def example_gc_world_def
        put_ppps_def ppp_registry_new_def)
  moreover have "\<exists>w5. run_bucket (Suc (length ?qs)) example_env 4096 VMRefClosure ?w4 = Inr w5"
  proof (rule example_bucket_runs)
    show "example_closing_ok ?w4"
      using w3 assms(5)
      by (simp add: example_closing_ok_def put_pinned_def example_gc_world_def put_ppps_def
          weak_processor_new_def ppp_registry_new_def)
    show "80 \<in> w_core ?w4" "w_buckets ?w4 VMRefClosure = ?qs @ [UnpinPPPChildren [80]]"
      using w3 by simp_all
    show "set ?qs \<subseteq> {ProcessObjFreeCandidates, RemoveDeadPPPs} \<union> set weak_packets"
      by auto
  qed
  moreover have "Suc (length ?qs) = 8"
    by (simp add: weak_packets_def)
  ultimately show ?thesis
    by metis
qed

lemma example_cycle: "\<exists>w. gc_cycle example_env (=) example_gc_world w"
proof -
  obtain w2 where w2:
    "(prepare_step example_env)\<^sup>*\<^sup>* (submit Prepare [PinPPPChildren [16]] example_gc_world) w2"
    "w_buckets w2 = (\<lambda>_. [])" "w_core w2 = {40, 80}" "w_vm w2 = Map.empty" "w_latches w2 = []"
    "w_binding w2 = w_binding (put_pinned [80] example_gc_world)"
    using example_prepare by blast
  obtain w4 w5 where w4: "process_weak_refs debug_build example_core ivar_upcalls w2 = Inr (False, w4)"
    and w5: "run_bucket 8 example_env 4096 VMRefClosure w4 = Inr w5"
    using example_closing [OF w2(2-6)] by blast
  have run: "(bucket_step example_env VMRefClosure)\<^sup>*\<^sup>* w4 w5" "w_buckets w5 VMRefClosure = []"
    using run_bucket_steps [OF _ w5] by simp_all
  have "gc_cycle example_env (=) example_gc_world w5"
    by (rule cycle [where tls = 4096 and visitor = "\<lambda>_ f. f" and f = "[]" and again = False, OF _ w2(1) _ refl _ _ run])
      (use example_stop w2 w4 in \<open>simp_all add: gc_mode_def example_core_def\<close>)
  then show ?thesis ..
qed

theorem gc_cycles_keep_pins_witness:
  "\<exists>w. gc_cycle example_env (=) example_gc_world w \<and> w_core w = {40} \<and> quiescent w"
proof -
  obtain w where "gc_cycle example_env (=) example_gc_world w"
    using example_cycle by blast
  moreover have "trace_keeps_pins (env_core example_env) (\<lambda>m. m) (=)"
    by (simp add: trace_keeps_pins_def)
  ultimately show ?thesis
    using gc_cycles_keep_pins [of example_env "\<lambda>m. m" "(=)" example_gc_world w]
      example_pin_contract example_quiescent
    by (auto simp: example_gc_world_def)
qed



end
