(* ===== verification/Packet_Frames.thy ===== *)
theory Packet_Frames
  imports Pin_Cycle
begin

text \<open>
  What a packet may change. Every packet but four leaves the registries of the binding alone, and the
  only packets that reach a bucket while it is drained are the packets of bins a latch releases. The
  locale \<open>bucket_invariant\<close> turns a fact about single packets into one about every run of a bucket.
\<close>

section \<open>Invariants of a bucket\<close>

locale bucket_invariant =
  fixes env :: "('m, 'v) gc_env" and st :: work_bucket_stage and I :: "('m, 'v) world \<Rightarrow> bool"
  assumes packet_keeps:
    "w_buckets w st = xs @ packet # ys \<Longrightarrow> I w \<Longrightarrow> env_workers env tls = Some ctx \<Longrightarrow>
     do_work env tls packet (w\<lparr>w_buckets := (w_buckets w)(st := xs @ ys)\<rparr>) = Inr w' \<Longrightarrow> I w'"
begin

lemma step_keeps: "bucket_step env st w w' \<Longrightarrow> I w \<Longrightarrow> I w'"
  by (erule bucket_stepE) (blast intro: packet_keeps)

lemma run_keeps: "(bucket_step env st)\<^sup>*\<^sup>* w w' \<Longrightarrow> I w \<Longrightarrow> I w'"
  by (induction rule: rtranclp_induct) (auto intro: step_keeps)

lemma drained_keeps:
  assumes "env_workers env tls = Some ctx" "run_bucket n env tls st w = Inr w'" "I w"
  shows "I w'"
  using run_bucket_steps [OF assms(1,2)] run_keeps assms(3) by blast

end

section \<open>The world after a packet\<close>

text \<open>The probes that report how a registry of the binding changed.\<close>

fun ledger_probe :: "probe \<Rightarrow> bool" where
  "ledger_probe (Probe_process_obj_free_candidates before after) = True"
| "ledger_probe (Probe_remove_dead_ppps n no_longer dead) = True"
| "ledger_probe _ = False"

text \<open>The result of a table packet, whatever its VM code does to the VM state.\<close>

lemma global_table_result:
  assumes "global_table_do_work cfg core (tls_view workers) tls process w = Inr w'"
    and "process w = vm_bind c (\<lambda>v. VM_done (Inr (f v)))"
  shows "\<exists>v. w' = f v"
proof -
  obtain gc_tls s' where g: "from_vwt_check cfg (tls_view workers) tls = Inr gc_tls"
    and r: "run_with_closure cfg (object_closure gc_tls) (forward_visitor cfg core (w_core w))
      (process w) () = Inr (Inr w', s')"
    using assms(1) by (auto simp: global_table_do_work_def bind_res_eq_Inr)
  from run_with_closure_bind_done [OF r [unfolded from_vwt_check_tls_view [OF g] assms(2)]]
  show ?thesis by auto
qed

lemma global_table_emits:
  assumes "global_table_do_work cfg core (tls_view workers) tls process w = Inr w'"
    and "process w = vm_bind c (\<lambda>v. VM_done (Inr (emit (q v) (f v))))"
    and "\<And>v. \<not> ledger_probe (q v)"
  shows "\<exists>v p. \<not> ledger_probe p \<and> w' = emit p (f v)"
  using global_table_result [OF assms(1,2)] assms(3) by blast

lemma general_update_result:
  assumes "global_table_do_work cfg core (tls_view workers) tls
    (general_update_weak_table up getter cleaner) w = Inr w'"
  shows "\<exists>v p. \<not> ledger_probe p \<and> w' = emit p (w\<lparr>w_vm := v\<rparr>)"
  by (rule global_table_emits [OF assms, unfolded general_update_weak_table_def Let_def, OF refl]) simp

lemma finalizer_tables_result:
  assumes "global_table_do_work cfg core (tls_view workers) tls
    (update_finalizer_and_obj_id_tables up) w = Inr w'"
  shows "\<exists>v p. \<not> ledger_probe p \<and> w' = emit p (w\<lparr>w_vm := v\<rparr>)"
  by (rule global_table_emits [OF assms, unfolded update_finalizer_and_obj_id_tables_def Let_def, OF refl])
    simp

lemma put_moved_givtbl_vm:
  "put_moved_givtbl t w\<lparr>w_vm := v\<rparr> = put_moved_givtbl t (w\<lparr>w_vm := v\<rparr>)"
  by (cases w) (simp add: put_moved_givtbl_def)

lemma generic_iv_tbl_result:
  assumes "global_table_do_work cfg core (tls_view workers) tls (update_generic_iv_tbl up ord) w = Inr w'"
  shows "mutex_free (moved_givtbl (w_binding w)) \<and>
    (\<exists>v p. \<not> ledger_probe p \<and> w' = emit p (put_moved_givtbl Map.empty (w\<lparr>w_vm := v\<rparr>)))"
proof (cases "mutex_free (moved_givtbl (w_binding w))")
  case True
  let ?es = "ord (mutex_data (moved_givtbl (w_binding w)))"
  let ?v1 = "move_givtbls up ?es (w_vm w)"
  let ?size = "up_st_get_num_entries up (up_get_generic_iv_tbl up ?v1)"
  have "update_generic_iv_tbl up ord w = vm_bind (up_cleanup_generic_iv_tbl up ?v1)
      (\<lambda>v. VM_done (Inr (emit (Probe_update_generic_iv_tbl (length ?es) (?size ?v1) (?size v))
        (put_moved_givtbl Map.empty (w\<lparr>w_vm := v\<rparr>)))))"
    using True by (simp add: update_generic_iv_tbl_def Let_def put_moved_givtbl_vm)
  then have "\<exists>v p. \<not> ledger_probe p \<and> w' = emit p (put_moved_givtbl Map.empty (w\<lparr>w_vm := v\<rparr>))"
    by (rule global_table_emits [OF assms]) simp
  with True show ?thesis by blast
next
  case False
  then have e: "\<exists>e. update_generic_iv_tbl up ord w = VM_done (Inl e)"
    by (auto simp: update_generic_iv_tbl_def try_lock_expect_def mutex_free_def)
  then show ?thesis
    using assms
    by (auto simp: global_table_do_work_def bind_res_eq_Inr run_with_closure_default
        dest!: from_vwt_check_tls_view)
qed

lemma collect_object_roots_result:
  "collect_object_roots_in cfg core gc_tls callback w = Inr w' \<Longrightarrow>
   \<exists>v rs. w' = w\<lparr>w_vm := v, w_root_work := rs\<rparr>"
  by (auto simp: collect_object_roots_in_def bind_res_eq_Inr)

text \<open>The shape of the world after each packet, but for those that count a latch down.\<close>

lemma do_work_result:
  assumes "do_work env tls packet w = Inr w'"
  obtains
    (vm) v rs ps where "\<forall>p \<in> set ps. \<not> ledger_probe p"
      "w' = w\<lparr>w_vm := v, w_root_work := rs, w_probes := w_probes w @ ps\<rparr>"
  | (cand) v p where "packet = ProcessObjFreeCandidates"
      "mutex_free (obj_free_candidates (weak_proc (w_binding w)))"
      "v = snd (process_candidates (env_core env) (env_up env) (w_core w)
         (candidates (weak_proc (w_binding w))) (w_vm w))"
      "p = Probe_process_obj_free_candidates (length (candidates (weak_proc (w_binding w))))
         (length (fst (process_candidates (env_core env) (env_up env) (w_core w)
            (candidates (weak_proc (w_binding w))) (w_vm w))))"
      "w' = emit p (put_candidates (fst (process_candidates (env_core env) (env_up env) (w_core w)
         (candidates (weak_proc (w_binding w))) (w_vm w))) (w\<lparr>w_vm := v\<rparr>))"
  | (givtbl) v p where "packet = UpdateGenericIvTbl" "mutex_free (moved_givtbl (w_binding w))"
      "\<not> ledger_probe p" "w' = emit p (put_moved_givtbl Map.empty (w\<lparr>w_vm := v\<rparr>))"
  | (wb) p where "packet = UpdateWbUnprotectedObjectsList" "mutex_free (wb_unprotected_objects (w_binding w))"
      "\<not> ledger_probe p" "w' = emit p (put_wb_unprotected (retain_wb_unprotected (env_core env) (w_core w)
         (env_set_order env (mutex_data (wb_unprotected_objects (w_binding w))))) w)"
  | (dead) p where "packet = RemoveDeadPPPs" "mutex_free (ppps (ppp_reg (w_binding w)))"
      "p = (case retain_ppps (env_core env) (env_up env) (w_core w) (w_vm w)
           (registered (ppp_reg (w_binding w))) of
         (kept, no_longer, dead) \<Rightarrow>
           Probe_remove_dead_ppps (length (registered (ppp_reg (w_binding w)))) no_longer dead)"
      "w' = emit p (put_ppps (fst (retain_ppps (env_core env) (env_up env) (w_core w) (w_vm w)
         (registered (ppp_reg (w_binding w))))) w)"
  | (pin) chunk where "packet = PinPPPChildren chunk"
      "pin_ppp_children_do_work (env_build env) (env_core env) (env_up env)
         (tls_view (env_workers env)) tls chunk w = Inr w'"
  | (unpin) children m p where "packet = UnpinPPPChildren children"
      "unpin_children (env_build env) (env_core env) children (w_core w) = Inr m"
      "\<not> ledger_probe p" "w' = emit p (w\<lparr>w_core := m\<rparr>)"
  | (entries) name tbl b e wk wv fwd aid where
      "packet = UpdateTableEntriesParallel name tbl b e wk wv fwd aid"
      "table_entries_do_work (env_up env) name tbl b e wk wv fwd aid w = Inr w'"
proof -
  have vm1: thesis if "\<not> ledger_probe p" "w' = emit p (w\<lparr>w_vm := v\<rparr>)" for p v
    by (rule vm [where v = v and rs = "w_root_work w" and ps = "[p]"]) (use that in \<open>simp_all add: emit_def\<close>)
  show thesis
  proof (cases packet)
    case UpdateGenericIvTbl
    with assms have "global_table_do_work (env_build env) (env_core env) (tls_view (env_workers env)) tls
        (update_generic_iv_tbl (env_up env) (env_map_order env)) w = Inr w'"
      by (simp add: do_work_def Let_def)
    from generic_iv_tbl_result [OF this] obtain v p where
      "mutex_free (moved_givtbl (w_binding w))" "\<not> ledger_probe p"
      "w' = emit p (put_moved_givtbl Map.empty (w\<lparr>w_vm := v\<rparr>))"
      by blast
    then show thesis
      by (rule givtbl [OF UpdateGenericIvTbl])
  next
    case UpdateFinalizerAndObjIdTables
    with assms have "global_table_do_work (env_build env) (env_core env) (tls_view (env_workers env)) tls
        (update_finalizer_and_obj_id_tables (env_up env)) w = Inr w'"
      by (simp add: do_work_def Let_def)
    with finalizer_tables_result [OF this] obtain v p where "\<not> ledger_probe p" "w' = emit p (w\<lparr>w_vm := v\<rparr>)"
      by blast
    then show thesis
      by (rule vm1)
  next
    case UpdateOverloadedCmeTable
    with assms have "\<exists>v p. \<not> ledger_probe p \<and> w' = emit p (w\<lparr>w_vm := v\<rparr>)"
      by (auto simp: do_work_def Let_def update_overloaded_cme_table_def intro: general_update_result)
    then obtain v p where "\<not> ledger_probe p" "w' = emit p (w\<lparr>w_vm := v\<rparr>)"
      by blast
    then show thesis
      by (rule vm1)
  next
    case UpdateCiTable
    with assms have "\<exists>v p. \<not> ledger_probe p \<and> w' = emit p (w\<lparr>w_vm := v\<rparr>)"
      by (auto simp: do_work_def Let_def update_ci_table_def intro: general_update_result)
    then obtain v p where "\<not> ledger_probe p" "w' = emit p (w\<lparr>w_vm := v\<rparr>)"
      by blast
    then show thesis
      by (rule vm1)
  next
    case ProcessObjFreeCandidates
    with assms have "process_obj_free_candidates_do_work (env_core env) (env_up env) w = Inr w'"
      by (simp add: do_work_def Let_def)
    with ProcessObjFreeCandidates show thesis
      by (intro cand) (auto simp: process_obj_free_candidates_do_work_def bind_res_eq_Inr
          try_lock_expect_Inr candidates_def split: prod.splits)
  next
    case UpdateWbUnprotectedObjectsList
    with assms show thesis
      by (intro wb) (auto simp: do_work_def Let_def update_wb_unprotected_objects_list_do_work_def
          bind_res_eq_Inr try_lock_expect_Inr)
  next
    case RemoveDeadPPPs
    with assms have "remove_dead_ppps_do_work (env_core env) (env_up env) w = Inr w'"
      by (simp add: do_work_def Let_def)
    with RemoveDeadPPPs show thesis
      by (intro dead) (auto simp: remove_dead_ppps_do_work_def bind_res_eq_Inr
          try_lock_expect_Inr registered_def split: prod.splits)
  next
    case (UpdateTableBinsParallel name tbl b e)
    obtain deleted v where "up_st_update_bins_range (env_up env) tbl b e (w_vm w) = (deleted, v)"
      by (cases "up_st_update_bins_range (env_up env) tbl b e (w_vm w)")
    then show thesis
      using assms UpdateTableBinsParallel
      by (intro vm1 [where v = v and p = "Probe_update_table_bins_parallel b e deleted name"])
        (simp_all add: do_work_def Let_def table_bins_do_work_def)
  next
    case (UpdateTableEntriesParallel name tbl b e wk wv fwd aid)
    with assms show thesis
      by (intro entries) (auto simp: do_work_def Let_def)
  next
    case (PinPPPChildren chunk)
    with assms show thesis
      by (intro pin) (auto simp: do_work_def Let_def)
  next
    case (UnpinPPPChildren children)
    with assms obtain m where m: "unpin_children (env_build env) (env_core env) children (w_core w) = Inr m"
      "w' = emit (Probe_unpin_ppp_children (length children)) (w\<lparr>w_core := m\<rparr>)"
      by (auto simp: do_work_def Let_def unpin_ppp_children_do_work_def bind_res_eq_Inr)
    show thesis
      by (rule unpin [OF UnpinPPPChildren m(1) _ m(2)]) simp
  next
    case (ScanWbUnprotectedRoots objects)
    with assms obtain v rs where "w' = w\<lparr>w_vm := v, w_root_work := rs\<rparr>"
      by (auto simp: do_work_def Let_def scan_wb_unprotected_roots_do_work_def bind_res_eq_Inr
          dest!: collect_object_roots_result)
    then show thesis
      by (intro vm [where v = v and rs = rs and ps = "[]"]) simp_all
  qed (use assms in \<open>auto simp: do_work_def Let_def global_root_do_work_def bind_res_eq_Inr
      dest!: collect_object_roots_result intro: vm [where ps = "[]"]\<close>)
qed

section \<open>Latches\<close>

fun is_bins_packet :: "gc_work \<Rightarrow> bool" where
  "is_bins_packet (UpdateTableBinsParallel name tbl b e) = True"
| "is_bins_packet _ = False"

text \<open>All a latch ever holds are packets of bins for the closing bucket.\<close>

definition latches_hold_bins :: "('m, 'v) world \<Rightarrow> bool" where
  "latches_hold_bins w \<longleftrightarrow> (\<forall>aa \<in> set (w_latches w). stage aa = VMRefClosure \<and>
     (\<forall>p \<in> set (packets aa). is_bins_packet p))"

lemma latches_hold_bins_cong:
  "w_latches w' = w_latches w \<Longrightarrow> latches_hold_bins w' = latches_hold_bins w"
  by (simp add: latches_hold_bins_def)

lemma table_entries_result:
  assumes "table_entries_do_work up name tbl b e wk wv fwd aid w = Inr w'" and "latches_hold_bins w"
  obtains v bins ls ps where "\<forall>p \<in> set bins. is_bins_packet p" "\<forall>p \<in> set ps. \<not> ledger_probe p"
    "w' = w\<lparr>w_vm := v, w_buckets := bulk_add VMRefClosure bins (w_buckets w), w_latches := ls,
       w_probes := w_probes w @ ps\<rparr>" "latches_hold_bins w'" "length ls = length (w_latches w)"
proof -
  obtain deleted v where v: "up_st_update_entries_range up tbl b e wk wv fwd (w_vm w) = (deleted, v)"
    by (cases "up_st_update_entries_range up tbl b e wk wv fwd (w_vm w)")
  obtain r aa bks where c: "count_down (w_latches w ! aid) (w_buckets w) = (r, aa, bks)"
    by (cases "count_down (w_latches w ! aid) (w_buckets w)")
  have aid: "aid < length (w_latches w)"
    using assms(1) by (auto simp: table_entries_do_work_def split: if_splits)
  have l: "stage (w_latches w ! aid) = VMRefClosure"
    "\<forall>p \<in> set (packets (w_latches w ! aid)). is_bins_packet p"
    using assms(2) aid unfolding latches_hold_bins_def by auto
  let ?bins = "if r then packets (w_latches w ! aid) else []"
  let ?ps = "Probe_update_table_entries_parallel b e deleted name #
    (if r then [Probe_final_weak_table_stats (up_st_get_num_entries up tbl v) name] else [])"
  have bks: "bks = bulk_add VMRefClosure ?bins (w_buckets w)"
    and aa: "stage aa = VMRefClosure" "\<forall>p \<in> set (packets aa). is_bins_packet p"
    using c l by (auto simp: count_down_def Let_def split: if_splits)
  have "w' = w\<lparr>w_vm := v, w_buckets := bulk_add VMRefClosure ?bins (w_buckets w),
      w_latches := (w_latches w)[aid := aa], w_probes := w_probes w @ ?ps\<rparr>"
    using assms(1) v c aid bks by (auto simp: table_entries_do_work_def Let_def emit_def split: if_splits)
  moreover from this have "latches_hold_bins w'"
    using assms(2) aa by (auto simp: latches_hold_bins_def dest!: set_update_subset_insert [THEN subsetD])
  ultimately show thesis
    using l(2) by (intro that [where bins = ?bins and ps = ?ps and v = v and ls = "(w_latches w)[aid := aa]"]) auto
qed

text \<open>The parts of the binding that only mutators and single packets write.\<close>

lemma pin_do_work_result:
  assumes "pin_ppp_children_do_work cfg core up tls_mem tls chunk w = Inr w'"
  obtains v m xs p where "\<not> ledger_probe p"
    "w' = put_pinned xs (emit p (w\<lparr>w_vm := v, w_core := m\<rparr>))"
proof -
  obtain gc_tls no_longer v obs where
    r: "from_vwt_check cfg tls_mem tls = Inr gc_tls"
      "run_with_closure cfg (object_closure gc_tls) pin_visitor (pin_body up chunk 0 (w_vm w)) [] =
        Inr ((no_longer, v), obs)"
    using assms by (auto simp: pin_ppp_children_do_work_def bind_res_eq_Inr)
  obtain newly m where "pin_children core obs (w_core w) = (newly, m)"
    by (cases "pin_children core obs (w_core w)")
  with assms r have "\<exists>pinned. w' = put_pinned (pinned @ newly)
      (emit (Probe_pin_ppp_children (length chunk) no_longer (length newly)) (w\<lparr>w_vm := v, w_core := m\<rparr>))"
    by (auto simp: pin_ppp_children_do_work_def bind_res_eq_Inr Let_def)
  then show thesis
    using that [of "Probe_pin_ppp_children (length chunk) no_longer (length newly)"] by auto
qed

lemmas world_put_defs =
  put_candidates_def put_moved_givtbl_def put_wb_unprotected_def put_ppps_def put_pinned_def

end
