(* ===== verification/Core_Api.thy ===== *)
theory Core_Api
  imports Api
begin

text \<open>
  The functions of \<open>mmtk/src/api.rs\<close> that hand a request of the VM to mmtk-core: mutators, allocation
  bookkeeping, collection requests, heap queries and pinning. What they add to mmtk-core is the check
  that the binding is initialised (\<open>crate::mmtk()\<close>) and the ownership of the boxed mutators, whose
  pointers the VM holds.
\<close>

section \<open>mmtk-core as the VM sees it\<close>

text \<open>
  The functions of mmtk-core behind these calls. \<open>'mu\<close> is the type of mutators, \<open>'sem\<close> that of
  allocation semantics.
\<close>

record ('m, 'mu, 'sem) mmtk_manager =
  mm_read_env_var_settings :: "mmtk_builder \<Rightarrow> mmtk_builder"
  mm_bind_mutator :: "address \<Rightarrow> 'm \<Rightarrow> 'mu \<times> 'm"
  mm_destroy_mutator :: "'mu \<Rightarrow> 'm \<Rightarrow> 'm"
  mm_alloc :: "usize \<Rightarrow> usize \<Rightarrow> usize \<Rightarrow> 'sem \<Rightarrow> 'mu \<times> 'm \<Rightarrow> address \<times> 'mu \<times> 'm"
  mm_min_object_size :: usize
  mm_post_alloc :: "objref \<Rightarrow> usize \<Rightarrow> 'sem \<Rightarrow> 'mu \<times> 'm \<Rightarrow> 'mu \<times> 'm"
  mm_write_post :: "objref \<Rightarrow> address \<Rightarrow> objref option \<Rightarrow> 'mu \<times> 'm \<Rightarrow> 'mu \<times> 'm"
  mm_is_movable :: "objref \<Rightarrow> 'm \<Rightarrow> bool"
  mm_is_live_object :: "objref \<Rightarrow> 'm \<Rightarrow> bool"
  mm_is_pinned :: "objref \<Rightarrow> 'm \<Rightarrow> bool"
  mm_initialize_collection :: "address \<Rightarrow> 'm \<Rightarrow> 'm"
  mm_prepare_to_fork :: "'m \<Rightarrow> 'm"
  mm_after_fork :: "address \<Rightarrow> 'm \<Rightarrow> 'm"
  mm_used_bytes :: "'m \<Rightarrow> usize"
  mm_free_bytes :: "'m \<Rightarrow> usize"
  mm_total_bytes :: "'m \<Rightarrow> usize"
  mm_handle_user_collection_request :: "address \<Rightarrow> bool \<Rightarrow> bool \<Rightarrow> 'm \<Rightarrow> 'm"
  mm_harness_begin :: "address \<Rightarrow> 'm \<Rightarrow> 'm"
  mm_harness_end :: "'m \<Rightarrow> 'm"
  mm_gc_poll :: "address \<Rightarrow> 'm \<Rightarrow> 'm"
  mm_starting_heap_address :: address
  mm_last_heap_address :: address
  mm_vo_bit_base :: address

text \<open>\<open>crate::mmtk()\<close> is the instance of the binding: before the initialisation it is a panic.\<close>

definition with_mmtk :: "statics \<Rightarrow> 'm \<Rightarrow> ('m \<Rightarrow> 'r res) \<Rightarrow> 'r res" where
  "with_mmtk g m f = bind_res (binding g) (\<lambda>_. f m)"

definition mmtk_builder_read_env_var_settings ::
  "('m, 'mu, 'sem) mmtk_manager \<Rightarrow> address \<Rightarrow> builders \<Rightarrow> builders res" where
  "mmtk_builder_read_env_var_settings mm p bs = with_builder p bs (\<lambda>b.
     Inr (bs(p \<mapsto> mm_read_env_var_settings mm b)))"

section \<open>Mutators\<close>

text \<open>
  The boxes C holds pointers to. \<open>Box::into_raw\<close> gives a pointer \<open>p\<close> of the allocator's choice;
  \<open>Box::from_raw\<close> takes the box back, and using a pointer without a box is undefined.
\<close>

type_synonym 'mu boxes = "address \<rightharpoonup> 'mu"

definition with_mutator :: "address \<Rightarrow> 'mu boxes \<Rightarrow> ('mu \<Rightarrow> 'r res) \<Rightarrow> 'r res" where
  "with_mutator p mus f =
     (case mus p of None \<Rightarrow> Inl (UB ''invalid Mutator pointer'') | Some mu \<Rightarrow> f mu)"

definition mmtk_bind_mutator ::
  "('m, 'mu, 'sem) mmtk_manager \<Rightarrow> address \<Rightarrow> address \<Rightarrow> statics \<Rightarrow> 'm \<times> 'mu boxes \<Rightarrow>
   (address \<times> 'm \<times> 'mu boxes) res" where
  "mmtk_bind_mutator mm p tls g = (\<lambda>(m, mus). with_mmtk g m (\<lambda>m.
     let (mu, m') = mm_bind_mutator mm tls m in Inr (p, m', mus(p \<mapsto> mu))))"

definition mmtk_destroy_mutator ::
  "('m, 'mu, 'sem) mmtk_manager \<Rightarrow> address \<Rightarrow> 'm \<times> 'mu boxes \<Rightarrow> ('m \<times> 'mu boxes) res" where
  "mmtk_destroy_mutator mm p = (\<lambda>(m, mus). with_mutator p mus (\<lambda>mu.
     Inr (mm_destroy_mutator mm mu m, mus(p := None))))"

definition mmtk_alloc_call ::
  "('m, 'mu, 'sem) mmtk_manager \<Rightarrow> address \<Rightarrow> usize \<Rightarrow> usize \<Rightarrow> usize \<Rightarrow> 'sem \<Rightarrow>
   'm \<times> 'mu boxes \<Rightarrow> (address \<times> 'm \<times> 'mu boxes) res" where
  "mmtk_alloc_call mm p sz align offset semantics = (\<lambda>(m, mus). with_mutator p mus (\<lambda>mu.
     let (a, mu', m') = mmtk_alloc (mm_alloc mm) (mm_min_object_size mm) sz align offset semantics (mu, m)
     in Inr (a, m', mus(p \<mapsto> mu'))))"

definition mmtk_post_alloc ::
  "('m, 'mu, 'sem) mmtk_manager \<Rightarrow> address \<Rightarrow> objref \<Rightarrow> usize \<Rightarrow> 'sem \<Rightarrow>
   'm \<times> 'mu boxes \<Rightarrow> ('m \<times> 'mu boxes) res" where
  "mmtk_post_alloc mm p refer bytes semantics = (\<lambda>(m, mus). with_mutator p mus (\<lambda>mu.
     let (mu', m') = mm_post_alloc mm refer bytes semantics (mu, m) in Inr (m', mus(p \<mapsto> mu'))))"

definition mmtk_write_post_call ::
  "('m, 'mu, 'sem) mmtk_manager \<Rightarrow> address \<Rightarrow> objref \<Rightarrow> 'm \<times> 'mu boxes \<Rightarrow> ('m \<times> 'mu boxes) res" where
  "mmtk_write_post_call mm p ob = (\<lambda>(m, mus). with_mutator p mus (\<lambda>mu.
     let (mu', m') = mmtk_object_reference_write_post (mm_write_post mm) ob (mu, m)
     in Inr (m', mus(p \<mapsto> mu'))))"

section \<open>Collection\<close>

definition mmtk_initialize_collection ::
  "('m, 'mu, 'sem) mmtk_manager \<Rightarrow> address \<Rightarrow> statics \<Rightarrow> 'm \<Rightarrow> 'm res" where
  "mmtk_initialize_collection mm tls g m = with_mmtk g m (\<lambda>m. Inr (mm_initialize_collection mm tls m))"

definition mmtk_after_fork ::
  "('m, 'mu, 'sem) mmtk_manager \<Rightarrow> address \<Rightarrow> statics \<Rightarrow> 'm \<Rightarrow> 'm res" where
  "mmtk_after_fork mm tls g m = with_mmtk g m (\<lambda>m. Inr (mm_after_fork mm tls m))"

definition mmtk_handle_user_collection_request ::
  "('m, 'mu, 'sem) mmtk_manager \<Rightarrow> address \<Rightarrow> bool \<Rightarrow> bool \<Rightarrow> statics \<Rightarrow> 'm \<Rightarrow> 'm res" where
  "mmtk_handle_user_collection_request mm tls force exhaustive g m = with_mmtk g m (\<lambda>m.
     Inr (mm_handle_user_collection_request mm tls force exhaustive m))"

definition mmtk_gc_poll ::
  "('m, 'mu, 'sem) mmtk_manager \<Rightarrow> address \<Rightarrow> statics \<Rightarrow> 'm \<Rightarrow> 'm res" where
  "mmtk_gc_poll mm tls g m = with_mmtk g m (\<lambda>m. Inr (mm_gc_poll mm tls m))"

definition mmtk_harness_begin ::
  "('m, 'mu, 'sem) mmtk_manager \<Rightarrow> address \<Rightarrow> statics \<Rightarrow> 'm \<Rightarrow> 'm res" where
  "mmtk_harness_begin mm tls g m = with_mmtk g m (\<lambda>m. Inr (mm_harness_begin mm tls m))"

definition mmtk_harness_end ::
  "('m, 'mu, 'sem) mmtk_manager \<Rightarrow> address \<Rightarrow> statics \<Rightarrow> 'm \<Rightarrow> 'm res" where
  "mmtk_harness_end mm tls g m = with_mmtk g m (\<lambda>m. Inr (mm_harness_end mm m))"

section \<open>Queries\<close>

definition mmtk_plan_name :: "string \<Rightarrow> statics \<Rightarrow> (string \<times> statics) res" where
  "mmtk_plan_name plan_option g =
     bind_res (binding g) (\<lambda>b. bind_res (get_plan_name_c plan_option b) (\<lambda>(s, b').
     Inr (s, g\<lparr>BINDING := Some b'\<rparr>)))"

definition mmtk_used_bytes :: "('m, 'mu, 'sem) mmtk_manager \<Rightarrow> statics \<Rightarrow> 'm \<Rightarrow> usize res" where
  "mmtk_used_bytes mm g m = with_mmtk g m (\<lambda>m. Inr (mm_used_bytes mm m))"

definition mmtk_free_bytes :: "('m, 'mu, 'sem) mmtk_manager \<Rightarrow> statics \<Rightarrow> 'm \<Rightarrow> usize res" where
  "mmtk_free_bytes mm g m = with_mmtk g m (\<lambda>m. Inr (mm_free_bytes mm m))"

definition mmtk_total_bytes :: "('m, 'mu, 'sem) mmtk_manager \<Rightarrow> statics \<Rightarrow> 'm \<Rightarrow> usize res" where
  "mmtk_total_bytes mm g m = with_mmtk g m (\<lambda>m. Inr (mm_total_bytes mm m))"

definition mmtk_will_never_move :: "('m, 'mu, 'sem) mmtk_manager \<Rightarrow> objref \<Rightarrow> 'm \<Rightarrow> bool" where
  "mmtk_will_never_move mm ob m = (\<not> mm_is_movable mm ob m)"

definition mmtk_is_reachable :: "'m mmtk_core \<Rightarrow> objref \<Rightarrow> 'm \<Rightarrow> bool" where
  "mmtk_is_reachable core ob m = mc_is_reachable core ob m"

definition mmtk_is_live_object :: "('m, 'mu, 'sem) mmtk_manager \<Rightarrow> objref \<Rightarrow> 'm \<Rightarrow> bool" where
  "mmtk_is_live_object mm ob m = mm_is_live_object mm ob m"

definition mmtk_starting_heap_address :: "('m, 'mu, 'sem) mmtk_manager \<Rightarrow> address" where
  "mmtk_starting_heap_address mm = mm_starting_heap_address mm"

definition mmtk_last_heap_address :: "('m, 'mu, 'sem) mmtk_manager \<Rightarrow> address" where
  "mmtk_last_heap_address mm = mm_last_heap_address mm"

definition mmtk_get_vo_bit_base :: "('m, 'mu, 'sem) mmtk_manager \<Rightarrow> usize" where
  "mmtk_get_vo_bit_base mm = mm_vo_bit_base mm"

section \<open>Pinning by the application\<close>

definition mmtk_pin_object :: "'m mmtk_core \<Rightarrow> objref \<Rightarrow> 'm \<Rightarrow> bool \<times> 'm" where
  "mmtk_pin_object core ob m = mc_pin_object core ob m"

definition mmtk_unpin_object :: "'m mmtk_core \<Rightarrow> objref \<Rightarrow> 'm \<Rightarrow> bool \<times> 'm" where
  "mmtk_unpin_object core ob m = mc_unpin_object core ob m"

definition mmtk_is_pinned :: "('m, 'mu, 'sem) mmtk_manager \<Rightarrow> objref \<Rightarrow> 'm \<Rightarrow> bool" where
  "mmtk_is_pinned mm ob m = mm_is_pinned mm ob m"

lemmas mmtk_call_defs =
  mmtk_initialize_collection_def mmtk_after_fork_def mmtk_handle_user_collection_request_def
  mmtk_gc_poll_def mmtk_harness_begin_def mmtk_harness_end_def mmtk_used_bytes_def
  mmtk_free_bytes_def mmtk_total_bytes_def with_mmtk_def

end
