(* ===== verification/Cycle_Effects.thy ===== *)
theory Cycle_Effects
  imports Packet_Frames Core_Api
begin

text \<open>
  What a whole GC cycle does to the registries of the binding, whatever order the workers take the
  packets in: each registry is processed by one packet, once, and no other packet touches it. The
  locale \<open>closing_once\<close> is that argument; the candidates for \<open>obj_free\<close>, the moved ivar tables, the
  WB-unprotected objects and the PPPs interpret it. Then the cycles are put between the calls of
  mutators.
\<close>

section \<open>The heap while the closing bucket runs\<close>

text \<open>
  Which objects are reachable and where they are is settled when tracing ends: pinning and unpinning
  do not change it.
\<close>

definition same_heap :: "'m mmtk_core \<Rightarrow> 'm \<Rightarrow> 'm \<Rightarrow> bool" where
  "same_heap core m m' \<longleftrightarrow>
     (\<forall>ob. mc_is_reachable core ob m' = mc_is_reachable core ob m \<and>
        mc_is_live core ob m' = mc_is_live core ob m \<and>
        mc_get_forwarded_object core ob m' = mc_get_forwarded_object core ob m)"

definition pins_keep_heap :: "'m mmtk_core \<Rightarrow> bool" where
  "pins_keep_heap core \<longleftrightarrow> (\<forall>ob m. same_heap core m (snd (mc_pin_object core ob m)) \<and>
     same_heap core m (snd (mc_unpin_object core ob m)))"

lemma same_heap_refl [simp]: "same_heap core m m"
  by (simp add: same_heap_def)

lemma same_heap_trans: "same_heap core a b \<Longrightarrow> same_heap core b c \<Longrightarrow> same_heap core a c"
  by (simp add: same_heap_def)

lemma same_heapD:
  assumes "same_heap core m m'"
  shows "mc_is_reachable core ob m' = mc_is_reachable core ob m"
    "mc_is_live core ob m' = mc_is_live core ob m" "forward core m' = forward core m"
  using assms by (auto simp: same_heap_def forward_def fun_eq_iff)

lemma pin_children_heap:
  "pins_keep_heap core \<Longrightarrow> same_heap core m (snd (pin_children core obs m))"
proof (induction obs arbitrary: m)
  case (Cons ob obs)
  have "same_heap core m (snd (mc_pin_object core ob m))"
    using Cons.prems by (simp add: pins_keep_heap_def)
  with Cons.IH [OF Cons.prems, of "snd (mc_pin_object core ob m)"] show ?case
    by (auto simp: Let_def split: prod.splits intro: same_heap_trans)
qed simp

lemma unpin_children_heap:
  "pins_keep_heap core \<Longrightarrow> unpin_children cfg core obs m = Inr m' \<Longrightarrow> same_heap core m m'"
proof (induction obs arbitrary: m)
  case (Cons ob obs)
  have "same_heap core m (snd (mc_unpin_object core ob m))"
    using Cons.prems(1) by (simp add: pins_keep_heap_def)
  with Cons.IH [OF Cons.prems(1), of "snd (mc_unpin_object core ob m)"] Cons.prems(2) show ?case
    by (auto simp: Let_def bind_res_eq_Inr split: prod.splits intro: same_heap_trans)
qed simp

section \<open>One packet per registry\<close>

definition closing_ctx :: "'m mmtk_core \<Rightarrow> 'm \<Rightarrow> ('m, 'v) world \<Rightarrow> bool" where
  "closing_ctx core m w \<longleftrightarrow> pins_keep_heap core \<and> latches_hold_bins w \<and> same_heap core m (w_core w)"

lemma pin_packet_heap:
  assumes "pins_keep_heap core"
    and "pin_ppp_children_do_work cfg core up tls_mem tls chunk w = Inr w'"
  shows "same_heap core (w_core w) (w_core w') \<and> w_buckets w' = w_buckets w \<and> w_latches w' = w_latches w"
proof -
  obtain obs newly where "pin_children core obs (w_core w) = (newly, w_core w')"
    "w_buckets w' = w_buckets w" "w_latches w' = w_latches w"
    using assms(2) by (rule pin_do_work_effect)
  with pin_children_heap [OF assms(1), of "w_core w" obs] show ?thesis
    by simp
qed

lemma do_work_closing:
  assumes d: "do_work env tls packet w = Inr w'" and ctx: "closing_ctx (env_core env) m w"
  shows "closing_ctx (env_core env) m w' \<and> length (w_latches w') = length (w_latches w) \<and>
    (\<exists>bins. (\<forall>p \<in> set bins. is_bins_packet p) \<and>
      w_buckets w' = bulk_add VMRefClosure bins (w_buckets w))"
proof -
  have k: "pins_keep_heap (env_core env)" and l: "latches_hold_bins w"
    and h: "same_heap (env_core env) m (w_core w)"
    using ctx by (simp_all add: closing_ctx_def)
  have none: ?thesis if "w_latches w' = w_latches w" "same_heap (env_core env) (w_core w) (w_core w')"
    "w_buckets w' = w_buckets w"
  proof (intro conjI)
    show "length (w_latches w') = length (w_latches w)"
      using that(1) by simp
    show "closing_ctx (env_core env) m w'"
      using k l that(1) same_heap_trans [OF h that(2)] by (simp add: closing_ctx_def latches_hold_bins_def)
    show "\<exists>bins. (\<forall>p \<in> set bins. is_bins_packet p) \<and>
        w_buckets w' = bulk_add VMRefClosure bins (w_buckets w)"
      by (rule exI [of _ "[]"]) (simp add: that(3) bulk_add_def)
  qed
  from d show ?thesis
  proof (cases rule: do_work_result)
    case (pin chunk)
    with pin_packet_heap [OF k pin(2)] show ?thesis
      by (intro none) simp_all
  next
    case (unpin children m' p)
    then show ?thesis
      using unpin_children_heap [OF k unpin(2)] by (intro none) simp_all
  next
    case (entries name tbl b e wk wv fwd aid)
    from entries(2) l show ?thesis
      by (rule table_entries_result) (use k h in \<open>auto simp: closing_ctx_def\<close>)
  qed (intro none; simp add: world_put_defs)+
qed

text \<open>
  \<open>P\<close> is the packet of a registry; \<open>before\<close> and \<open>after\<close> say what the registry is before and after it.
\<close>

locale closing_once =
  fixes env :: "('m, 'v) gc_env" and m :: 'm and P :: gc_work
    and before :: "('m, 'v) world \<Rightarrow> bool" and after :: "('m, 'v) world \<Rightarrow> bool"
  assumes not_bins: "\<not> is_bins_packet P"
    and effect: "do_work env tls P w = Inr w' \<Longrightarrow> closing_ctx (env_core env) m w \<Longrightarrow> before w \<Longrightarrow> after w'"
    and frame: "do_work env tls packet w = Inr w' \<Longrightarrow> packet \<noteq> P \<Longrightarrow> closing_ctx (env_core env) m w \<Longrightarrow>
      (before w \<longrightarrow> before w') \<and> (after w \<longrightarrow> after w')"
    and buckets: "before (w\<lparr>w_buckets := b\<rparr>) = before w" "after (w\<lparr>w_buckets := b\<rparr>) = after w"
begin

definition progress :: "('m, 'v) world \<Rightarrow> bool" where
  "progress w \<longleftrightarrow> closing_ctx (env_core env) m w \<and>
     (count_list (w_buckets w VMRefClosure) P = 1 \<and> before w \<or>
      count_list (w_buckets w VMRefClosure) P = 0 \<and> after w)"

lemma count_bins: "\<forall>p \<in> set bins. is_bins_packet p \<Longrightarrow> count_list bins P = 0"
  using not_bins by (auto simp: count_list_0_iff)

sublocale bucket_invariant env VMRefClosure progress
proof
  fix w :: "('m, 'v) world" and w' xs packet ys tls
  assume b: "w_buckets w VMRefClosure = xs @ packet # ys" and p: "progress w"
    and d: "do_work env tls packet (w\<lparr>w_buckets := (w_buckets w)(VMRefClosure := xs @ ys)\<rparr>) = Inr w'"
  let ?w = "w\<lparr>w_buckets := (w_buckets w)(VMRefClosure := xs @ ys)\<rparr>"
  have ctx: "closing_ctx (env_core env) m ?w"
    using p by (simp add: progress_def closing_ctx_def latches_hold_bins_def)
  from do_work_closing [OF d ctx] obtain bins where
    w': "closing_ctx (env_core env) m w'" "\<forall>p \<in> set bins. is_bins_packet p"
      "w_buckets w' VMRefClosure = xs @ ys @ bins"
    by auto
  have c: "count_list (w_buckets w' VMRefClosure) P + (if packet = P then 1 else 0) =
      count_list (w_buckets w VMRefClosure) P"
    using w'(3) b count_bins [OF w'(2)] by (simp add: count_list_append)
  show "progress w'"
  proof (cases "packet = P")
    case True
    then have "before ?w"
      using p c by (auto simp: progress_def buckets)
    with effect [OF d [unfolded True] ctx] show ?thesis
      using True p c w'(1) by (auto simp: progress_def)
  next
    case False
    with frame [OF d False ctx] p c w'(1) show ?thesis
      by (auto simp: progress_def buckets)
  qed
qed

lemma done_once:
  assumes "closing_ctx (env_core env) m w" "before w" "count_list (w_buckets w VMRefClosure) P = 1"
    and "(bucket_step env VMRefClosure)\<^sup>*\<^sup>* w w'" "w_buckets w' VMRefClosure = []"
  shows "after w'"
proof -
  have "progress w"
    using assms(1-3) by (simp add: progress_def)
  then have "progress w'"
    using assms(4) run_keeps by blast
  then show ?thesis
    using assms(5) by (simp add: progress_def)
qed

end

section \<open>What the other packets leave alone\<close>

fun cand_probe :: "probe \<Rightarrow> bool" where
  "cand_probe (Probe_process_obj_free_candidates b a) = True"
| "cand_probe _ = False"

fun dead_probe :: "probe \<Rightarrow> bool" where
  "dead_probe (Probe_remove_dead_ppps n no_longer dead) = True"
| "dead_probe _ = False"

lemma ledger_probes: "\<not> ledger_probe p \<Longrightarrow> \<not> cand_probe p \<and> \<not> dead_probe p"
  by (cases p) auto

lemma ledger_filter:
  "\<forall>p \<in> set ps. \<not> ledger_probe p \<Longrightarrow> filter cand_probe ps = [] \<and> filter dead_probe ps = []"
  using ledger_probes by (auto simp: filter_empty_conv)

definition cand_view :: "('m, 'v) world \<Rightarrow> weak_processor \<times> probe list" where
  "cand_view w = (weak_proc (w_binding w), filter cand_probe (w_probes w))"

definition ppp_view :: "('m, 'v) world \<Rightarrow> objref list mutex \<times> probe list" where
  "ppp_view w = (ppps (ppp_reg (w_binding w)), filter dead_probe (w_probes w))"

definition wb_view :: "('m, 'v) world \<Rightarrow> objref set mutex" where
  "wb_view w = wb_unprotected_objects (w_binding w)"

lemma view_buckets [simp]:
  "cand_view (w\<lparr>w_buckets := b\<rparr>) = cand_view w" "ppp_view (w\<lparr>w_buckets := b\<rparr>) = ppp_view w"
  "wb_view (w\<lparr>w_buckets := b\<rparr>) = wb_view w"
  by (simp_all add: cand_view_def ppp_view_def wb_view_def)

lemma do_work_frame:
  assumes "do_work env tls packet w = Inr w'" and l: "latches_hold_bins w"
  shows "packet \<noteq> ProcessObjFreeCandidates \<Longrightarrow> cand_view w' = cand_view w"
    and "packet \<noteq> UpdateGenericIvTbl \<Longrightarrow> moved_givtbl (w_binding w') = moved_givtbl (w_binding w)"
    and "packet \<noteq> UpdateWbUnprotectedObjectsList \<Longrightarrow> wb_view w' = wb_view w"
    and "packet \<noteq> RemoveDeadPPPs \<Longrightarrow> ppp_view w' = ppp_view w"
    and "plan_name (w_binding w') = plan_name (w_binding w)"
proof -
  have "(packet \<noteq> ProcessObjFreeCandidates \<longrightarrow> cand_view w' = cand_view w) \<and>
    (packet \<noteq> UpdateGenericIvTbl \<longrightarrow> moved_givtbl (w_binding w') = moved_givtbl (w_binding w)) \<and>
    (packet \<noteq> UpdateWbUnprotectedObjectsList \<longrightarrow> wb_view w' = wb_view w) \<and>
    (packet \<noteq> RemoveDeadPPPs \<longrightarrow> ppp_view w' = ppp_view w) \<and>
    plan_name (w_binding w') = plan_name (w_binding w)"
    using assms(1)
  proof (cases rule: do_work_result)
    case (pin chunk)
    from pin(2) show ?thesis
      by (rule pin_do_work_result)
        (simp add: cand_view_def ppp_view_def wb_view_def world_put_defs ledger_probes)
  next
    case (entries name tbl b e wk wv fwd aid)
    from entries(2) l show ?thesis
      by (rule table_entries_result) (simp add: cand_view_def ppp_view_def wb_view_def ledger_filter)
  qed (auto simp: cand_view_def ppp_view_def wb_view_def world_put_defs ledger_probes ledger_filter split: prod.splits)
  then show "packet \<noteq> ProcessObjFreeCandidates \<Longrightarrow> cand_view w' = cand_view w"
    and "packet \<noteq> UpdateGenericIvTbl \<Longrightarrow> moved_givtbl (w_binding w') = moved_givtbl (w_binding w)"
    and "packet \<noteq> UpdateWbUnprotectedObjectsList \<Longrightarrow> wb_view w' = wb_view w"
    and "packet \<noteq> RemoveDeadPPPs \<Longrightarrow> ppp_view w' = ppp_view w"
    and "plan_name (w_binding w') = plan_name (w_binding w)"
    by blast+
qed

section \<open>The four registries\<close>

definition survivors :: "'m mmtk_core \<Rightarrow> 'm \<Rightarrow> objref list \<Rightarrow> objref list" where
  "survivors core m xs = map (forward core m) (filter (\<lambda>ob. mc_is_reachable core ob m) xs)"

definition swept :: "'m mmtk_core \<Rightarrow> 'm \<Rightarrow> weak_processor \<times> probe list \<Rightarrow> weak_processor \<times> probe list" where
  "swept core m = (\<lambda>(wp, ps). let xs = candidates wp; ys = survivors core m xs in
     (wp\<lparr>obj_free_candidates := (obj_free_candidates wp)\<lparr>mutex_data := ys\<rparr>\<rparr>,
      ps @ [Probe_process_obj_free_candidates (length xs) (length ys)]))"

lemma same_heap_survivors:
  assumes "same_heap core m m'"
  shows "survivors core m' xs = survivors core m xs"
  by (simp add: survivors_def same_heapD [OF assms])

lemma candidates_effect:
  assumes "do_work env tls ProcessObjFreeCandidates w = Inr w'" "same_heap (env_core env) m (w_core w)"
  shows "cand_view w' = swept (env_core env) m (cand_view w)"
  using assms(1)
  by (auto simp: do_work_def process_obj_free_candidates_do_work_def bind_res_eq_Inr Let_def
      process_candidates_eq try_lock_expect_Inr candidates_def cand_view_def swept_def survivors_def
      put_candidates_def same_heapD [OF assms(2)])

interpretation cand_closing: closing_once env m ProcessObjFreeCandidates
    "\<lambda>w. cand_view w = x" "\<lambda>w. cand_view w = swept (env_core env) m x" for env m x
  by unfold_locales (auto simp: do_work_frame closing_ctx_def candidates_effect)

interpretation givtbl_closing: closing_once env m UpdateGenericIvTbl
    "\<lambda>w. True" "\<lambda>w. mutex_data (moved_givtbl (w_binding w)) = Map.empty" for env m
proof
  fix w :: "('a, 'b) world" and w' tls
  assume "do_work env tls UpdateGenericIvTbl w = Inr w'"
  then have "global_table_do_work (env_build env) (env_core env) (tls_view (env_workers env)) tls
      (update_generic_iv_tbl (env_up env) (env_map_order env)) w = Inr w'"
    by (simp add: do_work_def Let_def)
  from generic_iv_tbl_result [OF this] show "mutex_data (moved_givtbl (w_binding w')) = Map.empty"
    by auto
qed (auto simp: do_work_frame closing_ctx_def)

definition stayed ::
  "'m mmtk_core \<Rightarrow> 'v ruby_upcalls \<Rightarrow> 'm \<Rightarrow> 'v \<Rightarrow> objref list mutex \<times> probe list \<Rightarrow>
   objref list mutex \<times> probe list" where
  "stayed core up m v = (\<lambda>(reg, ps).
     let (kept, no_longer, dead) = retain_ppps core up m v (mutex_data reg)
     in (reg\<lparr>mutex_data := kept\<rparr>, ps @ [Probe_remove_dead_ppps (length (mutex_data reg)) no_longer dead]))"

lemma same_heap_stays:
  assumes "same_heap core m m'"
  shows "ppp_stays core up m' v = ppp_stays core up m v"
  by (simp add: fun_eq_iff ppp_stays_def same_heapD [OF assms])

lemma same_heap_retain:
  assumes "same_heap core m m'"
  shows "retain_ppps core up m' v xs = retain_ppps core up m v xs"
  by (simp add: retain_ppps_eq same_heap_stays [OF assms] same_heapD [OF assms])

lemma dead_ppps_effect:
  assumes "do_work env tls RemoveDeadPPPs w = Inr w'" "same_heap (env_core env) m (w_core w)"
  shows "ppp_view w' = stayed (env_core env) (env_up env) m (w_vm w) (ppp_view w)"
  using assms(1)
  by (auto simp: do_work_def remove_dead_ppps_do_work_def bind_res_eq_Inr Let_def
      try_lock_expect_Inr ppp_view_def stayed_def put_ppps_def same_heap_retain [OF assms(2)]
      split: prod.splits)

interpretation ppp_closing: closing_once env m RemoveDeadPPPs
    "\<lambda>w. ppp_view w = x" "\<lambda>w. \<exists>v. ppp_view w = stayed (env_core env) (env_up env) m v x" for env m x
proof
  fix w :: "('a, 'b) world" and w' packet tls
  assume d: "do_work env tls packet w = Inr w'" "packet \<noteq> RemoveDeadPPPs" "closing_ctx (env_core env) m w"
  then have "ppp_view w' = ppp_view w"
    by (simp add: do_work_frame closing_ctx_def)
  then show "(ppp_view w = x \<longrightarrow> ppp_view w' = x) \<and>
      ((\<exists>v. ppp_view w = stayed (env_core env) (env_up env) m v x) \<longrightarrow>
       (\<exists>v. ppp_view w' = stayed (env_core env) (env_up env) m v x))"
    by simp
next
  fix w :: "('a, 'b) world" and w' tls
  assume "do_work env tls RemoveDeadPPPs w = Inr w'" "closing_ctx (env_core env) m w" "ppp_view w = x"
  then show "\<exists>v. ppp_view w' = stayed (env_core env) (env_up env) m v x"
    using dead_ppps_effect [of env tls w w' m] by (auto simp: closing_ctx_def)
qed simp_all

definition retained :: "'m mmtk_core \<Rightarrow> 'm \<Rightarrow> (objref set \<Rightarrow> objref list) \<Rightarrow> objref set mutex \<Rightarrow> objref set mutex" where
  "retained core m ord W = W\<lparr>mutex_data := retain_wb_unprotected core m (ord (mutex_data W))\<rparr>"

lemma wb_effect:
  assumes "do_work env tls UpdateWbUnprotectedObjectsList w = Inr w'" "same_heap (env_core env) m (w_core w)"
  shows "wb_view w' = retained (env_core env) m (env_set_order env) (wb_view w)"
  using assms(1)
  by (auto simp: do_work_def update_wb_unprotected_objects_list_do_work_def bind_res_eq_Inr Let_def
      try_lock_expect_Inr retain_wb_unprotected_eq same_heapD [OF assms(2)] wb_view_def retained_def
      put_wb_unprotected_def)

interpretation wb_closing: closing_once env m UpdateWbUnprotectedObjectsList
    "\<lambda>w. wb_view w = x" "\<lambda>w. wb_view w = retained (env_core env) m (env_set_order env) x" for env m x
  by unfold_locales (auto simp: do_work_frame closing_ctx_def wb_effect)

section \<open>From the start of a cycle to the closing bucket\<close>

definition same_registries :: "('m, 'v) world \<Rightarrow> ('m, 'v) world \<Rightarrow> bool" where
  "same_registries w w' \<longleftrightarrow> cand_view w' = cand_view w \<and> ppp_view w' = ppp_view w \<and>
     wb_view w' = wb_view w \<and> plan_name (w_binding w') = plan_name (w_binding w)"

text \<open>Tracing moves objects, and records their ivar tables, but leaves the registries to the closing bucket.\<close>

definition trace_keeps_registries :: "(('m, 'v) world \<Rightarrow> ('m, 'v) world \<Rightarrow> bool) \<Rightarrow> bool" where
  "trace_keeps_registries trace \<longleftrightarrow> (\<forall>w w'. trace w w' \<longrightarrow> same_registries w w')"

lemma same_registries_refl [simp]: "same_registries w w"
  by (simp add: same_registries_def)

lemma same_registries_trans: "same_registries a b \<Longrightarrow> same_registries b c \<Longrightarrow> same_registries a c"
  by (simp add: same_registries_def)

lemma same_registries_upd [simp]:
  "same_registries w (submit st ps w') = same_registries w w'"
  "same_registries w (w'\<lparr>w_buckets := b\<rparr>) = same_registries w w'"
  "same_registries w (w'\<lparr>w_vm := v\<rparr>) = same_registries w w'"
  "same_registries w (w'\<lparr>w_root_work := rs\<rparr>) = same_registries w w'"
  "same_registries w (w'\<lparr>w_latches := ls\<rparr>) = same_registries w w'"
  "same_registries w (put_pinned xs w') = same_registries w w'"
  "same_registries (w\<lparr>w_buckets := b\<rparr>) w' = same_registries w w'"
  "same_registries (submit st ps w) w' = same_registries w w'"
  by (simp_all add: same_registries_def cand_view_def ppp_view_def wb_view_def submit_def put_pinned_def)

lemma put_pinned_latches [simp]: "w_latches (put_pinned xs w) = w_latches w"
  by (simp add: put_pinned_def)

lemma same_registries_emit [simp]:
  "\<not> ledger_probe p \<Longrightarrow> same_registries w (emit p w') = same_registries w w'"
  by (simp add: same_registries_def cand_view_def ppp_view_def wb_view_def ledger_probes)

lemma prepare_packet_registries:
  assumes "do_work env tls packet w = Inr w'" "prepare_packet_ok packet" "latches_hold_bins w"
  shows "same_registries w w' \<and> w_latches w' = w_latches w"
proof
  have p: "packet \<noteq> ProcessObjFreeCandidates" "packet \<noteq> UpdateWbUnprotectedObjectsList"
    "packet \<noteq> RemoveDeadPPPs"
    using assms(2) by (auto simp: global_root_scanners_def)
  show "same_registries w w'"
    using do_work_frame [OF assms(1,3)] p by (simp add: same_registries_def)
  show "w_latches w' = w_latches w"
    using assms(1)
  proof (cases rule: do_work_result)
    case (pin chunk)
    from pin(2) show ?thesis by (rule pin_do_work_effect)
  next
    case (entries name tbl b e wk wv fwd aid)
    with assms(2) show ?thesis by (simp add: global_root_scanners_def)
  qed (simp_all add: world_put_defs)
qed

lemma prepare_step_registries:
  assumes "prepare_step env w w'" and inv: "prepare_inv pinned P moving w" and l: "latches_hold_bins w"
  shows "same_registries w w' \<and> latches_hold_bins w'"
  using assms(1)
proof cases
  case prepare_packet
  then obtain xs packet ys tls where b: "w_buckets w Prepare = xs @ packet # ys"
    and d: "do_work env tls packet (w\<lparr>w_buckets := (w_buckets w)(Prepare := xs @ ys)\<rparr>) = Inr w'"
    by (auto elim: bucket_stepE)
  have "prepare_packet_ok packet"
    using inv b by (simp add: prepare_inv_def)
  with prepare_packet_registries [OF d this] l show ?thesis
    by (auto simp: latches_hold_bins_def)
next
  case (prepare_vm_roots tls)
  then show ?thesis
    using l by (auto simp: scan_vm_specific_roots_def bind_res_eq_Inr Let_def latches_hold_bins_def
        split: if_splits)
next
  case (prepare_mutator tls mutator_tls)
  then show ?thesis
    using l by (auto simp: scan_roots_in_mutator_thread_def bind_res_eq_Inr latches_hold_bins_def
        dest!: collect_object_roots_result)
qed

lemma prepare_run_registries:
  assumes "pin_contract (env_core env) pinned" "(prepare_step env)\<^sup>*\<^sup>* w w'"
    and "prepare_inv pinned P moving w" "latches_hold_bins w"
  shows "same_registries w w' \<and> latches_hold_bins w'"
  using assms(2)
proof (induction rule: rtranclp_induct)
  case (step u w')
  have "prepare_inv pinned P moving u"
    using assms(1) step(1) assms(3) by (rule prepare_run_inv)
  with prepare_step_registries [OF step(2)] step(3) show ?case
    by (blast intro: same_registries_trans)
qed (simp add: assms(4))

lemma stop_all_mutators_registries:
  assumes "stop_all_mutators cfg core up tls_mem tls visitor f w0 = Inr (f', w1)"
  shows "same_registries w0 w1 \<and> w_latches w1 = w_latches w0"
  using assms
  by (auto simp: stop_all_mutators_def pin_ppp_children_def bind_res_eq_Inr split: if_splits)

lemma weak_table_registries:
  assumes "process_weak_table_chunked cfg up name table wk wv fwd w = Inr w'" "latches_hold_bins w"
  shows "same_registries w w' \<and> latches_hold_bins w' \<and> w_core w' = w_core w \<and> w_binding w' = w_binding w \<and>
    (\<exists>ps. w_buckets w' = bulk_add VMRefClosure (map (entries_packet name table wk wv fwd (length (w_latches w))) ps)
       (w_buckets w))"
  using assms(1)
proof (rule process_weak_table_chunked_result)
  fix entries bins es eb bn n
  assume "w' = submit VMRefClosure (map (entries_packet name table wk wv fwd (length (w_latches w))) entries)
      (emit (Probe_initial_weak_table_stats es eb bn n name) w\<lparr>w_latches := w_latches w @
        [\<lparr>counter = of_nat (length entries), stage = VMRefClosure,
          packets = map (bins_packet name table) bins\<rparr>]\<rparr>)"
  then show ?thesis
    using assms(2) by (auto simp: latches_hold_bins_def bins_packet_def)
qed

text \<open>The name of the plan is not touched by any packet.\<close>

interpretation plan_closing: bucket_invariant env VMRefClosure
    "\<lambda>w. closing_ctx (env_core env) m w \<and> plan_name (w_binding w) = x" for env m x
proof
  fix w :: "('a, 'b) world" and w' xs packet ys tls
  let ?w = "w\<lparr>w_buckets := (w_buckets w)(VMRefClosure := xs @ ys)\<rparr>"
  assume "closing_ctx (env_core env) m w \<and> plan_name (w_binding w) = x"
    and d: "do_work env tls packet ?w = Inr w'"
  then have ctx: "closing_ctx (env_core env) m ?w" "plan_name (w_binding w) = x"
    by (simp_all add: closing_ctx_def latches_hold_bins_def)
  then have l: "latches_hold_bins ?w"
    by (simp add: closing_ctx_def)
  show "closing_ctx (env_core env) m w' \<and> plan_name (w_binding w') = x"
    using do_work_closing [OF d ctx(1)] do_work_frame(5) [OF d l] ctx(2) by simp
qed

text \<open>What \<open>process_weak_refs\<close> puts into the closing bucket has one packet for each registry.\<close>

fun is_entries_packet :: "gc_work \<Rightarrow> bool" where
  "is_entries_packet (UpdateTableEntriesParallel name tbl b e wk wv fwd aid) = True"
| "is_entries_packet _ = False"

lemma entries_packet_is [simp]: "is_entries_packet (entries_packet name table wk wv fwd aid r)"
  by (simp add: entries_packet_def)

lemma process_weak_refs_bucket:
  assumes "process_weak_refs cfg core up w = Inr (again, w')" "latches_hold_bins w"
    "w_buckets w VMRefClosure = []"
  obtains es us where "same_registries w w'" "latches_hold_bins w'" "w_core w' = w_core w"
    "w_buckets w' VMRefClosure = ProcessObjFreeCandidates # weak_packets @ es @ RemoveDeadPPPs # us"
    "\<forall>p \<in> set es. is_entries_packet p"
    "\<forall>u \<in> set us. is_unpin_packet u"
proof -
  obtain w1 where w1: "process_weak_stuff cfg core up w = Inr w1" "cleanup_ppps cfg core w1 = Inr w'"
    using assms(1) by (auto simp: process_weak_refs_def bind_res_eq_Inr)
  let ?w2 = "submit VMRefClosure weak_packets (submit VMRefClosure [ProcessObjFreeCandidates] w)"
  obtain w3 n1 t1 f1 n2 t2 f2 where
    w3: "process_weak_table_chunked cfg up n1 t1 True False f1 ?w2 = Inr w3"
    and w4: "process_weak_table_chunked cfg up n2 t2 False True f2 w3 = Inr w1"
    using w1(1) by (auto simp: process_weak_stuff_def Let_def bind_res_eq_Inr)
  have "latches_hold_bins ?w2"
    using assms(2) by (simp add: latches_hold_bins_def)
  from weak_table_registries [OF w3 this] obtain ps where
    r3: "same_registries w w3" "latches_hold_bins w3" "w_core w3 = w_core w"
      "w_buckets w3 VMRefClosure = ProcessObjFreeCandidates # weak_packets @
        map (entries_packet n1 t1 True False f1 (length (w_latches ?w2))) ps"
    using assms(3) by auto
  have "same_registries w w1"
    using weak_table_registries [OF w4 r3(2)] r3(1) by (blast intro: same_registries_trans)
  with weak_table_registries [OF w4 r3(2)] obtain qs where
    r1: "same_registries w w1" "latches_hold_bins w1" "w_core w1 = w_core w"
      "w_buckets w1 VMRefClosure = ProcessObjFreeCandidates # weak_packets @
        map (entries_packet n1 t1 True False f1 (length (w_latches ?w2))) ps @
        map (entries_packet n2 t2 False True f2 (length (w_latches w3))) qs"
    using r3(3,4) by auto
  have "same_registries w w' \<and> latches_hold_bins w' \<and> w_core w' = w_core w \<and>
    (\<exists>us. w_buckets w' VMRefClosure = w_buckets w1 VMRefClosure @ RemoveDeadPPPs # us \<and>
       (\<forall>u \<in> set us. is_unpin_packet u))"
    using w1(2) r1
    by (auto simp: cleanup_ppps_def Let_def bind_res_eq_Inr latches_hold_bins_def split: if_splits)
  then obtain us where "same_registries w w'" "latches_hold_bins w'" "w_core w' = w_core w"
    "w_buckets w' VMRefClosure = w_buckets w1 VMRefClosure @ RemoveDeadPPPs # us" "\<forall>u \<in> set us. is_unpin_packet u"
    by blast
  with r1(4) show thesis
    by (intro that [of "map (entries_packet n1 t1 True False f1 (length (w_latches ?w2))) ps @
        map (entries_packet n2 t2 False True f2 (length (w_latches w3))) qs" us]) auto
qed

lemma process_weak_refs_opens:
  assumes "process_weak_refs cfg core up w = Inr (again, w')" "latches_hold_bins w"
    "w_buckets w VMRefClosure = []"
    and P: "P \<in> {ProcessObjFreeCandidates, UpdateGenericIvTbl, UpdateWbUnprotectedObjectsList, RemoveDeadPPPs}"
  shows "same_registries w w'" "latches_hold_bins w'" "w_core w' = w_core w"
    "count_list (w_buckets w' VMRefClosure) P = 1"
proof -
  obtain es us where r: "same_registries w w'" "latches_hold_bins w'" "w_core w' = w_core w"
    and b: "w_buckets w' VMRefClosure = ProcessObjFreeCandidates # weak_packets @ es @ RemoveDeadPPPs # us"
      "\<forall>p \<in> set es. is_entries_packet p"
      "\<forall>u \<in> set us. is_unpin_packet u"
    using assms(1-3) by (rule process_weak_refs_bucket)
  have "count_list es P = 0" "count_list us P = 0"
    using b(2,3) P by (auto simp: count_list_0_iff)
  then show "count_list (w_buckets w' VMRefClosure) P = 1"
    using P by (auto simp: b(1) count_list_append weak_packets_def)
  show "same_registries w w'" "latches_hold_bins w'" "w_core w' = w_core w"
    by (rule r)+
qed

section \<open>A whole cycle\<close>

text \<open>The state between cycles, for the registries.\<close>

definition settled :: "('m, 'v) world \<Rightarrow> bool" where
  "settled w \<longleftrightarrow> quiescent w \<and> latches_hold_bins w \<and> finite (mutex_data (wb_view w)) \<and>
     registries_free (w_binding w)"

lemma registries_free_views:
  "registries_free (w_binding w) \<longleftrightarrow> mutex_free (obj_free_candidates (fst (cand_view w))) \<and>
     mutex_free (fst (ppp_view w)) \<and> mutex_free (wb_view w)"
  by (simp add: registries_free_def cand_view_def ppp_view_def wb_view_def)

text \<open>
  The registries after a cycle: \<open>m\<close> is the core state when tracing ended, and \<open>v\<close> the VM state in
  which \<open>RemoveDeadPPPs\<close> asked the VM.
\<close>

definition registries_updated ::
  "'m mmtk_core \<Rightarrow> 'v ruby_upcalls \<Rightarrow> 'm \<Rightarrow> 'v \<Rightarrow> ('m, 'v) world \<Rightarrow> ('m, 'v) world \<Rightarrow> bool" where
  "registries_updated core up m v w w' \<longleftrightarrow>
     cand_view w' = swept core m (cand_view w) \<and>
     ppp_view w' = stayed core up m v (ppp_view w) \<and>
     wb_view w' = (wb_view w)\<lparr>mutex_data :=
       forward core m ` {ob \<in> mutex_data (wb_view w). mc_is_reachable core ob m}\<rparr> \<and>
     mutex_data (moved_givtbl (w_binding w')) = Map.empty \<and>
     plan_name (w_binding w') = plan_name (w_binding w)"

lemma closing_phase_registries:
  assumes "pins_keep_heap (env_core env)" "hash_set_order (env_set_order env)"
    and "process_weak_refs (env_build env) (env_core env) (env_up env) w3 = Inr (again, w4)"
    and "latches_hold_bins w3" "w_buckets w3 VMRefClosure = []" "finite (mutex_data (wb_view w3))"
    and run: "(bucket_step env VMRefClosure)\<^sup>*\<^sup>* w4 w5" "w_buckets w5 VMRefClosure = []"
  shows "\<exists>v. registries_updated (env_core env) (env_up env) (w_core w3) v w3 w5"
proof -
  let ?core = "env_core env" and ?m = "w_core w3"
  note opens = process_weak_refs_opens [OF assms(3-5)]
  have ctx: "closing_ctx ?core ?m w4" and same: "same_registries w3 w4"
    using opens(1-3) [of ProcessObjFreeCandidates] assms(1) by (simp_all add: closing_ctx_def)
  have "cand_view w5 = swept ?core ?m (cand_view w3)"
    using same by (intro cand_closing.done_once [OF ctx _ opens(4) run]) (simp_all add: same_registries_def)
  moreover have "\<exists>v. ppp_view w5 = stayed ?core (env_up env) ?m v (ppp_view w3)"
    using same by (intro ppp_closing.done_once [OF ctx _ opens(4) run]) (simp_all add: same_registries_def)
  moreover have "wb_view w5 = retained ?core ?m (env_set_order env) (wb_view w3)"
    using same by (intro wb_closing.done_once [OF ctx _ opens(4) run]) (simp_all add: same_registries_def)
  then have "wb_view w5 = (wb_view w3)\<lparr>mutex_data :=
      forward ?core ?m ` {ob \<in> mutex_data (wb_view w3). mc_is_reachable ?core ob ?m}\<rparr>"
    using assms(2,6) by (simp add: retained_def retain_wb_unprotected_eq hash_set_order_def)
  moreover have "mutex_data (moved_givtbl (w_binding w5)) = Map.empty"
    by (intro givtbl_closing.done_once [OF ctx _ opens(4) run]) simp_all
  moreover have "plan_name (w_binding w5) = plan_name (w_binding w3)"
    using plan_closing.run_keeps [OF run(1), of ?m "plan_name (w_binding w3)"] ctx same
    by (simp add: same_registries_def)
  ultimately show ?thesis
    by (auto simp: registries_updated_def)
qed

lemma gc_cycle_registries_step:
  assumes c: "pin_contract (env_core env) pinned"
    and t: "trace_keeps_pins (env_core env) pinned trace" "trace_keeps_registries trace"
    and k: "pins_keep_heap (env_core env)" "hash_set_order (env_set_order env)"
    and g: "gc_cycle env trace w0 w5" and s: "settled w0"
  shows "\<exists>w2 w3 v. trace w2 w3 \<and> same_registries w0 w2 \<and>
    registries_updated (env_core env) (env_up env) (w_core w3) v w0 w5 \<and> settled w5"
  using g
proof cases
  case (cycle tls visitor f f' w1 w2 w3 again w4)
  have q: "quiescent w0" and l0: "latches_hold_bins w0"
    using s by (simp_all add: settled_def)
  have p1: "prepare_inv pinned (pinned (w_core w0)) (gc_mode (env_core env) w0) w1"
    using cycle(1) q by (rule stop_all_mutators_inv)
  have r1: "same_registries w0 w1" "latches_hold_bins w1"
    using stop_all_mutators_registries [OF cycle(1)] l0 by (simp_all add: latches_hold_bins_def)
  have r2: "same_registries w1 w2" "latches_hold_bins w2"
    using prepare_run_registries [OF c cycle(2) p1 r1(2)] by simp_all
  have p2: "prepare_inv pinned (pinned (w_core w0)) (gc_mode (env_core env) w0) w2"
    using c cycle(2) p1 by (rule prepare_run_inv)
  have r3: "same_registries w2 w3" "latches_hold_bins w3" "w_buckets w3 VMRefClosure = []"
    using t cycle(4) r2(2) p2
    by (auto simp: trace_keeps_registries_def trace_keeps_pins_def latches_hold_bins_def prepare_inv_def)
  have all: "same_registries w0 w3" "same_registries w0 w2"
    using r1(1) r2(1) r3(1) by (auto intro: same_registries_trans)
  then have fin: "finite (mutex_data (wb_view w3))"
    using s by (simp add: same_registries_def settled_def)
  obtain v where v: "registries_updated (env_core env) (env_up env) (w_core w3) v w3 w5"
    using closing_phase_registries [OF k cycle(6) r3(2,3) fin cycle(7,8)] by blast
  then have "finite (mutex_data (wb_view w5))"
    using fin by (simp add: registries_updated_def)
  moreover have "registries_free (w_binding w5)"
    using v all(1) s by (auto simp: settled_def registries_free_views registries_updated_def
        same_registries_def swept_def stayed_def Let_def split: prod.splits)
  moreover have "quiescent w5"
    using gc_cycle_pins [OF c t(1) g q] by simp
  moreover have "latches_hold_bins w5"
  proof -
    have "closing_ctx (env_core env) (w_core w3) w4"
      using process_weak_refs_opens(2,3) [OF cycle(6) r3(2,3), of ProcessObjFreeCandidates] k(1)
      by (simp add: closing_ctx_def)
    then have "givtbl_closing.progress env (w_core w3) w4"
      using process_weak_refs_opens(4) [OF cycle(6) r3(2,3), of UpdateGenericIvTbl]
      by (simp add: givtbl_closing.progress_def)
    with cycle(7) have "givtbl_closing.progress env (w_core w3) w5"
      by (rule givtbl_closing.run_keeps)
    then show ?thesis
      by (simp add: givtbl_closing.progress_def closing_ctx_def)
  qed
  ultimately show ?thesis
    using cycle(4) all v by (auto simp: settled_def registries_updated_def same_registries_def)
qed

end
