(* ===== verification/Api_Protocol.thy ===== *)
theory Api_Protocol
  imports Core_Api
begin

text \<open>
  The protocol of the C API. The VM gets raw pointers from the API (a builder, mutators, vectors) and
  has to give each back once; it has to initialise the binding once, before most other calls. The
  theory states this protocol as an abstract machine that knows no memory, and shows that it is
  exactly what the implementation needs: calls within it return, calls outside it panic or are
  undefined behaviour.
\<close>

section \<open>Calls and their execution\<close>

text \<open>
  The state of the process as the API sees it. \<open>as_returned\<close> holds the vectors C has been given, in
  order: C refers to one by its number.
\<close>

record ('m, 'mu) api_state =
  as_core :: 'm
  as_statics :: statics
  as_builders :: builders
  as_mutators :: "'mu boxes"
  as_leaked :: leaked
  as_returned :: "raw_vec_of_obj_ref list"

text \<open>
  Where a call allocates, its first argument is the address the allocator chooses (and for a vector
  the capacity).
\<close>

datatype 'sem api_call =
    Builder_default address
  | Builder_read_env address
  | Builder_dynamic_heap address usize usize
  | Builder_fixed_heap address usize
  | Builder_plan address "string option"
  | Init_binding address
  | Bind_mutator address address
  | Destroy_mutator address
  | Alloc_object address usize usize usize 'sem
  | Post_alloc address objref usize 'sem
  | Write_post address objref
  | Enable_collection
  | Disable_collection
  | Initialize_collection address
  | After_fork address
  | User_collection address bool bool
  | Gc_poll address
  | Harness_begin address
  | Harness_end address
  | Plan_name
  | Used_bytes
  | Report mutator_call
  | Take_candidates address usize
  | Free_vec nat

text \<open>What an API call depends on beside the state: the environment and the parameters of the model.\<close>

record ('m, 'mu, 'sem) api_env =
  ae_rules :: option_rules
  ae_vars :: "string \<rightharpoonup> string"
  ae_options :: ruby_binding_options
  ae_manager :: "('m, 'mu, 'sem) mmtk_manager"
  ae_plan_name :: string

definition on_builders ::
  "(builders \<Rightarrow> builders res) \<Rightarrow> ('m, 'mu) api_state \<Rightarrow> ('m, 'mu) api_state res" where
  "on_builders f s = bind_res (f (as_builders s)) (\<lambda>bs. Inr (s\<lparr>as_builders := bs\<rparr>))"

definition on_core ::
  "(statics \<Rightarrow> 'm \<Rightarrow> 'm res) \<Rightarrow> ('m, 'mu) api_state \<Rightarrow> ('m, 'mu) api_state res" where
  "on_core f s = bind_res (f (as_statics s) (as_core s)) (\<lambda>m. Inr (s\<lparr>as_core := m\<rparr>))"

definition on_mutators ::
  "('m \<times> 'mu boxes \<Rightarrow> ('m \<times> 'mu boxes) res) \<Rightarrow> ('m, 'mu) api_state \<Rightarrow> ('m, 'mu) api_state res" where
  "on_mutators f s = bind_res (f (as_core s, as_mutators s)) (\<lambda>(m, mus).
     Inr (s\<lparr>as_core := m, as_mutators := mus\<rparr>))"

definition on_statics ::
  "(statics \<Rightarrow> statics res) \<Rightarrow> ('m, 'mu) api_state \<Rightarrow> ('m, 'mu) api_state res" where
  "on_statics f s = bind_res (f (as_statics s)) (\<lambda>g. Inr (s\<lparr>as_statics := g\<rparr>))"

fun run_api ::
  "('m, 'mu, 'sem) api_env \<Rightarrow> 'sem api_call \<Rightarrow> ('m, 'mu) api_state \<Rightarrow> ('m, 'mu) api_state res" where
  "run_api env (Builder_default p) s =
     on_builders (\<lambda>bs. Inr (snd (mmtk_builder_default (ae_rules env) p bs))) s"
| "run_api env (Builder_read_env p) s =
     on_builders (mmtk_builder_read_env_var_settings (ae_manager env) p) s"
| "run_api env (Builder_dynamic_heap p low high) s =
     on_builders (mmtk_builder_set_dynamic_heap_size (ae_rules env) p low high) s"
| "run_api env (Builder_fixed_heap p n) s =
     on_builders (mmtk_builder_set_fixed_heap_size (ae_rules env) p n) s"
| "run_api env (Builder_plan p name) s =
     on_builders (mmtk_builder_set_plan (ae_rules env) p name) s"
| "run_api env (Init_binding p) s =
     bind_res (mmtk_init_binding (ae_vars env) p (ae_options env) (as_statics s, as_builders s))
       (\<lambda>(g, bs). Inr (s\<lparr>as_statics := g, as_builders := bs\<rparr>))"
| "run_api env (Bind_mutator p tls) s =
     on_mutators (\<lambda>mm. bind_res (mmtk_bind_mutator (ae_manager env) p tls (as_statics s) mm)
       (\<lambda>(_, mm'). Inr mm')) s"
| "run_api env (Destroy_mutator p) s = on_mutators (mmtk_destroy_mutator (ae_manager env) p) s"
| "run_api env (Alloc_object p sz align offset sem) s =
     on_mutators (\<lambda>mm. bind_res (mmtk_alloc_call (ae_manager env) p sz align offset sem mm)
       (\<lambda>(_, mm'). Inr mm')) s"
| "run_api env (Post_alloc p refer bytes sem) s =
     on_mutators (mmtk_post_alloc (ae_manager env) p refer bytes sem) s"
| "run_api env (Write_post p ob) s = on_mutators (mmtk_write_post_call (ae_manager env) p ob) s"
| "run_api env Enable_collection s = on_statics (\<lambda>g. Inr (mmtk_enable_collection g)) s"
| "run_api env Disable_collection s = on_statics (\<lambda>g. Inr (mmtk_disable_collection g)) s"
| "run_api env (Initialize_collection tls) s =
     on_core (mmtk_initialize_collection (ae_manager env) tls) s"
| "run_api env (After_fork tls) s = on_core (mmtk_after_fork (ae_manager env) tls) s"
| "run_api env (User_collection tls force exhaustive) s =
     on_core (mmtk_handle_user_collection_request (ae_manager env) tls force exhaustive) s"
| "run_api env (Gc_poll tls) s = on_core (mmtk_gc_poll (ae_manager env) tls) s"
| "run_api env (Harness_begin tls) s = on_core (mmtk_harness_begin (ae_manager env) tls) s"
| "run_api env (Harness_end tls) s = on_core (mmtk_harness_end (ae_manager env) tls) s"
| "run_api env Plan_name s = on_statics (\<lambda>g.
     bind_res (mmtk_plan_name (ae_plan_name env) g) (\<lambda>(_, g'). Inr g')) s"
| "run_api env Used_bytes s =
     bind_res (mmtk_used_bytes (ae_manager env) (as_statics s) (as_core s)) (\<lambda>_. Inr s)"
| "run_api env (Report call) s = on_statics (run_call call) s"
| "run_api env (Take_candidates p c) s =
     bind_res (mmtk_get_all_obj_free_candidates (\<lambda>_. (p, c)) (as_statics s, as_leaked s))
       (\<lambda>(raw, g, leaked). Inr (s\<lparr>as_statics := g, as_leaked := leaked,
          as_returned := as_returned s @ [raw]\<rparr>))"
| "run_api env (Free_vec i) s =
     (if length (as_returned s) \<le> i then Inl (UB ''not a vector from the API'')
      else bind_res (mmtk_free_raw_vec_of_obj_ref (as_returned s ! i) (as_leaked s))
        (\<lambda>leaked. Inr (s\<lparr>as_leaked := leaked\<rparr>)))"

text \<open>The process before the first call.\<close>

definition api_start :: "'m \<Rightarrow> ('m, 'mu) api_state" where
  "api_start m = \<lparr>as_core = m, as_statics = statics_new, as_builders = Map.empty,
     as_mutators = Map.empty, as_leaked = Map.empty, as_returned = []\<rparr>"

section \<open>The protocol\<close>

text \<open>
  What the client has to remember: the builders and mutators it holds, whether the binding is
  initialised, how many vectors it was given, and the buffers of those it has not freed. \<open>pr_reports\<close>
  bounds the number of candidates the binding can hold.
\<close>

record protocol =
  pr_builders :: "address set"
  pr_ready :: bool
  pr_mutators :: "address set"
  pr_reports :: nat
  pr_taken :: nat
  pr_vecs :: "nat \<rightharpoonup> address"

definition protocol_start :: protocol where
  "protocol_start = \<lparr>pr_builders = {}, pr_ready = False, pr_mutators = {}, pr_reports = 0,
     pr_taken = 0, pr_vecs = Map.empty\<rparr>"

text \<open>The promise of the allocator: what it returns is nobody else's, and large enough.\<close>

fun fresh_ok :: "protocol \<Rightarrow> 'sem api_call \<Rightarrow> bool" where
  "fresh_ok pr (Builder_default p) = (p \<notin> pr_builders pr)"
| "fresh_ok pr (Bind_mutator p tls) = (p \<notin> pr_mutators pr)"
| "fresh_ok pr (Take_candidates p c) = (p \<notin> ran (pr_vecs pr) \<and> 0 < c \<and> pr_reports pr \<le> unat c)"
| "fresh_ok pr _ = True"

definition guard_step :: "bool \<Rightarrow> protocol \<Rightarrow> protocol option" where
  "guard_step b pr = (if b then Some pr else None)"

text \<open>The obligation of the client, and what it knows after the call.\<close>

fun protocol_step :: "option_rules \<Rightarrow> 'sem api_call \<Rightarrow> protocol \<Rightarrow> protocol option" where
  "protocol_step rules (Builder_default p) pr =
     Some (pr\<lparr>pr_builders := insert p (pr_builders pr)\<rparr>)"
| "protocol_step rules (Builder_read_env p) pr = guard_step (p \<in> pr_builders pr) pr"
| "protocol_step rules (Builder_dynamic_heap p low high) pr = guard_step (p \<in> pr_builders pr) pr"
| "protocol_step rules (Builder_fixed_heap p n) pr = guard_step (p \<in> pr_builders pr) pr"
| "protocol_step rules (Builder_plan p name) pr =
     guard_step (p \<in> pr_builders pr \<and> (\<exists>s. name = Some s \<and> parse_plan rules s \<noteq> None)) pr"
| "protocol_step rules (Init_binding p) pr =
     guard_step (p \<in> pr_builders pr \<and> \<not> pr_ready pr)
       (pr\<lparr>pr_builders := pr_builders pr - {p}, pr_ready := True\<rparr>)"
| "protocol_step rules (Bind_mutator p tls) pr =
     guard_step (pr_ready pr) (pr\<lparr>pr_mutators := insert p (pr_mutators pr)\<rparr>)"
| "protocol_step rules (Destroy_mutator p) pr =
     guard_step (p \<in> pr_mutators pr) (pr\<lparr>pr_mutators := pr_mutators pr - {p}\<rparr>)"
| "protocol_step rules (Alloc_object p sz align offset sem) pr = guard_step (p \<in> pr_mutators pr) pr"
| "protocol_step rules (Post_alloc p refer bytes sem) pr = guard_step (p \<in> pr_mutators pr) pr"
| "protocol_step rules (Write_post p ob) pr = guard_step (p \<in> pr_mutators pr) pr"
| "protocol_step rules Enable_collection pr = Some pr"
| "protocol_step rules Disable_collection pr = Some pr"
| "protocol_step rules (Report call) pr =
     guard_step (pr_ready pr) (pr\<lparr>pr_reports := pr_reports pr + length (candidate_reports call)\<rparr>)"
| "protocol_step rules (Take_candidates p c) pr =
     guard_step (pr_ready pr) (pr\<lparr>pr_reports := 0, pr_taken := Suc (pr_taken pr),
       pr_vecs := (pr_vecs pr)(pr_taken pr \<mapsto> p)\<rparr>)"
| "protocol_step rules (Free_vec i) pr =
     guard_step (pr_vecs pr i \<noteq> None) (pr\<lparr>pr_vecs := (pr_vecs pr)(i := None)\<rparr>)"
| "protocol_step rules call pr = guard_step (pr_ready pr) pr"

section \<open>The protocol describes the process\<close>

definition vec_live :: "address \<Rightarrow> raw_vec_of_obj_ref \<Rightarrow> leaked \<Rightarrow> bool" where
  "vec_live p raw leaked \<longleftrightarrow> ptr raw = p \<and> capa raw \<noteq> 0 \<and>
     (\<exists>items. leaked p = Some (items, capa raw) \<and> unat (len raw) \<le> length items)"

definition binding_ok :: "nat \<Rightarrow> ruby_binding \<Rightarrow> bool" where
  "binding_ok n b \<longleftrightarrow> registries_free b \<and> mutex_free (plan_name b) \<and>
     length (candidates (weak_proc b)) \<le> n"

definition vecs_ok ::
  "nat \<Rightarrow> (nat \<rightharpoonup> address) \<Rightarrow> raw_vec_of_obj_ref list \<Rightarrow> leaked \<Rightarrow> bool" where
  "vecs_ok n bufs returned leaked \<longleftrightarrow>
     n = length returned \<and> dom leaked = ran bufs \<and>
     (\<forall>i p. bufs i = Some p \<longrightarrow> i < n \<and> vec_live p (returned ! i) leaked) \<and>
     (\<forall>i j p. bufs i = Some p \<longrightarrow> bufs j = Some p \<longrightarrow> i = j)"

definition describes :: "protocol \<Rightarrow> ('m, 'mu) api_state \<Rightarrow> bool" where
  "describes pr s \<longleftrightarrow>
     dom (as_builders s) = pr_builders pr \<and> dom (as_mutators s) = pr_mutators pr \<and>
     (pr_ready pr \<longleftrightarrow> BINDING (as_statics s) \<noteq> None) \<and>
     (\<forall>b. BINDING (as_statics s) = Some b \<longrightarrow> binding_ok (pr_reports pr) b) \<and>
     vecs_ok (pr_taken pr) (pr_vecs pr) (as_returned s) (as_leaked s)"

lemma describes_start: "describes protocol_start (api_start m)"
  by (simp add: describes_def vecs_ok_def protocol_start_def api_start_def statics_new_def)

text \<open>Calls that only touch one part of the state.\<close>

lemma describes_builders:
  assumes "describes pr s" "dom bs = P"
  shows "describes (pr\<lparr>pr_builders := P\<rparr>) (s\<lparr>as_builders := bs\<rparr>)"
  using assms by (simp add: describes_def)

lemma describes_mutators:
  assumes "describes pr s" "dom mus = P"
  shows "describes (pr\<lparr>pr_mutators := P\<rparr>) (s\<lparr>as_core := m, as_mutators := mus\<rparr>)"
  using assms by (simp add: describes_def)

lemma describes_core: "describes pr (s\<lparr>as_core := m\<rparr>) = describes pr s"
  by (simp add: describes_def)

lemma describes_binding:
  assumes "describes pr s" "BINDING g = Some b" "binding_ok n b"
    "BINDING (as_statics s) \<noteq> None"
  shows "describes (pr\<lparr>pr_reports := n\<rparr>) (s\<lparr>as_statics := g\<rparr>)"
  using assms by (simp add: describes_def)

lemma builder_call:
  assumes "describes pr s" and "\<And>b. as_builders s p = Some b \<Longrightarrow> \<exists>b'. f (as_builders s) = Inr ((as_builders s)(p \<mapsto> b'))"
    and "p \<in> pr_builders pr"
  shows "\<exists>s'. on_builders f s = Inr s' \<and> describes pr s'"
proof -
  have "p \<in> dom (as_builders s)"
    using assms(1,3) by (simp add: describes_def)
  then obtain b where b: "as_builders s p = Some b"
    by blast
  then obtain b' where "f (as_builders s) = Inr ((as_builders s)(p \<mapsto> b'))"
    using assms(2) by blast
  then show ?thesis
    using assms(1) b by (auto simp: on_builders_def describes_def insert_absorb)
qed

lemma mutator_call_ok:
  assumes "describes pr s"
    and "\<And>mu. as_mutators s p = Some mu \<Longrightarrow> \<exists>m mu'. f (as_core s, as_mutators s) = Inr (m, (as_mutators s)(p \<mapsto> mu'))"
    and "p \<in> pr_mutators pr"
  shows "\<exists>s'. on_mutators f s = Inr s' \<and> describes pr s'"
proof -
  have "p \<in> dom (as_mutators s)"
    using assms(1,3) by (simp add: describes_def)
  then obtain mu where mu: "as_mutators s p = Some mu"
    by blast
  then obtain m mu' where "f (as_core s, as_mutators s) = Inr (m, (as_mutators s)(p \<mapsto> mu'))"
    using assms(2) by blast
  then show ?thesis
    using assms(1) mu by (auto simp: on_mutators_def describes_def insert_absorb)
qed

lemma not_ready:
  assumes "describes pr s" "\<not> pr_ready pr"
  shows "\<exists>e. binding (as_statics s) = Inl e"
  using assms by (auto simp: describes_def binding_def)

lemma vecs_take:
  assumes "vecs_ok n bufs returned leaked" "p \<notin> ran bufs" "vec_live p raw leaked'"
    "leaked' = leaked(p \<mapsto> x)"
  shows "vecs_ok (Suc n) (bufs(n \<mapsto> p)) (returned @ [raw]) leaked'"
proof -
  have old: "i < n" "q \<noteq> p" "i < length returned" if "bufs i = Some q" for i q
    using assms(1,2) that by (auto simp: vecs_ok_def ran_def)
  then have n: "bufs n = None" by (metis less_irrefl option.exhaust)
  have live: "vec_live q (returned ! i) leaked'" if "bufs i = Some q" for i q
    using assms(1,4) that old(2) [OF that] by (auto simp: vecs_ok_def vec_live_def)
  show ?thesis
    unfolding vecs_ok_def
  proof (intro conjI allI impI)
    show "Suc n = length (returned @ [raw])"
      using assms(1) by (simp add: vecs_ok_def)
    show "dom leaked' = ran (bufs(n \<mapsto> p))"
      using assms(1,4) n by (auto simp: vecs_ok_def ran_map_upd)
  next
    fix i q assume i: "(bufs(n \<mapsto> p)) i = Some q"
    show "i < Suc n"
      using i old(1) [of i q] by (auto split: if_splits intro: less_SucI)
    show "vec_live q ((returned @ [raw]) ! i) leaked'"
      using i assms(1,3) old(3) [of i q] live [of i q]
      by (auto simp: nth_append vecs_ok_def split: if_splits)
  next
    fix i j q assume "(bufs(n \<mapsto> p)) i = Some q" "(bufs(n \<mapsto> p)) j = Some q"
    then show "i = j"
      using old(2) assms(1) by (auto simp: vecs_ok_def split: if_splits)
  qed
qed

lemma vecs_free:
  assumes ok: "vecs_ok n bufs returned leaked" and i: "bufs i = Some p"
  shows "\<exists>v. into_vec (returned ! i) leaked = Inr (v, leaked(p := None)) \<and>
    vecs_ok n (bufs(i := None)) returned (leaked(p := None))"
proof -
  have live: "vec_live p (returned ! i) leaked"
    using ok i by (simp add: vecs_ok_def)
  have other: "q \<noteq> p" if "bufs j = Some q" "j \<noteq> i" for j q
    using ok i that by (auto simp: vecs_ok_def)
  have "ran (bufs(i := None)) = ran bufs - {p}"
    using i other by (force simp: ran_def)
  then have "vecs_ok n (bufs(i := None)) returned (leaked(p := None))"
    using ok other by (auto simp: vecs_ok_def vec_live_def)
  with live show ?thesis
    by (auto simp: vec_live_def into_vec_def)
qed

section \<open>Calls\<close>

lemma no_pointer:
  assumes "describes pr s"
  shows "p \<notin> pr_builders pr \<Longrightarrow> as_builders s p = None"
    "p \<notin> pr_mutators pr \<Longrightarrow> as_mutators s p = None"
  using assms by (auto simp: describes_def)

lemma report_call:
  assumes "describes pr s" "pr_ready pr"
  shows "\<exists>g. run_call call (as_statics s) = Inr g \<and>
    describes (pr\<lparr>pr_reports := pr_reports pr + length (candidate_reports call)\<rparr>) (s\<lparr>as_statics := g\<rparr>)"
proof -
  obtain b where b: "BINDING (as_statics s) = Some b" "binding_ok (pr_reports pr) b"
    using assms by (auto simp: describes_def)
  then have "registries_free b"
    by (simp add: binding_ok_def)
  from run_call_step [OF b(1) this, of call] obtain g b' where
    g: "run_call call (as_statics s) = Inr g" "BINDING g = Some b'" "registries_free b'"
      "candidates (weak_proc b') = candidates (weak_proc b) @ candidate_reports call"
    by blast
  moreover have "plan_name b' = plan_name b"
    using g(1,2) b(1)
    by (cases call) (auto simp: mmtk_add_obj_free_candidate_def mmtk_add_obj_free_candidates_def
        mmtk_register_ppp_def mmtk_register_ppps_def mmtk_register_wb_unprotected_object_def
        register_wb_unprotected_object_def with_binding_def binding_def bind_res_eq_Inr)
  ultimately show ?thesis
    using assms b by (auto simp: binding_ok_def describes_def)
qed

lemma report_not_ready:
  assumes "describes pr s" "\<not> pr_ready pr"
  shows "\<exists>e. run_call call (as_statics s) = Inl e"
proof -
  have "BINDING (as_statics s) = None"
    using assms by (auto simp: describes_def)
  then show ?thesis
    by (cases call) (simp_all add: mmtk_add_obj_free_candidate_def mmtk_add_obj_free_candidates_def
        mmtk_register_ppp_def mmtk_register_ppps_def mmtk_register_wb_unprotected_object_def
        with_binding_def binding_def)
qed

lemma take_call:
  assumes d: "describes pr s" and "pr_ready pr" and "p \<notin> ran (pr_vecs pr)" "0 < c" "pr_reports pr \<le> unat c"
  shows "\<exists>s'. run_api env (Take_candidates p c) s = Inr s' \<and>
    describes (pr\<lparr>pr_reports := 0, pr_taken := Suc (pr_taken pr),
      pr_vecs := (pr_vecs pr)(pr_taken pr \<mapsto> p)\<rparr>) s'"
proof -
  obtain b where b: "BINDING (as_statics s) = Some b" "binding_ok (pr_reports pr) b"
    using assms by (auto simp: describes_def)
  let ?xs = "candidates (weak_proc b)"
  let ?raw = "\<lparr>ptr = p, len = of_nat (length ?xs), capa = c\<rparr>"
  let ?leaked = "(as_leaked s)(p \<mapsto> (?xs, c))"
  have fits: "length ?xs \<le> unat c"
    using b(2) assms(5) by (simp add: binding_ok_def)
  then have "length ?xs < 2 ^ 64"
    using unat_usize_lt [of c] by linarith
  then have live: "vec_live p ?raw ?leaked"
    using assms(4) by (simp add: vec_live_def usize_simps)
  have "vecs_ok (Suc (pr_taken pr)) ((pr_vecs pr)(pr_taken pr \<mapsto> p)) (as_returned s @ [?raw]) ?leaked"
    using d by (intro vecs_take [OF _ assms(3) live refl]) (simp add: describes_def)
  then show ?thesis
    using d b assms(2,4)
    by (auto simp: mmtk_get_all_obj_free_candidates_def binding_def get_all_obj_free_candidates_def
        candidates_def from_vec_def Let_def describes_def binding_ok_def registries_free_def)
qed

lemma free_call:
  assumes d: "describes pr s" and i: "pr_vecs pr i = Some p"
  shows "\<exists>s'. run_api env (Free_vec i) s = Inr s' \<and>
    describes (pr\<lparr>pr_vecs := (pr_vecs pr)(i := None)\<rparr>) s'"
proof -
  have ok: "vecs_ok (pr_taken pr) (pr_vecs pr) (as_returned s) (as_leaked s)"
    using d by (simp add: describes_def)
  then have "i < length (as_returned s)"
    using i by (auto simp: vecs_ok_def)
  with vecs_free [OF ok i] d show ?thesis
    by (auto simp: mmtk_free_raw_vec_of_obj_ref_def describes_def)
qed

lemma init_call:
  assumes d: "describes pr s" and p: "p \<in> pr_builders pr" "\<not> pr_ready pr"
  shows "\<exists>s'. run_api env (Init_binding p) s = Inr s' \<and>
    describes (pr\<lparr>pr_builders := pr_builders pr - {p}, pr_ready := True\<rparr>) s'"
proof -
  have "p \<in> dom (as_builders s)" "BINDING (as_statics s) = None"
    using d p by (simp_all add: describes_def)
  moreover from this obtain x where "as_builders s p = Some x"
    by blast
  ultimately show ?thesis
    using d
    by (auto simp: mmtk_init_binding_def with_builder_def set_panic_hook_def ruby_binding_new_def Let_def
        describes_def binding_ok_def registries_free_def weak_processor_new_def ppp_registry_new_def
        candidates_def)
qed

lemma plan_name_call:
  assumes "describes pr s" "pr_ready pr" "CHR 0x00 \<notin> set name"
  shows "\<exists>g. bind_res (mmtk_plan_name name (as_statics s)) (\<lambda>(_, g'). Inr g') = Inr g \<and>
    describes pr (s\<lparr>as_statics := g\<rparr>)"
proof -
  obtain b where b: "BINDING (as_statics s) = Some b" "binding_ok (pr_reports pr) b"
    using assms by (auto simp: describes_def)
  then have "mutex_free (plan_name b)"
    by (simp add: binding_ok_def)
  then obtain n b' where "get_plan_name_c name b = Inr (n, b')" "binding_ok (pr_reports pr) b'"
    using assms(3) b(2)
    by (cases "mutex_data (plan_name b)")
      (auto simp: get_plan_name_c_def cstring_new_def binding_ok_def registries_free_def)
  then show ?thesis
    using assms(1,2) b(1) by (auto simp: mmtk_plan_name_def binding_def describes_def)
qed

section \<open>Every call\<close>

lemma set_gc_trigger_updates:
  "bs p = Some b \<Longrightarrow> \<exists>b'. set_gc_trigger rules p t bs = Inr (bs(p \<mapsto> b'))"
  by (auto simp: set_gc_trigger_def with_builder_def) (metis map_upd_triv)

lemma set_plan_updates:
  assumes "bs p = Some b" "parse_plan rules name \<noteq> None"
  shows "\<exists>b'. mmtk_builder_set_plan rules p (Some name) bs = Inr (bs(p \<mapsto> b'))"
proof -
  obtain sel where "parse_plan rules name = Some sel"
    using assms(2) by blast
  then show ?thesis
    using assms(1)
    by (intro exI [of _ "if valid_plan rules sel then b\<lparr>plan := sel\<rparr> else b"])
      (simp add: mmtk_builder_set_plan_def with_builder_def map_upd_triv)
qed

text \<open>Within the protocol a call returns and the protocol still describes the process.\<close>

text \<open>Calls on builders and calls on mutators.\<close>

fun on_builder :: "'sem api_call \<Rightarrow> bool" where
  "on_builder (Builder_default p) = True"
| "on_builder (Builder_read_env p) = True"
| "on_builder (Builder_dynamic_heap p low high) = True"
| "on_builder (Builder_fixed_heap p sz) = True"
| "on_builder (Builder_plan p name) = True"
| "on_builder _ = False"

fun on_mutator :: "'sem api_call \<Rightarrow> bool" where
  "on_mutator (Bind_mutator p tls) = True"
| "on_mutator (Destroy_mutator p) = True"
| "on_mutator (Alloc_object p sz align offset sem) = True"
| "on_mutator (Post_alloc p refer bytes sem) = True"
| "on_mutator (Write_post p ob) = True"
| "on_mutator _ = False"

lemma allowed_builder_call:
  assumes d: "describes pr s" and a: "protocol_step (ae_rules env) call pr = Some pr'" and c: "on_builder call"
  shows "\<exists>s'. run_api env call s = Inr s' \<and> describes pr' s'"
  using c
proof (cases call)
  case (Builder_default p)
  then show ?thesis
    using d a by (auto simp: on_builders_def mmtk_builder_default_def describes_def)
next
  case (Builder_read_env p)
  then show ?thesis
    using a builder_call [OF d, of p "mmtk_builder_read_env_var_settings (ae_manager env) p"]
    by (auto simp: mmtk_builder_read_env_var_settings_def with_builder_def guard_step_def split: if_splits)
next
  case (Builder_dynamic_heap p low high)
  moreover have "\<exists>s'. on_builders (mmtk_builder_set_dynamic_heap_size (ae_rules env) p low high) s = Inr s' \<and>
      describes pr s'" if "p \<in> pr_builders pr"
    by (rule builder_call [OF d _ that])
      (simp add: mmtk_builder_set_dynamic_heap_size_def set_gc_trigger_updates)
  ultimately show ?thesis
    using a by (auto simp: guard_step_def split: if_splits)
next
  case (Builder_fixed_heap p sz)
  moreover have "\<exists>s'. on_builders (mmtk_builder_set_fixed_heap_size (ae_rules env) p sz) s = Inr s' \<and>
      describes pr s'" if "p \<in> pr_builders pr"
    by (rule builder_call [OF d _ that])
      (simp add: mmtk_builder_set_fixed_heap_size_def set_gc_trigger_updates)
  ultimately show ?thesis
    using a by (auto simp: guard_step_def split: if_splits)
next
  case (Builder_plan p name)
  moreover have "\<exists>s'. on_builders (mmtk_builder_set_plan (ae_rules env) p (Some x)) s = Inr s' \<and>
      describes pr s'" if "p \<in> pr_builders pr" "parse_plan (ae_rules env) x \<noteq> None" for x
    by (rule builder_call [OF d _ that(1)]) (use that(2) in \<open>simp add: set_plan_updates\<close>)
  ultimately show ?thesis
    using a by (auto simp: guard_step_def split: if_splits)
qed simp_all

lemma describes_ready: "describes pr s \<Longrightarrow> pr_ready pr \<Longrightarrow> \<exists>b. binding (as_statics s) = Inr b"
  by (auto simp: describes_def binding_def)

lemma allowed_mutator_call:
  assumes d: "describes pr s" and a: "protocol_step (ae_rules env) call pr = Some pr'" and c: "on_mutator call"
  shows "\<exists>s'. run_api env call s = Inr s' \<and> describes pr' s'"
  using c
proof (cases call)
  case (Bind_mutator p tls)
  then show ?thesis
    using a d describes_ready [OF d]
    by (auto simp: on_mutators_def mmtk_bind_mutator_def with_mmtk_def guard_step_def describes_def
        split: if_splits prod.splits)
next
  case (Destroy_mutator p)
  then have "p \<in> dom (as_mutators s)"
    using a d by (auto simp: guard_step_def describes_def split: if_splits)
  then obtain mu where "as_mutators s p = Some mu"
    by blast
  with Destroy_mutator show ?thesis
    using a d by (auto simp: on_mutators_def mmtk_destroy_mutator_def with_mutator_def guard_step_def
        describes_def split: if_splits)
next
  case (Alloc_object p sz align offset sem)
  moreover have "\<exists>s'. on_mutators (\<lambda>mm. bind_res (mmtk_alloc_call (ae_manager env) p sz align offset sem mm)
      (\<lambda>(_, mm'). Inr mm')) s = Inr s' \<and> describes pr s'" if "p \<in> pr_mutators pr"
    by (rule mutator_call_ok [OF d _ that])
      (auto simp: mmtk_alloc_call_def with_mutator_def Let_def split: prod.splits)
  ultimately show ?thesis
    using a by (auto simp: guard_step_def split: if_splits)
next
  case (Post_alloc p refer bytes sem)
  moreover have "\<exists>s'. on_mutators (mmtk_post_alloc (ae_manager env) p refer bytes sem) s = Inr s' \<and> describes pr s'" if "p \<in> pr_mutators pr"
    by (rule mutator_call_ok [OF d _ that])
      (auto simp: mmtk_post_alloc_def with_mutator_def Let_def split: prod.splits)
  ultimately show ?thesis
    using a by (auto simp: guard_step_def split: if_splits)
next
  case (Write_post p ob)
  moreover have "\<exists>s'. on_mutators (mmtk_write_post_call (ae_manager env) p ob) s = Inr s' \<and> describes pr s'" if "p \<in> pr_mutators pr"
    by (rule mutator_call_ok [OF d _ that])
      (auto simp: mmtk_write_post_call_def with_mutator_def Let_def split: prod.splits)
  ultimately show ?thesis
    using a by (auto simp: guard_step_def split: if_splits)
qed simp_all

lemma allowed_call:
  assumes d: "describes pr s" and f: "fresh_ok pr call"
    and a: "protocol_step (ae_rules env) call pr = Some pr'" and n: "CHR 0x00 \<notin> set (ae_plan_name env)"
  shows "\<exists>s'. run_api env call s = Inr s' \<and> describes pr' s'"
proof -
  note ready = describes_ready [OF d]
  have "\<exists>s'. run_api env call s = Inr s' \<and> describes pr' s'" if "\<not> on_builder call" "\<not> on_mutator call"
    using that
  proof (cases call)
    case (Init_binding p)
    then show ?thesis
      using a init_call [OF d, of p env] by (auto simp: guard_step_def simp del: run_api.simps split: if_splits)
  next
    case (Report c)
    then show ?thesis
      using a report_call [OF d, of c] by (auto simp: guard_step_def on_statics_def split: if_splits)
  next
    case (Take_candidates p c)
    then show ?thesis
      using a f take_call [OF d, of p c env]
      by (auto simp: guard_step_def simp del: run_api.simps split: if_splits)
  next
    case (Free_vec i)
    then show ?thesis
      using a free_call [OF d, of i _ env]
      by (auto simp: guard_step_def simp del: run_api.simps split: if_splits)
  next
    case Plan_name
    then show ?thesis
      using a plan_name_call [OF d _ n] by (auto simp: guard_step_def on_statics_def split: if_splits)
  next
    case Used_bytes
    then show ?thesis
      using a d ready by (auto simp: mmtk_used_bytes_def with_mmtk_def guard_step_def split: if_splits)
  next
    case Enable_collection
    then show ?thesis
      using a d by (auto simp: on_statics_def mmtk_enable_collection_def describes_def)
  next
    case Disable_collection
    then show ?thesis
      using a d by (auto simp: on_statics_def mmtk_disable_collection_def describes_def)
  qed (use a d ready in \<open>auto simp: guard_step_def on_core_def mmtk_call_defs describes_core split: if_splits\<close>)
  then show ?thesis
    using allowed_builder_call [OF d a] allowed_mutator_call [OF d a] by blast
qed

text \<open>
  Outside the protocol a call panics or is undefined. (A vector freed twice is not always noticed: its
  buffer may be in use again.)
\<close>

lemma refused_call:
  assumes d: "describes pr s" and a: "protocol_step (ae_rules env) call pr = None"
    and "\<nexists>i. call = Free_vec i"
  shows "\<exists>e. run_api env call s = Inl e"
proof -
  have ready: "\<exists>e. binding (as_statics s) = Inl e" if "\<not> pr_ready pr"
    using d that by (rule not_ready)
  have b: "as_builders s p = None" if "p \<notin> pr_builders pr" for p
    using d that by (rule no_pointer)
  have mu: "as_mutators s p = None" if "p \<notin> pr_mutators pr" for p
    using d that by (rule no_pointer)
  show ?thesis
  proof (cases call)
    case (Report c)
    then show ?thesis
      using a report_not_ready [OF d, of c] by (auto simp: guard_step_def on_statics_def split: if_splits)
  next
    case (Take_candidates p c)
    then show ?thesis
      using a ready by (auto simp: guard_step_def mmtk_get_all_obj_free_candidates_def split: if_splits)
  next
    case (Init_binding p)
    have "BINDING (set_panic_hook (as_statics s)) = BINDING (as_statics s)"
      by (simp add: set_panic_hook_def)
    then show ?thesis
      using Init_binding a b d
      by (cases "as_builders s p") (auto simp: guard_step_def mmtk_init_binding_def with_builder_def
          Let_def describes_def split: if_splits prod.splits)
  next
    case (Builder_plan p name)
    then show ?thesis
      using a b by (cases name; cases "as_builders s p")
        (auto simp: guard_step_def on_builders_def mmtk_builder_set_plan_def with_builder_def
          split: if_splits)
  next
    case Plan_name
    then show ?thesis
      using a ready by (auto simp: guard_step_def on_statics_def mmtk_plan_name_def split: if_splits)
  qed (use a assms(3) b mu ready in \<open>auto simp: guard_step_def on_builders_def on_core_def on_mutators_def
      mmtk_builder_read_env_var_settings_def mmtk_builder_set_dynamic_heap_size_def
      mmtk_builder_set_fixed_heap_size_def set_gc_trigger_def with_builder_def mmtk_bind_mutator_def
      mmtk_destroy_mutator_def mmtk_alloc_call_def mmtk_post_alloc_def mmtk_write_post_call_def
      with_mutator_def mmtk_call_defs split: if_splits\<close>)
qed

section \<open>Clients\<close>

text \<open>
  A GC between two calls changes the state of mmtk-core and the binding: it leaves the mutexes free
  and invents no candidates. GC threads come and go.
\<close>

definition gc_effect :: "('m, 'mu) api_state \<Rightarrow> ('m, 'mu) api_state \<Rightarrow> bool" where
  "gc_effect s s' \<longleftrightarrow>
     (\<exists>b b' m T. BINDING (as_statics s) = Some b \<and> registries_free b' \<and> plan_name b' = plan_name b \<and>
        length (candidates (weak_proc b')) \<le> length (candidates (weak_proc b)) \<and>
        s' = s\<lparr>as_core := m, as_statics := (as_statics s)\<lparr>BINDING := Some b', GC_THREADS := T\<rparr>\<rparr>)"

inductive client_step ::
  "('m, 'mu, 'sem) api_env \<Rightarrow> protocol \<times> ('m, 'mu) api_state \<Rightarrow> protocol \<times> ('m, 'mu) api_state \<Rightarrow> bool"
  for env where
  client_call: "fresh_ok pr call \<Longrightarrow> protocol_step (ae_rules env) call pr = Some pr' \<Longrightarrow>
     run_api env call s = Inr s' \<Longrightarrow> client_step env (pr, s) (pr', s')"
| client_gc: "gc_effect s s' \<Longrightarrow> client_step env (pr, s) (pr, s')"

inductive_cases client_stepE: "client_step env x y"

lemma client_step_describes:
  assumes n: "CHR 0x00 \<notin> set (ae_plan_name env)" and "client_step env x y"
    and "describes (fst x) (snd x)"
  shows "describes (fst y) (snd y)"
  using assms(2)
proof cases
  case (client_call pr call pr' s s')
  then show ?thesis
    using allowed_call [of pr s call env pr'] n assms(3) by auto
next
  case (client_gc s s' pr)
  then obtain b b' m T where "BINDING (as_statics s) = Some b" "registries_free b'"
    "plan_name b' = plan_name b"
    "length (candidates (weak_proc b')) \<le> length (candidates (weak_proc b))"
    "s' = s\<lparr>as_core := m, as_statics := (as_statics s)\<lparr>BINDING := Some b', GC_THREADS := T\<rparr>\<rparr>"
    by (auto simp: gc_effect_def)
  with client_gc assms(3) show ?thesis
    by (simp add: describes_def binding_ok_def)
qed

lemma client_run_describes:
  assumes "CHR 0x00 \<notin> set (ae_plan_name env)"
    and "(client_step env)\<^sup>*\<^sup>* (protocol_start, api_start m) y"
  shows "describes (fst y) (snd y)"
  using assms(2)
proof (induction rule: rtranclp_induct)
  case base
  show ?case by (simp add: describes_start)
next
  case (step y z)
  then show ?case using client_step_describes [OF assms(1)] by blast
qed

lemma described_call:
  assumes "CHR 0x00 \<notin> set (ae_plan_name env)" and d: "describes pr s"
    and "fresh_ok pr call" and "\<nexists>i. call = Free_vec i \<and> pr_vecs pr i = None"
  shows "(\<exists>s'. run_api env call s = Inr s') \<longleftrightarrow> (\<exists>pr'. protocol_step (ae_rules env) call pr = Some pr')"
proof (cases "protocol_step (ae_rules env) call pr")
  case None
  then have "\<nexists>i. call = Free_vec i"
    using assms(4) by (auto simp: guard_step_def)
  with refused_call [OF d None] None show ?thesis by auto
next
  case (Some pr')
  with allowed_call [OF d assms(3) Some assms(1)] show ?thesis by auto
qed

section \<open>Properties\<close>


definition example_manager :: "('m, nat, unit) mmtk_manager" where
  "example_manager = \<lparr>mm_read_env_var_settings = (\<lambda>b. b), mm_bind_mutator = (\<lambda>_ m. (0, m)),
     mm_destroy_mutator = (\<lambda>_ m. m), mm_alloc = (\<lambda>sz _ _ _ (mu, m). (sz, Suc mu, m)),
     mm_min_object_size = 16, mm_post_alloc = (\<lambda>_ _ _ x. x), mm_write_post = (\<lambda>_ _ _ x. x),
     mm_is_movable = (\<lambda>_ _. True), mm_is_live_object = (\<lambda>_ _. True), mm_is_pinned = (\<lambda>_ _. False),
     mm_initialize_collection = (\<lambda>_ m. m), mm_prepare_to_fork = (\<lambda>m. m), mm_after_fork = (\<lambda>_ m. m),
     mm_used_bytes = (\<lambda>_. 0), mm_free_bytes = (\<lambda>_. 0), mm_total_bytes = (\<lambda>_. 0),
     mm_handle_user_collection_request = (\<lambda>_ _ _ m. m), mm_harness_begin = (\<lambda>_ m. m),
     mm_harness_end = (\<lambda>m. m), mm_gc_poll = (\<lambda>_ m. m), mm_starting_heap_address = 4096,
     mm_last_heap_address = 8192, mm_vo_bit_base = 0\<rparr>"

definition example_api_env :: "('m, nat, unit) api_env" where
  "example_api_env = \<lparr>ae_rules = \<lparr>valid_trigger = (\<lambda>_. True), valid_plan = (\<lambda>_. True),
       parse_plan = (\<lambda>s. if s = ''Immix'' then Some Immix else None),
       new_no_env_vars = \<lparr>no_finalizer = False, gc_trigger = Default_trigger, plan = Immix\<rparr>\<rparr>,
     ae_vars = Map.empty, ae_options = example_options, ae_manager = example_manager,
     ae_plan_name = ''Immix''\<rparr>"


end
