(* ===== verification/Program_Run.thy ===== *)
theory Program_Run
  imports Cycle_Effects Api_Protocol
begin

text \<open>
  Whole runs of a program: calls of mutators that report objects, pins and unpins by the application,
  and GC cycles between them, in any order. The abstract specification is a ledger: every candidate
  and every PPP reported is either still registered or was accounted for by the probe of the GC that
  dropped it.
\<close>

section \<open>The effect of one cycle\<close>

text \<open>What a cycle needs of mmtk-core, of tracing and of the iteration over hash sets.\<close>

definition gc_contract ::
  "('m, 'v) gc_env \<Rightarrow> ('m \<Rightarrow> objref set) \<Rightarrow> (('m, 'v) world \<Rightarrow> ('m, 'v) world \<Rightarrow> bool) \<Rightarrow> bool" where
  "gc_contract env pinned trace \<longleftrightarrow> pin_contract (env_core env) pinned \<and>
     pins_keep_heap (env_core env) \<and> hash_set_order (env_set_order env) \<and>
     trace_keeps_pins (env_core env) pinned trace \<and> trace_keeps_registries trace"

lemma contract_cycle:
  assumes "gc_contract env pinned trace" "gc_cycle env trace w w'" "settled w"
  obtains w2 w3 v where "trace w2 w3" "same_registries w w2"
    "registries_updated (env_core env) (env_up env) (w_core w3) v w w'" "settled w'"
    "pinned (w_core w') = pinned (w_core w)"
proof -
  note c = assms(1) [unfolded gc_contract_def]
  have "pinned (w_core w') = pinned (w_core w)"
    using gc_cycle_pins c assms(2,3) unfolding settled_def by blast
  moreover obtain w2 w3 v where "trace w2 w3" "same_registries w w2"
    "registries_updated (env_core env) (env_up env) (w_core w3) v w w'" "settled w'"
    using gc_cycle_registries_step [OF _ _ _ _ _ assms(2,3)] c by blast
  ultimately show ?thesis
    using that by blast
qed

lemma registries_updated_lists:
  assumes "registries_updated core up m v w w'"
  shows "candidates (weak_proc (w_binding w')) =
      map (forward core m) (filter (\<lambda>ob. mc_is_reachable core ob m) (candidates (weak_proc (w_binding w))))"
    and "registered (ppp_reg (w_binding w')) =
      map (forward core m) (filter (ppp_stays core up m v) (registered (ppp_reg (w_binding w))))"
    and "mutex_data (wb_unprotected_objects (w_binding w')) = forward core m `
      {ob \<in> mutex_data (wb_unprotected_objects (w_binding w)). mc_is_reachable core ob m}"
    and "mutex_data (moved_givtbl (w_binding w')) = Map.empty"
    and "filter cand_probe (w_probes w') = filter cand_probe (w_probes w) @
      [Probe_process_obj_free_candidates (length (candidates (weak_proc (w_binding w))))
        (length (candidates (weak_proc (w_binding w'))))]"
    and "\<exists>no_longer dead. filter dead_probe (w_probes w') = filter dead_probe (w_probes w) @
        [Probe_remove_dead_ppps (length (registered (ppp_reg (w_binding w)))) no_longer dead] \<and>
      length (registered (ppp_reg (w_binding w'))) + no_longer + dead =
        length (registered (ppp_reg (w_binding w)))"
proof -
  note u = assms [unfolded registries_updated_def]
  have c: "candidates (weak_proc (w_binding w')) = survivors core m (candidates (weak_proc (w_binding w))) \<and>
    filter cand_probe (w_probes w') = filter cand_probe (w_probes w) @
      [Probe_process_obj_free_candidates (length (candidates (weak_proc (w_binding w))))
        (length (survivors core m (candidates (weak_proc (w_binding w)))))]"
    using u by (simp add: cand_view_def swept_def Let_def candidates_def)
  show "candidates (weak_proc (w_binding w')) =
      map (forward core m) (filter (\<lambda>ob. mc_is_reachable core ob m) (candidates (weak_proc (w_binding w))))"
    using c by (simp add: survivors_def)
  show "filter cand_probe (w_probes w') = filter cand_probe (w_probes w) @
      [Probe_process_obj_free_candidates (length (candidates (weak_proc (w_binding w))))
        (length (candidates (weak_proc (w_binding w'))))]"
    using c by simp
  show "registered (ppp_reg (w_binding w')) =
      map (forward core m) (filter (ppp_stays core up m v) (registered (ppp_reg (w_binding w))))"
    using u by (simp add: ppp_view_def stayed_def retain_ppps_eq registered_def)
  show "\<exists>no_longer dead. filter dead_probe (w_probes w') = filter dead_probe (w_probes w) @
        [Probe_remove_dead_ppps (length (registered (ppp_reg (w_binding w)))) no_longer dead] \<and>
      length (registered (ppp_reg (w_binding w'))) + no_longer + dead =
        length (registered (ppp_reg (w_binding w)))"
    using u by (simp add: ppp_view_def stayed_def retain_ppps_eq registered_def ppps_partition)
  show "mutex_data (wb_unprotected_objects (w_binding w')) = forward core m `
      {ob \<in> mutex_data (wb_unprotected_objects (w_binding w)). mc_is_reachable core ob m}"
    "mutex_data (moved_givtbl (w_binding w')) = Map.empty"
    using u by (simp_all add: wb_view_def)
qed

section \<open>Runs\<close>

datatype app_event = App_call mutator_call | App_pin objref | App_unpin objref | Gc_run

inductive program_step ::
  "('m, 'v) gc_env \<Rightarrow> (('m, 'v) world \<Rightarrow> ('m, 'v) world \<Rightarrow> bool) \<Rightarrow>
   app_event \<Rightarrow> ('m, 'v) world \<Rightarrow> ('m, 'v) world \<Rightarrow> bool" for env trace where
  program_call: "BINDING g = Some (w_binding w) \<Longrightarrow> run_call call g = Inr g' \<Longrightarrow> BINDING g' = Some b' \<Longrightarrow>
    program_step env trace (App_call call) w (w\<lparr>w_binding := b'\<rparr>)"
| program_pin: "mmtk_pin_object (env_core env) ob (w_core w) = (newly, m) \<Longrightarrow>
    program_step env trace (App_pin ob) w (w\<lparr>w_core := m\<rparr>)"
| program_unpin: "mmtk_unpin_object (env_core env) ob (w_core w) = (was, m) \<Longrightarrow>
    program_step env trace (App_unpin ob) w (w\<lparr>w_core := m\<rparr>)"
| program_gc: "gc_cycle env trace w w' \<Longrightarrow> program_step env trace Gc_run w w'"

inductive program_run ::
  "('m, 'v) gc_env \<Rightarrow> (('m, 'v) world \<Rightarrow> ('m, 'v) world \<Rightarrow> bool) \<Rightarrow>
   app_event list \<Rightarrow> ('m, 'v) world \<Rightarrow> ('m, 'v) world \<Rightarrow> bool" for env trace where
  run_nil: "program_run env trace [] w w"
| run_cons: "program_step env trace e w u \<Longrightarrow> program_run env trace es u w' \<Longrightarrow>
    program_run env trace (e # es) w w'"

text \<open>What the application reported and pinned.\<close>

fun event_candidates :: "app_event \<Rightarrow> objref list" where
  "event_candidates (App_call call) = candidate_reports call"
| "event_candidates _ = []"

fun event_ppps :: "app_event \<Rightarrow> objref list" where
  "event_ppps (App_call call) = ppp_reports call"
| "event_ppps _ = []"

fun event_pins :: "app_event \<Rightarrow> objref set \<Rightarrow> objref set" where
  "event_pins (App_pin ob) P = insert ob P"
| "event_pins (App_unpin ob) P = P - {ob}"
| "event_pins _ P = P"

text \<open>What the probes say was dropped.\<close>

fun freed_candidates :: "probe \<Rightarrow> nat" where
  "freed_candidates (Probe_process_obj_free_candidates before after) = before - after"
| "freed_candidates _ = 0"

fun dropped_ppps :: "probe \<Rightarrow> nat" where
  "dropped_ppps (Probe_remove_dead_ppps n no_longer dead) = no_longer + dead"
| "dropped_ppps _ = 0"

text \<open>Candidates ever seen: those registered and those the probes count as freed; likewise PPPs.\<close>

definition candidates_seen :: "('m, 'v) world \<Rightarrow> nat" where
  "candidates_seen w =
     length (candidates (weak_proc (w_binding w))) + sum_list (map freed_candidates (w_probes w))"

definition ppps_seen :: "('m, 'v) world \<Rightarrow> nat" where
  "ppps_seen w =
     length (registered (ppp_reg (w_binding w))) + sum_list (map dropped_ppps (w_probes w))"

lemma freed_filter: "sum_list (map freed_candidates ps) = sum_list (map freed_candidates (filter cand_probe ps))"
proof (induction ps)
  case (Cons p ps) then show ?case by (cases p) simp_all
qed simp

lemma dropped_filter: "sum_list (map dropped_ppps ps) = sum_list (map dropped_ppps (filter dead_probe ps))"
proof (induction ps)
  case (Cons p ps) then show ?case by (cases p) simp_all
qed simp

lemma cycle_seen:
  assumes "registries_updated core up m v w w'"
  shows "candidates_seen w' = candidates_seen w" "ppps_seen w' = ppps_seen w"
proof -
  note u = registries_updated_lists [OF assms]
  have "length (candidates (weak_proc (w_binding w'))) \<le> length (candidates (weak_proc (w_binding w)))"
    unfolding u(1) by simp
  then show "candidates_seen w' = candidates_seen w"
    using u(5) by (simp add: candidates_seen_def freed_filter [of "w_probes w"] freed_filter [of "w_probes w'"])
  show "ppps_seen w' = ppps_seen w"
    using u(6) by (auto simp: ppps_seen_def dropped_filter [of "w_probes w"] dropped_filter [of "w_probes w'"])
qed

section \<open>Invariants of runs\<close>

lemma run_call_keeps:
  assumes "run_call call g = Inr g'" "BINDING g = Some b" "BINDING g' = Some b'"
  shows "pinned_ppp_children (ppp_reg b') = pinned_ppp_children (ppp_reg b) \<and> moved_givtbl b' = moved_givtbl b \<and>
    st_entries_chunk_size b' = st_entries_chunk_size b \<and> st_bins_chunk_size b' = st_bins_chunk_size b"
  using assms
  by (cases call) (auto simp: mmtk_add_obj_free_candidate_def mmtk_add_obj_free_candidates_def
      mmtk_register_ppp_def mmtk_register_ppps_def mmtk_register_wb_unprotected_object_def
      with_binding_def binding_def bind_res_eq_Inr add_obj_free_candidate_def
      add_obj_free_candidates_def register_def register_many_def
      register_wb_unprotected_object_def)

lemma settled_core [simp]: "settled (w\<lparr>w_core := m\<rparr>) = settled w"
  by (simp add: settled_def quiescent_def pinned_list_def latches_ok_def latches_hold_bins_def wb_view_def)

lemma program_call_effect:
  assumes g: "BINDING g = Some (w_binding w)" "run_call call g = Inr g'" "BINDING g' = Some b'"
    and s: "settled w"
  shows "settled (w\<lparr>w_binding := b'\<rparr>)"
    "candidates (weak_proc b') = candidates (weak_proc (w_binding w)) @ candidate_reports call"
    "registered (ppp_reg b') = registered (ppp_reg (w_binding w)) @ ppp_reports call"
proof -
  have "registries_free (w_binding w)"
    using s by (simp add: settled_def)
  from run_call_step [OF g(1) this, of call] g have r: "registries_free b'"
    "candidates (weak_proc b') = candidates (weak_proc (w_binding w)) @ candidate_reports call"
    "registered (ppp_reg b') = registered (ppp_reg (w_binding w)) @ ppp_reports call"
    "mutex_data (wb_unprotected_objects b') =
      mutex_data (wb_unprotected_objects (w_binding w)) \<union> set (wb_reports call)"
    by auto
  then show "candidates (weak_proc b') = candidates (weak_proc (w_binding w)) @ candidate_reports call"
    "registered (ppp_reg b') = registered (ppp_reg (w_binding w)) @ ppp_reports call"
    by simp_all
  show "settled (w\<lparr>w_binding := b'\<rparr>)"
    using s r run_call_keeps [OF g(2,1,3)]
    by (simp add: settled_def quiescent_def pinned_list_def latches_ok_def latches_hold_bins_def wb_view_def)
qed

text \<open>What one event does to the ledger, to the pins and to the invariant.\<close>

lemma program_step_effect:
  assumes c: "gc_contract env pinned trace" and "program_step env trace e w w'" and s: "settled w"
  shows "settled w' \<and> candidates_seen w' = candidates_seen w + length (event_candidates e) \<and>
    ppps_seen w' = ppps_seen w + length (event_ppps e) \<and>
    pinned (w_core w') = event_pins e (pinned (w_core w))"
  using assms(2)
proof cases
  case (program_call g call g' b')
  then show ?thesis
    using program_call_effect [OF program_call(3-5) s] by (simp add: candidates_seen_def ppps_seen_def)
next
  case (program_pin ob newly m)
  with pin_contractD(2) [of "env_core env" pinned ob "w_core w"] c s show ?thesis
    by (simp add: gc_contract_def mmtk_pin_object_def candidates_seen_def ppps_seen_def)
next
  case (program_unpin ob was m)
  with pin_contractD(4) [of "env_core env" pinned ob "w_core w"] c s show ?thesis
    by (simp add: gc_contract_def mmtk_unpin_object_def candidates_seen_def ppps_seen_def)
next
  case program_gc
  from contract_cycle [OF c program_gc(2) s] cycle_seen program_gc(1) show ?thesis
    by (metis event_candidates.simps(4) event_ppps.simps(4) event_pins.simps(4) list.size(3) add_0_right)
qed

section \<open>Cycles between API calls\<close>

text \<open>The state of the API after a GC, whose effect on mmtk-core and the binding is that of the cycle.\<close>

definition after_cycle :: "('m, 'v) world \<Rightarrow> ('m, 'mu) api_state \<Rightarrow> ('m, 'mu) api_state" where
  "after_cycle w s = s\<lparr>as_core := w_core w, as_statics := (as_statics s)\<lparr>BINDING := Some (w_binding w)\<rparr>\<rparr>"

text \<open>A cycle is one of the GCs a client of the API may meet between two calls.\<close>

lemma cycle_gc_effect:
  assumes "gc_contract env pinned trace" "gc_cycle env trace w w'" "settled w"
    and "BINDING (as_statics s) = Some (w_binding w)"
  shows "gc_effect s (after_cycle w' s)"
proof -
  obtain w2 w3 v where "trace w2 w3" "settled w'"
    and u: "registries_updated (env_core env) (env_up env) (w_core w3) v w w'"
    using contract_cycle [OF assms(1-3)] by metis
  have "length (candidates (weak_proc (w_binding w'))) \<le> length (candidates (weak_proc (w_binding w)))"
    unfolding registries_updated_lists(1) [OF u] by simp
  moreover have "registries_free (w_binding w')" "plan_name (w_binding w') = plan_name (w_binding w)"
    using \<open>settled w'\<close> u by (simp_all add: settled_def registries_updated_def)
  moreover have "after_cycle w' s = s\<lparr>as_core := w_core w', as_statics := (as_statics s)
      \<lparr>BINDING := Some (w_binding w'), GC_THREADS := GC_THREADS (as_statics s)\<rparr>\<rparr>"
    by (simp add: after_cycle_def)
  ultimately show ?thesis
    using assms(4) unfolding gc_effect_def by blast
qed

section \<open>Properties\<close>



text \<open>
  A GC cycle between two API calls does not change which calls return: the client is where the
  protocol had it, and a call returns after the cycle exactly if it would have returned before.
\<close>

theorem gc_cycle_between_calls:
  assumes "gc_contract env pinned trace" and "gc_cycle env trace w w'" and "settled w"
    and "CHR 0x00 \<notin> set (ae_plan_name aenv)"
    and "(client_step aenv)\<^sup>*\<^sup>* (protocol_start, api_start m) (pr, s)"
    and "as_core s = w_core w" and "BINDING (as_statics s) = Some (w_binding w)"
  shows "(client_step aenv)\<^sup>*\<^sup>* (protocol_start, api_start m) (pr, after_cycle w' s) \<and>
    (fresh_ok pr call \<longrightarrow> (\<nexists>i. call = Free_vec i \<and> pr_vecs pr i = None) \<longrightarrow>
      (\<exists>t. run_api aenv call (after_cycle w' s) = Inr t) = (\<exists>t. run_api aenv call s = Inr t))"
proof -
  have "client_step aenv (pr, s) (pr, after_cycle w' s)"
    using cycle_gc_effect [OF assms(1-3,7)] by (rule client_gc)
  with assms(5) have run: "(client_step aenv)\<^sup>*\<^sup>* (protocol_start, api_start m) (pr, after_cycle w' s)"
    by simp
  have "describes pr s" "describes pr (after_cycle w' s)"
    using client_run_describes [OF assms(4,5)] client_run_describes [OF assms(4) run] by simp_all
  with run show ?thesis
    by (simp add: described_call [OF assms(4)])
qed

text \<open>A cycle of the example: it keeps the application's pin and moves the PPP from 16 to 32.\<close>

lemma example_contract: "gc_contract example_env (\<lambda>m. m) (=)"
  using example_pin_contract sorted_set_order
  by (simp add: gc_contract_def pins_keep_heap_def same_heap_def example_core_def trace_keeps_pins_def
      trace_keeps_registries_def)

lemma example_settled: "settled example_gc_world"
  using example_quiescent
  by (simp add: settled_def example_gc_world_def put_ppps_def latches_hold_bins_def wb_view_def
      registries_free_def weak_processor_new_def ppp_registry_new_def)



lemma example_client:
  "\<exists>pr s. (client_step example_api_env)\<^sup>*\<^sup>* (protocol_start, api_start {40}) (pr, s) \<and>
    as_core s = w_core example_gc_world \<and> BINDING (as_statics s) = Some (w_binding example_gc_world) \<and>
    (\<exists>t. run_api example_api_env (Report (Register_ppp 48)) s = Inr t)"
proof -
  let ?env = "example_api_env :: (objref set, nat, unit) api_env"
  let ?s0 = "api_start {40} :: (objref set, nat) api_state"
  let ?pr1 = "protocol_start\<lparr>pr_builders := {8}\<rparr>"
  let ?pr2 = "protocol_start\<lparr>pr_ready := True\<rparr>"
  obtain s1 b where s1: "run_api ?env (Builder_default 8) ?s0 = Inr s1" "as_core s1 = {40}"
    "as_statics s1 = statics_new" "as_builders s1 8 = Some b"
    by (simp add: on_builders_def mmtk_builder_default_def api_start_def)
  obtain s2 where s2: "run_api ?env (Init_binding 8) s1 = Inr s2" "as_core s2 = {40}"
    "BINDING (as_statics s2) = Some example_binding"
    using s1 by (simp add: mmtk_init_binding_def with_builder_def set_panic_hook_def statics_new_def
        example_api_env_def example_binding_def Let_def
        split_beta [of _ "ruby_binding_new Map.empty example_options"])
  obtain s3 where s3: "run_api ?env (Report (Register_ppp 16)) s2 = Inr s3" "as_core s3 = {40}"
    "BINDING (as_statics s3) = Some (w_binding example_gc_world)"
    using s2 by (auto simp: on_statics_def mmtk_register_ppp_def with_binding_def binding_def register_def
        example_gc_world_def put_ppps_def ppp_registry_new_def)
  have c1: "client_step ?env (protocol_start, ?s0) (?pr1, s1)"
    by (rule client_call [OF _ _ s1(1)]) (simp_all add: protocol_start_def guard_step_def)
  have c2: "client_step ?env (?pr1, s1) (?pr2, s2)"
    by (rule client_call [OF _ _ s2(1)]) (simp_all add: protocol_start_def guard_step_def)
  have c3: "client_step ?env (?pr2, s2) (?pr2, s3)"
    by (rule client_call [OF _ _ s3(1)]) (simp_all add: protocol_start_def guard_step_def)
  have "(client_step ?env)\<^sup>*\<^sup>* (protocol_start, ?s0) (?pr2, s3)"
    using c1 c2 c3 by (rule rtranclp_trans [OF rtranclp_trans [OF r_into_rtranclp r_into_rtranclp] r_into_rtranclp])
  moreover have "\<exists>t. run_api ?env (Report (Register_ppp 48)) s3 = Inr t"
    using s3 by (auto simp: on_statics_def mmtk_register_ppp_def with_binding_def binding_def register_def
        example_gc_world_def put_ppps_def ppp_registry_new_def)
  moreover have "w_core example_gc_world = {40}"
    by (simp add: example_gc_world_def)
  ultimately show ?thesis
    using s3 by auto
qed

theorem gc_cycle_between_calls_witness:
  "\<exists>w pr s. gc_cycle example_env (=) example_gc_world w \<and>
    (client_step example_api_env)\<^sup>*\<^sup>* (protocol_start, api_start {40}) (pr, after_cycle w s) \<and>
    (\<exists>t. run_api example_api_env (Report (Register_ppp 48)) (after_cycle w s) = Inr t)"
proof -
  let ?env = "example_api_env :: (objref set, nat, unit) api_env"
  obtain w where w: "gc_cycle example_env (=) example_gc_world w"
    using example_cycle by blast
  obtain pr and s :: "(objref set, nat) api_state" where
    run: "(client_step ?env)\<^sup>*\<^sup>* (protocol_start, api_start {40}) (pr, s)"
    and s: "as_core s = w_core example_gc_world" "BINDING (as_statics s) = Some (w_binding example_gc_world)"
    and t: "\<exists>t. run_api ?env (Report (Register_ppp 48)) s = Inr t"
    using example_client by blast
  have n: "CHR 0x00 \<notin> set (ae_plan_name ?env)"
    by (simp add: example_api_env_def)
  from gc_cycle_between_calls [OF example_contract w example_settled n run s, of "Report (Register_ppp 48)"] t
  show ?thesis
    using w by (auto simp del: run_api.simps)
qed

end
