(* ===== verification/Gc_Progress.thy ===== *)
theory Gc_Progress
  imports Program_Run
begin

text \<open>
  GC cycles do not get stuck. \<open>Cycle_Effects\<close> says what a cycle does if its packets return; here
  they do return: in the worlds between cycles, with a VM that reports objects only, no packet of any
  interleaving panics, so that a cycle can always be carried out, after any run of the program.
\<close>

section \<open>VM code that reports objects\<close>

text \<open>
  All reports of the code satisfy \<open>P\<close> and its result \<open>Q\<close>, whatever the closure answers.
\<close>

primrec vm_wp :: "(objref \<Rightarrow> bool) \<Rightarrow> ('r \<Rightarrow> bool) \<Rightarrow> 'r vmcode \<Rightarrow> bool" where
  "vm_wp P Q (VM_done r) = Q r"
| "vm_wp P Q (VM_visit ob pin k) = (P ob \<and> (\<forall>x. vm_wp P Q (k x)))"

lemma vm_wp_bind [simp]: "vm_wp P Q (vm_bind c f) = vm_wp P (\<lambda>r. vm_wp P Q (f r)) c"
  by (induction c) auto

lemma vm_wp_mono:
  "vm_wp P Q c \<Longrightarrow> (\<And>ob. P ob \<Longrightarrow> P' ob) \<Longrightarrow> (\<And>r. Q r \<Longrightarrow> Q' r) \<Longrightarrow> vm_wp P' Q' c"
  by (induction c) auto

lemma run_visitor_total:
  assumes "vm_wp P Q c" and "\<And>ob pin s. P ob \<Longrightarrow> \<exists>x s'. visit ob pin s = Inr (x, s')"
  shows "\<exists>r s'. run_visitor visit c s = Inr (r, s') \<and> Q r"
  using assms(1)
proof (induction c arbitrary: s)
  case (VM_visit ob pin k)
  then obtain x s' where "visit ob pin s = Inr (x, s')"
    using assms(2) by fastforce
  with VM_visit show ?case
    by simp
qed simp

section \<open>What the VM, mmtk-core and the GC threads owe\<close>

text \<open>An object the closures of the binding accept: they check it in builds with extra assertions only.\<close>

definition report_ok :: "build \<Rightarrow> 'm mmtk_core \<Rightarrow> 'm \<Rightarrow> objref \<Rightarrow> bool" where
  "report_ok cfg core m ob \<longleftrightarrow>
     (debug_assertions cfg \<or> extra_assert_feature cfg \<longrightarrow> is_mmtk_object_safe core m ob)"

lemma report_ok_assert: "report_ok cfg core m ob \<Longrightarrow> extra_assert cfg (is_mmtk_object_safe core m ob) msg = Inr ()"
  by (simp add: report_ok_def extra_assert_def assert_def)

text \<open>
  \<open>good\<close> are the states of mmtk-core and of the VM that fit together. In them the VM reports MMTk objects,
  from roots, from the fields of reachable objects and from its tables; what it does during a GC,
  and pinning, lead to such states again.
\<close>

definition vm_reports_objects ::
  "build \<Rightarrow> 'm mmtk_core \<Rightarrow> 'v ruby_upcalls \<Rightarrow> ('m \<Rightarrow> 'v \<Rightarrow> bool) \<Rightarrow> bool" where
  "vm_reports_objects cfg core up good \<longleftrightarrow> (\<forall>m v. good m v \<longrightarrow>
     (\<forall>packet scan. scan_roots up packet = Some scan \<longrightarrow> vm_wp (report_ok cfg core m) (good m) (scan v)) \<and>
     (\<forall>mt tls. vm_wp (report_ok cfg core m) (good m) (up_scan_roots_in_mutator_thread up mt tls v)) \<and>
     (\<forall>ob. mc_is_reachable core ob m \<longrightarrow>
        vm_wp (report_ok cfg core m) (good m) (up_scan_object_ruby_style up ob v)) \<and>
     (\<forall>ob. vm_wp (\<lambda>_. True) (good m) (up_call_gc_mark_children up ob v)) \<and>
     vm_wp (report_ok cfg core m) (good m) (up_cleanup_generic_iv_tbl up v) \<and>
     vm_wp (report_ok cfg core m) (good m) (up_update_finalizer_and_obj_id_tables up v) \<and>
     vm_wp (report_ok cfg core m) (good m) (up_update_overloaded_cme_table up v) \<and>
     vm_wp (report_ok cfg core m) (good m) (up_update_ci_table up v))"

definition good_kept :: "'m mmtk_core \<Rightarrow> 'v ruby_upcalls \<Rightarrow> ('m \<Rightarrow> 'v \<Rightarrow> bool) \<Rightarrow> bool" where
  "good_kept core up good \<longleftrightarrow> (\<forall>m v. good m v \<longrightarrow>
     (\<forall>tls. good m (up_stop_the_world up tls v)) \<and> (\<forall>ob. good m (up_call_obj_free up ob v)) \<and>
     (\<forall>old new. good m (up_move_givtbl up old new v)) \<and>
     (\<forall>tbl b e wk wv fwd. good m (snd (up_st_update_entries_range up tbl b e wk wv fwd v))) \<and>
     (\<forall>tbl b e. good m (snd (up_st_update_bins_range up tbl b e v))) \<and>
     (\<forall>ob. good (snd (mc_pin_object core ob m)) v \<and> good (snd (mc_unpin_object core ob m)) v))"

lemma vm_reports_objectsD:
  assumes "vm_reports_objects cfg core up good" "good m v"
  shows "scan_roots up packet = Some scan \<Longrightarrow> vm_wp (report_ok cfg core m) (good m) (scan v)"
    "vm_wp (report_ok cfg core m) (good m) (up_scan_roots_in_mutator_thread up mt tls v)"
    "mc_is_reachable core ob m \<Longrightarrow> vm_wp (report_ok cfg core m) (good m) (up_scan_object_ruby_style up ob v)"
    "vm_wp (\<lambda>_. True) (good m) (up_call_gc_mark_children up ob v)"
    "vm_wp (report_ok cfg core m) (good m) (up_cleanup_generic_iv_tbl up v)"
    "vm_wp (report_ok cfg core m) (good m) (up_update_finalizer_and_obj_id_tables up v)"
    "vm_wp (report_ok cfg core m) (good m) (up_update_overloaded_cme_table up v)"
    "vm_wp (report_ok cfg core m) (good m) (up_update_ci_table up v)"
  using assms unfolding vm_reports_objects_def by blast+

lemma good_keptD:
  assumes "good_kept core up good" "good m v"
  shows "good m (up_stop_the_world up tls v)" "good m (up_call_obj_free up ob v)"
    "good m (up_move_givtbl up old new v)"
    "good m (snd (up_st_update_entries_range up tbl b e wk wv fwd v))"
    "good m (snd (up_st_update_bins_range up tbl b e v))"
    "good (snd (mc_pin_object core ob m)) v" "good (snd (mc_unpin_object core ob m)) v"
  using assms unfolding good_kept_def by blast+

text \<open>
  The two chunked tables are so small that the ends of their last chunks do not overflow; \<open>ec\<close> and
  \<open>bc\<close> are the chunk sizes of the binding.
\<close>

definition table_fits :: "'v ruby_upcalls \<Rightarrow> usize \<Rightarrow> usize \<Rightarrow> 'v \<Rightarrow> address \<Rightarrow> bool" where
  "table_fits up ec bc v table \<longleftrightarrow> (case up_st_get_size_info up table v of (es, eb, bn) \<Rightarrow>
     unat eb + unat ec \<le> 2 ^ 64 \<and> unat bn + unat bc \<le> 2 ^ 64)"

definition tables_ok :: "'v ruby_upcalls \<Rightarrow> usize \<Rightarrow> usize \<Rightarrow> 'v \<Rightarrow> bool" where
  "tables_ok up ec bc v \<longleftrightarrow> 0 < ec \<and> table_fits up ec bc v (up_get_frozen_strings_table up v) \<and>
     table_fits up ec bc v (up_get_global_symbols_table up v)"

text \<open>The worlds in which the binding works: no lock held or poisoned, and states that fit.\<close>

definition mutexes_free :: "ruby_binding \<Rightarrow> bool" where
  "mutexes_free b \<longleftrightarrow> registries_free b \<and> mutex_free (moved_givtbl b) \<and>
     mutex_free (pinned_ppp_children (ppp_reg b))"

definition sound :: "('m \<Rightarrow> 'v \<Rightarrow> bool) \<Rightarrow> usize \<Rightarrow> usize \<Rightarrow> ('m, 'v) world \<Rightarrow> bool" where
  "sound good ec bc w \<longleftrightarrow> good (w_core w) (w_vm w) \<and> mutexes_free (w_binding w) \<and>
     st_entries_chunk_size (w_binding w) = ec \<and> st_bins_chunk_size (w_binding w) = bc"

definition env_sound :: "('m, 'v) gc_env \<Rightarrow> ('m \<Rightarrow> 'v \<Rightarrow> bool) \<Rightarrow> usize \<Rightarrow> usize \<Rightarrow> bool" where
  "env_sound env good ec bc \<longleftrightarrow> (\<forall>m v. good m v \<longrightarrow> tables_ok (env_up env) ec bc v) \<and> (\<forall>tls ctx. env_workers env tls = Some ctx \<longrightarrow> tls \<noteq> 0) \<and>
     vm_reports_objects (env_build env) (env_core env) (env_up env) good \<and>
     good_kept (env_core env) (env_up env) good"

lemma sound_upd [simp]:
  "sound good ec bc (w\<lparr>w_buckets := b\<rparr>) = sound good ec bc w"
  "sound good ec bc (w\<lparr>w_latches := ls\<rparr>) = sound good ec bc w"
  "sound good ec bc (w\<lparr>w_root_work := rs\<rparr>) = sound good ec bc w"
  "sound good ec bc (emit p w) = sound good ec bc w"
  "sound good ec bc (submit st ps w) = sound good ec bc w"
  "sound good ec bc (put_candidates xs w) = sound good ec bc w"
  "sound good ec bc (put_moved_givtbl t w) = sound good ec bc w"
  "sound good ec bc (put_wb_unprotected S w) = sound good ec bc w"
  "sound good ec bc (put_ppps xs w) = sound good ec bc w"
  "sound good ec bc (put_pinned xs w) = sound good ec bc w"
  by (simp_all add: sound_def mutexes_free_def registries_free_def world_put_defs emit_def submit_def)

lemma sound_states:
  assumes "sound good ec bc w"
  shows "sound good ec bc (w\<lparr>w_vm := v\<rparr>) = good (w_core w) v"
    "sound good ec bc (w\<lparr>w_core := m\<rparr>) = good m (w_vm w)"
    "sound good ec bc (w\<lparr>w_vm := v, w_core := m\<rparr>) = good m v"
    "sound good ec bc (w\<lparr>w_vm := v, w_root_work := rs\<rparr>) = good (w_core w) v"
  using assms by (simp_all add: sound_def)

lemma soundD:
  assumes "sound good ec bc w"
  shows "good (w_core w) (w_vm w)" "mutex_free (obj_free_candidates (weak_proc (w_binding w)))"
    "mutex_free (ppps (ppp_reg (w_binding w)))" "mutex_free (wb_unprotected_objects (w_binding w))"
    "mutex_free (moved_givtbl (w_binding w))" "mutex_free (pinned_ppp_children (ppp_reg (w_binding w)))"
  using assms by (simp_all add: sound_def mutexes_free_def registries_free_def)

section \<open>Every packet returns\<close>

lemma worker_idle:
  assumes "env_sound env good ec bc" "env_workers env tls = Some ctx"
  shows "idle_gc_thread (tls_view (env_workers env)) tls"
  using assms by (auto simp: env_sound_def intro: tls_view_idle)

lemma run_with_closure_total:
  assumes "idle_gc_thread tls_mem tls" and "vm_wp P Q c"
    and "\<And>ob pin s. P ob \<Longrightarrow> \<exists>x s'. visit ob pin s = Inr (x, s')"
  shows "\<exists>gc_tls r s'. from_vwt_check cfg tls_mem tls = Inr gc_tls \<and>
    run_with_closure cfg (object_closure gc_tls) visit c s = Inr (r, s') \<and> Q r"
proof -
  obtain gc_tls where "from_vwt_check cfg tls_mem tls = Inr gc_tls"
    "object_closure gc_tls = object_closure_default"
    using assms(1) by (rule idle_from_vwt_check)
  with run_visitor_total [where visit = visit and s = s, OF assms(2,3)] show ?thesis
    by (auto simp: run_with_closure_default)
qed

text \<open>A table packet whose code ends in a world that satisfies \<open>S\<close>.\<close>

lemma global_table_total:
  assumes "idle_gc_thread tls_mem tls"
    and "vm_wp (report_ok cfg core (w_core w)) (\<lambda>r. \<exists>w'. r = Inr w' \<and> S w') (process w)"
  shows "\<exists>w'. global_table_do_work cfg core tls_mem tls process w = Inr w' \<and> S w'"
  using run_with_closure_total [OF assms, of "forward_visitor cfg core (w_core w)" cfg "()"]
  by (auto simp: global_table_do_work_def forward_visitor_def report_ok_assert)

lemma collect_roots_total:
  assumes "object_closure gc_tls = object_closure_default"
    and "vm_wp (report_ok cfg core (w_core w)) (good (w_core w)) (callback (w_vm w))"
    and "sound good ec bc w"
  shows "\<exists>w'. collect_object_roots_in cfg core gc_tls callback w = Inr w' \<and> sound good ec bc w'"
proof -
  have "\<exists>v env. run_visitor (root_visitor cfg core (w_core w)) (callback (w_vm w)) ([], w_root_work w) =
      Inr (v, env) \<and> good (w_core w) v"
    using assms(2) by (rule run_visitor_total) (simp add: root_visitor_def report_ok_assert)
  with assms(1) show ?thesis
    by (auto simp: collect_object_roots_in_def run_with_closure_default sound_states [OF assms(3)])
qed

lemma wb_scan_body_wp:
  assumes "\<And>ob v. good m v \<Longrightarrow> mc_is_reachable core ob m \<Longrightarrow>
      vm_wp P (good m) (up_scan_object_ruby_style up ob v)" and "good m v"
  shows "vm_wp P (good m) (wb_scan_body core m up obs v)"
  using assms(2)
  by (induction obs arbitrary: v) (auto intro: vm_wp_mono [OF assms(1)])

lemma pin_body_wp:
  assumes "\<And>ob v. good m v \<Longrightarrow> vm_wp P (good m) (up_call_gc_mark_children up ob v)" and "good m v"
  shows "vm_wp P (\<lambda>(n, v). good m v) (pin_body up obs n v)"
  using assms(2)
  by (induction obs arbitrary: n v) (auto intro: vm_wp_mono [OF assms(1)])

lemma pin_children_good:
  assumes "\<And>ob m. good m v \<Longrightarrow> good (snd (mc_pin_object core ob m)) v" and "good m v"
  shows "good (snd (pin_children core obs m)) v"
  using assms(2)
proof (induction obs arbitrary: m)
  case (Cons ob obs)
  from Cons.IH [OF assms(1) [OF Cons.prems, of ob]] show ?case
    by (simp add: Let_def split_beta)
qed simp

lemma unpin_children_good:
  assumes "\<And>ob m. good m v \<Longrightarrow> good (snd (mc_unpin_object core ob m)) v"
    and "unpin_children cfg core obs m = Inr m'" and "good m v"
  shows "good m' v"
  using assms(2,3)
proof (induction obs arbitrary: m)
  case (Cons ob obs)
  with assms(1) [of m ob] show ?case
    by (auto simp: bind_res_eq_Inr split: prod.splits)
qed simp

lemma unpin_children_total:
  assumes c: "pin_contract core pinned" and "distinct obs" "set obs \<subseteq> pinned m"
  shows "\<exists>m'. unpin_children cfg core obs m = Inr m'"
  using assms(2,3)
proof (induction obs arbitrary: m)
  case (Cons ob obs)
  obtain b m1 where p: "mc_unpin_object core ob m = (b, m1)"
    by (cases "mc_unpin_object core ob m")
  then have "b" "pinned m1 = pinned m - {ob}"
    using pin_contractD(3,4) [OF c, of ob m] Cons.prems by simp_all
  with Cons p show ?case
    by auto
qed simp

lemma process_candidates_good:
  assumes "\<And>ob v. good m v \<Longrightarrow> good m (up_call_obj_free up ob v)" and "good m v"
  shows "good m (snd (process_candidates core up m obs v))"
  using assms(2)
  by (induction obs arbitrary: v) (auto simp: assms(1) split_beta)

lemma move_givtbls_good:
  assumes "\<And>old new v. good m v \<Longrightarrow> good m (up_move_givtbl up old new v)" and "good m v"
  shows "good m (move_givtbls up es v)"
  using assms(2) unfolding move_givtbls_def
  by (induction es arbitrary: v) (auto simp: assms(1))

text \<open>What a packet needs of the world in which a worker takes it.\<close>

fun packet_ready :: "('m, 'v) gc_env \<Rightarrow> gc_work \<Rightarrow> ('m, 'v) world \<Rightarrow> bool" where
  "packet_ready env (UnpinPPPChildren xs) w =
     (\<exists>m. unpin_children (env_build env) (env_core env) xs (w_core w) = Inr m)"
| "packet_ready env (UpdateTableEntriesParallel name tbl b e wk wv fwd aid) w = (aid < length (w_latches w))"
| "packet_ready env packet w = True"


lemma env_soundD:
  assumes "env_sound env good ec bc" "sound good ec bc w"
  shows "tables_ok (env_up env) ec bc (w_vm w)"
    "vm_reports_objects (env_build env) (env_core env) (env_up env) good"
    "good_kept (env_core env) (env_up env) good"
  using assms soundD(1) [OF assms(2)] by (simp_all add: env_sound_def)

text \<open>The packets of a registry of the binding.\<close>

lemma registry_packet_total:
  assumes e: "env_sound env good ec bc" and s: "sound good ec bc w"
    and p: "packet \<in> {ProcessObjFreeCandidates, UpdateWbUnprotectedObjectsList, RemoveDeadPPPs}"
  shows "\<exists>w'. do_work env tls packet w = Inr w' \<and> sound good ec bc w'"
proof -
  note kept = good_keptD [OF env_soundD(3) [OF e s]]
  have "good (w_core w) (snd (process_candidates (env_core env) (env_up env) (w_core w)
      (candidates (weak_proc (w_binding w))) (w_vm w)))"
    using kept(2) soundD(1) [OF s] by (rule process_candidates_good)
  then have "\<exists>w'. do_work env tls ProcessObjFreeCandidates w = Inr w' \<and> sound good ec bc w'"
    using soundD(2) [OF s]
    by (auto simp: do_work_def Let_def process_obj_free_candidates_do_work_def candidates_def
        sound_states [OF s] split_beta)
  moreover have "\<exists>w'. do_work env tls UpdateWbUnprotectedObjectsList w = Inr w' \<and> sound good ec bc w'"
    using s soundD(4) [OF s]
    by (simp add: do_work_def update_wb_unprotected_objects_list_do_work_def Let_def)
  moreover have "\<exists>w'. do_work env tls RemoveDeadPPPs w = Inr w' \<and> sound good ec bc w'"
    using s soundD(3) [OF s]
    by (auto simp: do_work_def Let_def remove_dead_ppps_do_work_def split_beta)
  ultimately show ?thesis
    using p by blast
qed

text \<open>The packets of the global tables of the VM.\<close>

lemma table_packet_total:
  assumes e: "env_sound env good ec bc" and t: "env_workers env tls = Some ctx" and s: "sound good ec bc w"
    and p: "packet \<in> {UpdateGenericIvTbl, UpdateFinalizerAndObjIdTables, UpdateOverloadedCmeTable, UpdateCiTable}"
  shows "\<exists>w'. do_work env tls packet w = Inr w' \<and> sound good ec bc w'"
proof -
  note g = soundD(1) [OF s] and rep = vm_reports_objectsD [OF env_soundD(2) [OF e s]]
    and vm = sound_states(1) [OF s]
  have table: "\<exists>w'. global_table_do_work (env_build env) (env_core env) (tls_view (env_workers env)) tls process w =
      Inr w' \<and> sound good ec bc w'"
    if "vm_wp (report_ok (env_build env) (env_core env) (w_core w))
      (\<lambda>r. \<exists>w'. r = Inr w' \<and> sound good ec bc w') (process w)" for process
    using worker_idle [OF e t] that by (rule global_table_total)
  let ?v = "move_givtbls (env_up env) (env_map_order env (mutex_data (moved_givtbl (w_binding w)))) (w_vm w)"
  have "good (w_core w) ?v"
    using good_keptD(3) [OF env_soundD(3) [OF e s]] g by (rule move_givtbls_good)
  from rep(5) [OF this]
  have "\<exists>w'. do_work env tls UpdateGenericIvTbl w = Inr w' \<and> sound good ec bc w'"
    using soundD(5) [OF s]
    by (auto simp: do_work_def Let_def update_generic_iv_tbl_def put_moved_givtbl_vm vm
        intro!: table intro: vm_wp_mono)
  moreover have "\<exists>w'. do_work env tls UpdateFinalizerAndObjIdTables w = Inr w' \<and> sound good ec bc w'"
    using rep(6) [OF g]
    by (auto simp: do_work_def Let_def update_finalizer_and_obj_id_tables_def vm intro!: table intro: vm_wp_mono)
  moreover have "\<exists>w'. do_work env tls UpdateOverloadedCmeTable w = Inr w' \<and> sound good ec bc w'"
    using rep(7) [OF g]
    by (auto simp: do_work_def Let_def update_overloaded_cme_table_def general_update_weak_table_def vm
        intro!: table intro: vm_wp_mono)
  moreover have "\<exists>w'. do_work env tls UpdateCiTable w = Inr w' \<and> sound good ec bc w'"
    using rep(8) [OF g]
    by (auto simp: do_work_def Let_def update_ci_table_def general_update_weak_table_def vm
        intro!: table intro: vm_wp_mono)
  ultimately show ?thesis
    using p by blast
qed

lemma pin_packet_total:
  assumes e: "env_sound env good ec bc" and t: "env_workers env tls = Some ctx" and s: "sound good ec bc w"
  shows "\<exists>w'. do_work env tls (PinPPPChildren chunk) w = Inr w' \<and> sound good ec bc w'"
proof -
  have "vm_wp (\<lambda>_. True) (\<lambda>(n, v). good (w_core w) v) (pin_body (env_up env) chunk 0 (w_vm w))"
    using vm_reports_objectsD(4) [OF env_soundD(2) [OF e s]] soundD(1) [OF s] by (rule pin_body_wp)
  from run_with_closure_total [OF worker_idle [OF e t] this, of pin_visitor "env_build env" "[]"]
  obtain gc_tls n v obs where
    r: "from_vwt_check (env_build env) (tls_view (env_workers env)) tls = Inr gc_tls"
      "run_with_closure (env_build env) (object_closure gc_tls) pin_visitor
         (pin_body (env_up env) chunk 0 (w_vm w)) [] = Inr ((n, v), obs)" "good (w_core w) v"
    by (auto simp: pin_visitor_def)
  have "good (snd (pin_children (env_core env) obs (w_core w))) v"
    using good_keptD(6) [OF env_soundD(3) [OF e s]] r(3) by (rule pin_children_good)
  with r soundD(6) [OF s] show ?thesis
    by (simp add: do_work_def Let_def pin_ppp_children_do_work_def split_beta sound_states [OF s])
qed

text \<open>The packets that collect roots.\<close>

lemma root_packet_total:
  assumes e: "env_sound env good ec bc" and t: "env_workers env tls = Some ctx" and s: "sound good ec bc w"
    and p: "scan_roots (env_up env) packet \<noteq> None \<or> (\<exists>objects. packet = ScanWbUnprotectedRoots objects)"
  shows "\<exists>w'. do_work env tls packet w = Inr w' \<and> sound good ec bc w'"
proof -
  note g = soundD(1) [OF s] and rep = vm_reports_objectsD [OF env_soundD(2) [OF e s]]
  have roots: "\<exists>gc_tls w'. from_vwt_check (env_build env) (tls_view (env_workers env)) tls = Inr gc_tls \<and>
      collect_object_roots_in (env_build env) (env_core env) gc_tls callback w = Inr w' \<and>
      sound good ec bc w'"
    if "vm_wp (report_ok (env_build env) (env_core env) (w_core w)) (good (w_core w)) (callback (w_vm w))"
    for callback
    using collect_roots_total [where callback = callback and good = good and w = w, OF _ that s]
      idle_from_vwt_check [OF worker_idle [OF e t]] by metis
  show ?thesis
  proof (cases "scan_roots (env_up env) packet")
    case (Some scan)
    from roots [of scan] rep(1) [OF g Some] obtain w' where
      "global_root_do_work (env_build env) (env_core env) (tls_view (env_workers env)) tls scan w = Inr w'"
      "sound good ec bc w'"
      by (auto simp: global_root_do_work_def)
    with Some show ?thesis
      by (cases packet) (auto simp: do_work_def Let_def)
  next
    case None
    with p obtain objects where "packet = ScanWbUnprotectedRoots objects"
      by blast
    moreover have "vm_wp (report_ok (env_build env) (env_core env) (w_core w)) (good (w_core w))
        (wb_scan_body (env_core env) (w_core w) (env_up env) objects (w_vm w))"
      using rep(3) g by (rule wb_scan_body_wp)
    ultimately show ?thesis
      using roots [of "wb_scan_body (env_core env) (w_core w) (env_up env) objects"]
      by (auto simp: do_work_def Let_def scan_wb_unprotected_roots_do_work_def)
  qed
qed

lemma do_work_total:
  assumes e: "env_sound env good ec bc" and t: "env_workers env tls = Some ctx"
    and s: "sound good ec bc w" and r: "packet_ready env packet w"
  shows "\<exists>w'. do_work env tls packet w = Inr w' \<and> sound good ec bc w'"
proof -
  note g = soundD(1) [OF s] and kept = good_keptD [OF env_soundD(3) [OF e s]]
  show ?thesis
  proof (cases packet)
    case (UpdateTableEntriesParallel name tbl b e wk wv fwd aid)
    then show ?thesis
      using r kept(4) [OF g]
      by (auto simp: do_work_def table_entries_do_work_def Let_def sound_states [OF s] split_beta)
  next
    case (UpdateTableBinsParallel name tbl b e)
    then show ?thesis
      using kept(5) [OF g]
      by (auto simp: do_work_def Let_def table_bins_do_work_def sound_states [OF s] split_beta)
  next
    case (PinPPPChildren chunk)
    with pin_packet_total [OF e t s] show ?thesis
      by simp
  next
    case (UnpinPPPChildren children)
    then obtain m where m: "unpin_children (env_build env) (env_core env) children (w_core w) = Inr m"
      using r by auto
    have "good m (w_vm w)"
      using kept(7) m g by (rule unpin_children_good)
    with m UnpinPPPChildren show ?thesis
      by (simp add: do_work_def Let_def unpin_ppp_children_do_work_def sound_states [OF s])
  qed (intro registry_packet_total [OF e s] table_packet_total [OF e t s] root_packet_total [OF e t s]; simp)+
qed

section \<open>Buckets can be drained\<close>

text \<open>
  If packets keep an invariant and return where it holds, then the bucket can be emptied from any
  world with the invariant, wherever the workers have got to.
\<close>

locale bucket_progress = bucket_invariant +
  assumes returns: "I w \<Longrightarrow> w_buckets w st = xs @ packet # ys \<Longrightarrow> env_workers env tls = Some ctx \<Longrightarrow>
    \<exists>w'. do_work env tls packet (w\<lparr>w_buckets := (w_buckets w)(st := xs @ ys)\<rparr>) = Inr w'"
begin

lemma can_step:
  assumes "I w" "env_workers env tls = Some ctx" "w_buckets w st \<noteq> []"
  obtains w' where "bucket_step env st w w'" "I w'"
proof -
  obtain packet ps where b: "w_buckets w st = [] @ packet # ps"
    using assms(3) by (cases "w_buckets w st") auto
  obtain w' where d: "do_work env tls packet (w\<lparr>w_buckets := (w_buckets w)(st := [] @ ps)\<rparr>) = Inr w'"
    using returns [OF assms(1) b assms(2)] by blast
  have "bucket_step env st w w'"
    using b assms(2) d by (rule take_packet)
  moreover have "I w'"
    using b assms(1,2) d by (rule packet_keeps)
  ultimately show thesis
    by (rule that)
qed

lemma can_drain:
  assumes "env_workers env tls = Some ctx" "I w"
  shows "\<exists>w'. (bucket_step env st)\<^sup>*\<^sup>* w w' \<and> w_buckets w' st = [] \<and> I w'"
  using assms(2)
proof (induction "packets_left st w" arbitrary: w rule: less_induct)
  case less
  show ?case
  proof (cases "w_buckets w st = []")
    case False
    then obtain u where u: "bucket_step env st w u" "I u"
      using can_step [OF less.prems assms(1)] by blast
    with less.hyps [OF bucket_step_packets_left [OF u(1)]] show ?thesis
      by (blast intro: converse_rtranclp_into_rtranclp)
  qed (use less.prems in blast)
qed

end

subsection \<open>The closing bucket\<close>

fun latch_known :: "nat \<Rightarrow> gc_work \<Rightarrow> bool" where
  "latch_known n (UpdateTableEntriesParallel name tbl b e wk wv fwd aid) = (aid < n)"
| "latch_known n _ = True"

definition closing_ready ::
  "('m, 'v) gc_env \<Rightarrow> ('m \<Rightarrow> objref set) \<Rightarrow> objref set \<Rightarrow> ('m \<Rightarrow> 'v \<Rightarrow> bool) \<Rightarrow> usize \<Rightarrow> usize \<Rightarrow> 'm \<Rightarrow>
   ('m, 'v) world \<Rightarrow> bool" where
  "closing_ready env pinned P good ec bc m w \<longleftrightarrow> env_sound env good ec bc \<and>
     pin_contract (env_core env) pinned \<and> sound good ec bc w \<and> closing_inv pinned P w \<and>
     closing_ctx (env_core env) m w \<and>
     (\<forall>p \<in> set (w_buckets w VMRefClosure). latch_known (length (w_latches w)) p)"

lemma closing_packet_ready:
  assumes c: "closing_ready env pinned P good ec bc m w" and b: "w_buckets w VMRefClosure = xs @ packet # ys"
  shows "packet_ready env packet (w\<lparr>w_buckets := (w_buckets w)(VMRefClosure := xs @ ys)\<rparr>)"
proof (cases packet)
  case (UnpinPPPChildren children)
  have f: "filter is_unpin_packet (w_buckets w VMRefClosure) =
      filter is_unpin_packet xs @ UnpinPPPChildren children # filter is_unpin_packet ys"
    using b UnpinPPPChildren by simp
  then have "distinct children" "set children \<subseteq> pinned (w_core w)"
    using c by (auto simp: closing_ready_def closing_inv_def append_eq_Cons_conv)
  with c UnpinPPPChildren show ?thesis
    by (auto simp: closing_ready_def intro: unpin_children_total)
next
  case (UpdateTableEntriesParallel name tbl b e wk wv fwd aid)
  with c b show ?thesis
    by (auto simp: closing_ready_def)
qed simp_all

interpretation closing_progress: bucket_progress env VMRefClosure
    "closing_ready env pinned P good ec bc m" for env pinned P good ec bc m
proof
  fix w :: "('a, 'b) world" and w' xs packet ys tls ctx
  let ?w = "w\<lparr>w_buckets := (w_buckets w)(VMRefClosure := xs @ ys)\<rparr>"
  assume c: "closing_ready env pinned P good ec bc m w" and b: "w_buckets w VMRefClosure = xs @ packet # ys"
  have total: "\<exists>w'. do_work env tls packet ?w = Inr w' \<and> sound good ec bc w'"
    if t: "env_workers env tls = Some ctx"
  proof (rule do_work_total [OF _ t _ closing_packet_ready [OF c b]])
    show "env_sound env good ec bc" "sound good ec bc ?w"
      using c by (simp_all add: closing_ready_def)
  qed
  {
    assume t: "env_workers env tls = Some ctx"
    note returns = total [OF t]
    show "\<exists>w'. do_work env tls packet ?w = Inr w'"
      using returns by blast
  next
    assume t: "env_workers env tls = Some ctx" and d: "do_work env tls packet ?w = Inr w'"
    have "closing_ctx (env_core env) m ?w"
      using c by (simp add: closing_ready_def closing_ctx_def latches_hold_bins_def)
    from do_work_closing [OF d this] obtain bins where
      w': "closing_ctx (env_core env) m w'" "length (w_latches w') = length (w_latches w)"
        "\<forall>p \<in> set bins. is_bins_packet p" "w_buckets w' VMRefClosure = xs @ ys @ bins"
      by auto
    have "latch_known n p" if "is_bins_packet p" for n p
      using that by (cases p) simp_all
    then have "\<forall>p \<in> set (w_buckets w' VMRefClosure). latch_known (length (w_latches w')) p"
      using c b w' by (auto simp: closing_ready_def)
    moreover have "closing_inv pinned P w'"
      using closing_step_inv [OF _ take_packet [OF b t d]] c by (simp add: closing_ready_def)
    ultimately show "closing_ready env pinned P good ec bc m w'"
      using c w'(1) total [OF t] d by (auto simp: closing_ready_def)
  }
qed

subsection \<open>The Prepare bucket\<close>

definition prepare_ready ::
  "('m, 'v) gc_env \<Rightarrow> ('m \<Rightarrow> objref set) \<Rightarrow> objref set \<Rightarrow> bool \<Rightarrow> ('m \<Rightarrow> 'v \<Rightarrow> bool) \<Rightarrow> usize \<Rightarrow> usize \<Rightarrow>
   ('m, 'v) world \<Rightarrow> bool" where
  "prepare_ready env pinned P moving good ec bc w \<longleftrightarrow> env_sound env good ec bc \<and>
     pin_contract (env_core env) pinned \<and> sound good ec bc w \<and> prepare_inv pinned P moving w \<and>
     latches_hold_bins w"

lemma prepare_packet_ready: "prepare_packet_ok packet \<Longrightarrow> packet_ready env packet w"
  by (cases packet) (auto simp: global_root_scanners_def)

interpretation prepare_progress: bucket_progress env Prepare
    "prepare_ready env pinned P moving good ec bc" for env pinned P moving good ec bc
proof
  fix w :: "('a, 'b) world" and w' xs packet ys tls ctx
  let ?w = "w\<lparr>w_buckets := (w_buckets w)(Prepare := xs @ ys)\<rparr>"
  assume c: "prepare_ready env pinned P moving good ec bc w" and b: "w_buckets w Prepare = xs @ packet # ys"
  have p: "prepare_packet_ok packet" "is_pin_packet packet \<longrightarrow> moving"
    using c b by (auto simp: prepare_ready_def prepare_inv_def)
  have total: "\<exists>w'. do_work env tls packet ?w = Inr w' \<and> sound good ec bc w'"
    if t: "env_workers env tls = Some ctx"
  proof (rule do_work_total [OF _ t _ prepare_packet_ready [OF p(1)]])
    show "env_sound env good ec bc" "sound good ec bc ?w"
      using c by (simp_all add: prepare_ready_def)
  qed
  {
    assume t: "env_workers env tls = Some ctx"
    note returns = total [OF t]
    show "\<exists>w'. do_work env tls packet ?w = Inr w'"
      using returns by blast
  next
    assume t: "env_workers env tls = Some ctx" and d: "do_work env tls packet ?w = Inr w'"
    have "prepare_inv pinned P moving ?w" and l: "latches_hold_bins ?w"
      using c b prepare_inv_drop by (auto simp: prepare_ready_def latches_hold_bins_def)
    then have "prepare_inv pinned P moving w'"
      using prepare_packet_inv [OF _ d _ p] c by (simp add: prepare_ready_def)
    moreover have "latches_hold_bins w'"
      using prepare_packet_registries [OF d p(1) l] l by (simp add: latches_hold_bins_def)
    ultimately show "prepare_ready env pinned P moving good ec bc w'"
      using c total [OF t] d by (auto simp: prepare_ready_def)
  }
qed

lemma mutator_roots_total:
  assumes e: "env_sound env good ec bc" and s: "sound good ec bc w"
    and g: "from_vwt_check (env_build env) (tls_view (env_workers env)) tls = Inr (gc_tls :: root_env gc_thread_tls)"
  shows "\<exists>w'. scan_roots_in_mutator_thread (env_build env) (env_core env) (env_up env)
    (tls_view (env_workers env)) tls mutator_tls w = Inr w' \<and> sound good ec bc w'"
proof -
  have "vm_reports_objects (env_build env) (env_core env) (env_up env) good"
    using e by (simp add: env_sound_def)
  from vm_reports_objectsD(2) [OF this soundD(1) [OF s]]
  have "\<exists>w'. collect_object_roots_in (env_build env) (env_core env) gc_tls
      (up_scan_roots_in_mutator_thread (env_up env) mutator_tls tls) w = Inr w' \<and> sound good ec bc w'"
    using from_vwt_check_tls_view [OF g] s by (intro collect_roots_total) simp_all
  with g show ?thesis
    by (simp add: scan_roots_in_mutator_thread_def)
qed

lemma vm_roots_total:
  assumes e: "env_sound env good ec bc" and s: "sound good ec bc w" and t: "env_workers env tls = Some ctx"
  shows "\<exists>w'. scan_vm_specific_roots (env_build env) (env_core env) (env_set_order env)
    (tls_view (env_workers env)) tls w = Inr w'"
proof -
  obtain gc_tls where "from_vwt_check (env_build env) (tls_view (env_workers env)) tls = Inr (gc_tls :: root_env gc_thread_tls)"
    "kind gc_tls = GC_THREAD_KIND_WORKER"
    using idle_from_vwt_check [OF worker_idle [OF e t]] by blast
  with soundD(4) [OF s] show ?thesis
    by (simp add: scan_vm_specific_roots_def Let_def tls_worker_def)
qed

lemma prepare_step_ready:
  assumes "prepare_step env w w'" and c: "prepare_ready env pinned P moving good ec bc w"
  shows "prepare_ready env pinned P moving good ec bc w'"
  using assms(1)
proof cases
  case prepare_packet
  then show ?thesis
    using c by (rule prepare_progress.step_keeps)
next
  case (prepare_vm_roots tls)
  then have "sound good ec bc w'"
    using c by (auto simp: scan_vm_specific_roots_def bind_res_eq_Inr Let_def prepare_ready_def split: if_splits)
  then show ?thesis
    using c prepare_step_inv [OF _ assms(1)] prepare_step_registries [OF assms(1)] by (auto simp: prepare_ready_def)
next
  case (prepare_mutator tls mutator_tls)
  then obtain gc_tls where g: "from_vwt_check (env_build env) (tls_view (env_workers env)) tls =
      Inr (gc_tls :: root_env gc_thread_tls)"
    by (auto simp: scan_roots_in_mutator_thread_def bind_res_eq_Inr)
  then have "sound good ec bc w'"
    using mutator_roots_total [OF _ _ g, of good ec bc w mutator_tls] c prepare_mutator
    by (auto simp: prepare_ready_def)
  then show ?thesis
    using c prepare_step_inv [OF _ assms(1)] prepare_step_registries [OF assms(1)] by (auto simp: prepare_ready_def)
qed

lemma prepare_run_ready:
  "(prepare_step env)\<^sup>*\<^sup>* w w' \<Longrightarrow> prepare_ready env pinned P moving good ec bc w \<Longrightarrow>
   prepare_ready env pinned P moving good ec bc w'"
  by (induction rule: rtranclp_induct) (blast intro: prepare_step_ready)+

section \<open>The steps between the buckets\<close>

lemma stop_all_mutators_total:
  assumes e: "env_sound env good ec bc" and s: "sound good ec bc w" and t: "env_workers env tls = Some ctx"
  shows "\<exists>f' w1. stop_all_mutators (env_build env) (env_core env) (env_up env)
    (tls_view (env_workers env) :: address \<rightharpoonup> unit gc_thread_tls) tls visitor f w = Inr (f', w1) \<and> sound good ec bc w1"
proof -
  let ?w = "w\<lparr>w_vm := up_stop_the_world (env_up env) tls (w_vm w)\<rparr>"
  have "good_kept (env_core env) (env_up env) good"
    using e by (simp add: env_sound_def)
  then have s1: "sound good ec bc ?w"
    using good_keptD(1) [of "env_core env" "env_up env" good] soundD(1) [OF s] by (simp add: sound_states [OF s])
  obtain gc_tls where "from_vwt_check (env_build env) (tls_view (env_workers env)) tls = Inr (gc_tls :: unit gc_thread_tls)"
    "kind gc_tls = GC_THREAD_KIND_WORKER"
    using idle_from_vwt_check [OF worker_idle [OF e t]] by blast
  with s1 soundD(3) [OF s1] show ?thesis
    by (simp add: stop_all_mutators_def pin_ppp_children_def tls_worker_def)
qed

lemma weak_table_total:
  assumes "table_fits up ec bc (w_vm w) table" "0 < ec" "sound good ec bc w"
  shows "\<exists>w' entries. process_weak_table_chunked cfg up name table wk wv fwd w = Inr w' \<and> sound good ec bc w' \<and>
    w_vm w' = w_vm w \<and> w_core w' = w_core w \<and> w_binding w' = w_binding w \<and>
    length (w_latches w') = Suc (length (w_latches w)) \<and>
    w_buckets w' VMRefClosure = w_buckets w VMRefClosure @
      map (entries_packet name table wk wv fwd (length (w_latches w))) entries"
proof -
  obtain es eb bn where i: "up_st_get_size_info up table (w_vm w) = (es, eb, bn)"
    by (cases "up_st_get_size_info up table (w_vm w)")
  have b: "st_entries_chunk_size (w_binding w) = ec" "st_bins_chunk_size (w_binding w) = bc"
    using assms(3) by (simp_all add: sound_def)
  obtain entries bins where r: "range_packets cfg es eb ec ec = Inr entries" "range_packets cfg 0 bn ec bc = Inr bins"
    using range_packets_eq [OF assms(2), of eb ec] range_packets_eq [OF assms(2), of bn bc] assms(1) i
    by (fastforce simp: table_fits_def)
  show ?thesis
    using process_weak_table_chunked_eq [OF i, of cfg entries bins] r b assms(3) by auto
qed

lemma cleanup_ppps_total:
  assumes s: "sound good ec bc w" and p: "gc_mode core w \<or> pinned_list w = []"
  shows "\<exists>w' us. cleanup_ppps cfg core w = Inr w' \<and> sound good ec bc w' \<and> w_latches w' = w_latches w \<and>
    w_buckets w' VMRefClosure = w_buckets w VMRefClosure @ RemoveDeadPPPs # us \<and> (\<forall>u \<in> set us. is_unpin_packet u)"
proof (cases "gc_mode core w")
  case True
  let ?u = "UnpinPPPChildren (pinned_list w)"
  have "cleanup_ppps cfg core w = Inr (submit VMRefClosure [?u] (put_pinned [] (submit VMRefClosure [RemoveDeadPPPs] w)))"
    using True soundD(6) [OF s] by (simp add: cleanup_ppps_def Let_def gc_mode_def pinned_list_def)
  then show ?thesis
    using s by (intro exI [of _ "[?u]"] exI conjI) (assumption | simp)+
next
  case False
  have "cleanup_ppps cfg core w = Inr (submit VMRefClosure [RemoveDeadPPPs] w)"
    using False p soundD(6) [OF s] by (simp add: cleanup_ppps_def Let_def gc_mode_def pinned_list_def)
  then show ?thesis
    using s by (intro exI [of _ "[]"] exI conjI) (assumption | simp)+
qed

lemma process_weak_refs_total:
  assumes e: "env_sound env good ec bc" and s: "sound good ec bc w"
    and inv: "prepare_inv pinned P (gc_mode (env_core env) w) w" and "w_buckets w VMRefClosure = []"
  shows "\<exists>again w'. process_weak_refs (env_build env) (env_core env) (env_up env) w = Inr (again, w') \<and>
    sound good ec bc w' \<and> (\<forall>p \<in> set (w_buckets w' VMRefClosure). latch_known (length (w_latches w')) p)"
proof -
  let ?up = "env_up env" and ?core = "env_core env"
  let ?w2 = "submit VMRefClosure weak_packets (submit VMRefClosure [ProcessObjFreeCandidates] w)"
  let ?fwd = "mc_current_gc_may_move_object ?core (w_core w)"
  have "tables_ok ?up ec bc (w_vm w)"
    using e soundD(1) [OF s] by (simp add: env_sound_def)
  then have t: "0 < ec" "table_fits ?up ec bc (w_vm w) (up_get_frozen_strings_table ?up (w_vm w))"
    "table_fits ?up ec bc (w_vm w) (up_get_global_symbols_table ?up (w_vm w))"
    by (simp_all add: tables_ok_def)
  have "sound good ec bc ?w2"
    using s by simp
  then obtain w3 ps where w3: "process_weak_table_chunked (env_build env) ?up ''frozen strings''
      (up_get_frozen_strings_table ?up (w_vm w)) True False ?fwd ?w2 = Inr w3" "sound good ec bc w3"
    "w_vm w3 = w_vm w" "w_core w3 = w_core w" "w_binding w3 = w_binding w" "length (w_latches w3) = Suc (length (w_latches w))"
    "w_buckets w3 VMRefClosure = w_buckets ?w2 VMRefClosure @ map (entries_packet ''frozen strings''
      (up_get_frozen_strings_table ?up (w_vm w)) True False ?fwd (length (w_latches w))) ps"
    using weak_table_total [of ?up ec bc ?w2] t by fastforce
  from weak_table_total [OF _ t(1) w3(2)] t(3) w3(3)
  obtain w4 qs where w4: "process_weak_table_chunked (env_build env) ?up ''global symbols''
      (up_get_global_symbols_table ?up (w_vm w3)) False True ?fwd w3 = Inr w4" "sound good ec bc w4"
    "w_core w4 = w_core w3" "w_binding w4 = w_binding w3" "length (w_latches w4) = Suc (length (w_latches w3))"
    "w_buckets w4 VMRefClosure = w_buckets w3 VMRefClosure @ map (entries_packet ''global symbols''
      (up_get_global_symbols_table ?up (w_vm w3)) False True ?fwd (length (w_latches w3))) qs"
    by fastforce
  have stuff: "process_weak_stuff (env_build env) ?core ?up w = Inr w4"
    using w3(1) w4(1) by (simp add: process_weak_stuff_def Let_def)
  have known: "\<forall>p \<in> set (w_buckets w4 VMRefClosure). latch_known (length (w_latches w4)) p"
    using w3 w4 assms(4) by (auto simp: entries_packet_def weak_packets_def)
  have "gc_mode ?core w4 \<or> pinned_list w4 = []"
    using inv w3(4,5) w4(3,4) by (auto simp: prepare_inv_def pinned_list_def gc_mode_def)
  with w4(2) obtain w5 us where "cleanup_ppps (env_build env) ?core w4 = Inr w5" "sound good ec bc w5"
    "w_latches w5 = w_latches w4"
    "w_buckets w5 VMRefClosure = w_buckets w4 VMRefClosure @ RemoveDeadPPPs # us"
    "\<forall>u \<in> set us. is_unpin_packet u"
    using cleanup_ppps_total by blast
  moreover have "latch_known n u" if "is_unpin_packet u" for n u
    using that by (cases u) simp_all
  ultimately show ?thesis
    using stuff known by (auto simp: process_weak_refs_def)
qed

section \<open>Cycles\<close>

text \<open>Whether this GC may move objects is settled when it begins, and pinning does not change it.\<close>

definition good_in :: "'m mmtk_core \<Rightarrow> ('m \<Rightarrow> 'v \<Rightarrow> bool) \<Rightarrow> bool \<Rightarrow> 'm \<Rightarrow> 'v \<Rightarrow> bool" where
  "good_in core good moving m v \<longleftrightarrow> good m v \<and> mc_current_gc_may_move_object core m = moving"

definition gc_sound ::
  "('m, 'v) gc_env \<Rightarrow> ('m \<Rightarrow> 'v \<Rightarrow> bool) \<Rightarrow> usize \<Rightarrow> usize \<Rightarrow> (('m, 'v) world \<Rightarrow> ('m, 'v) world \<Rightarrow> bool) \<Rightarrow> bool" where
  "gc_sound env good ec bc trace \<longleftrightarrow>
     (\<forall>moving. env_sound env (good_in (env_core env) good moving) ec bc) \<and>
     (\<forall>w. sound good ec bc w \<longrightarrow> (\<exists>w'. trace w w')) \<and>
     (\<forall>w w'. trace w w' \<longrightarrow> sound good ec bc w \<longrightarrow>
        sound good ec bc w' \<and> gc_mode (env_core env) w' = gc_mode (env_core env) w)"

lemma sound_good_in:
  "sound (good_in core good moving) ec bc w \<longleftrightarrow> sound good ec bc w \<and> gc_mode core w = moving"
  by (auto simp: sound_def good_in_def gc_mode_def)

lemma cycle_prepare_ready:
  assumes c: "gc_contract env pinned trace" "gc_sound env good ec bc trace"
    and w: "settled w" "sound good ec bc w"
    and stop: "stop_all_mutators (env_build env) (env_core env) (env_up env)
      (tls_view (env_workers env) :: address \<rightharpoonup> unit gc_thread_tls) tls visitor f w = Inr (f', w1)"
  shows "prepare_ready env pinned (pinned (w_core w)) (gc_mode (env_core env) w)
    (good_in (env_core env) good (gc_mode (env_core env) w)) ec bc w1"
proof -
  let ?good = "good_in (env_core env) good (gc_mode (env_core env) w)"
  have e: "env_sound env ?good ec bc" and p: "pin_contract (env_core env) pinned"
    using c by (simp_all add: gc_sound_def gc_contract_def)
  have s: "sound ?good ec bc w"
    using w(2) by (simp add: sound_good_in)
  have "good_kept (env_core env) (env_up env) ?good"
    using e by (simp add: env_sound_def)
  then have "sound ?good ec bc (w\<lparr>w_vm := up_stop_the_world (env_up env) tls (w_vm w)\<rparr>)"
    using good_keptD(1) soundD(1) [OF s] by (auto simp: sound_states [OF s])
  then have "sound ?good ec bc w1"
    using stop by (auto simp: stop_all_mutators_def pin_ppp_children_def bind_res_eq_Inr split: if_splits)
  moreover have "prepare_inv pinned (pinned (w_core w)) (gc_mode (env_core env) w) w1"
    using stop w(1) by (intro stop_all_mutators_inv) (simp_all add: settled_def)
  moreover have "latches_hold_bins w1"
    using stop_all_mutators_registries [OF stop] w(1) by (simp add: settled_def latches_hold_bins_def)
  ultimately show ?thesis
    using e p by (simp add: prepare_ready_def)
qed

lemma cycle_traced:
  assumes c: "gc_contract env pinned trace" "gc_sound env good ec bc trace"
    and w2: "prepare_ready env pinned P moving (good_in (env_core env) good moving) ec bc w2"
      "w_buckets w2 Prepare = []" "trace w2 w3"
  shows "sound (good_in (env_core env) good moving) ec bc w3" "prepare_inv pinned P (gc_mode (env_core env) w3) w3"
    "latches_hold_bins w3" "w_buckets w3 Prepare = []" "w_buckets w3 VMRefClosure = []"
    "gc_mode (env_core env) w3 = moving"
proof -
  have s2: "sound good ec bc w2" "gc_mode (env_core env) w2 = moving"
    using w2(1) by (simp_all add: prepare_ready_def sound_good_in)
  then show s3: "sound (good_in (env_core env) good moving) ec bc w3" "gc_mode (env_core env) w3 = moving"
    using c(2) w2(3) by (auto simp: gc_sound_def sound_good_in)
  have t: "pinned (w_core w3) = pinned (w_core w2)" "pinned_list w3 = pinned_list w2"
    "w_buckets w3 = w_buckets w2" "w_latches w3 = w_latches w2"
    using c(1) w2(3) by (simp_all add: gc_contract_def trace_keeps_pins_def pinned_list_def)
  show "prepare_inv pinned P (gc_mode (env_core env) w3) w3"
    using w2(1) t s3(2) by (simp add: prepare_ready_def prepare_inv_def latches_ok_def)
  show "latches_hold_bins w3" "w_buckets w3 Prepare = []" "w_buckets w3 VMRefClosure = []"
    using w2(1,2) t by (simp_all add: prepare_ready_def prepare_inv_def latches_hold_bins_def)
qed

lemma cycle_closing_ready:
  assumes c: "gc_contract env pinned trace" "gc_sound env good ec bc trace"
    and w2: "prepare_ready env pinned P moving (good_in (env_core env) good moving) ec bc w2"
      "w_buckets w2 Prepare = []" "trace w2 w3"
    and w4: "process_weak_refs (env_build env) (env_core env) (env_up env) w3 = Inr (again, w4)"
  shows "closing_ready env pinned P (good_in (env_core env) good moving) ec bc (w_core w3) w4"
proof -
  note t = cycle_traced [OF c w2]
  have e: "env_sound env (good_in (env_core env) good moving) ec bc"
    using c(2) by (simp add: gc_sound_def)
  have "sound (good_in (env_core env) good moving) ec bc w4"
    "\<forall>p \<in> set (w_buckets w4 VMRefClosure). latch_known (length (w_latches w4)) p"
    using process_weak_refs_total [OF e t(1,2,5)] w4 by auto
  moreover have "closing_inv pinned P w4"
    using w4 t(2,4) by (rule cleanup_ppps_closing)
  moreover have "closing_ctx (env_core env) (w_core w3) w4"
    using process_weak_refs_opens(2,3) [OF w4 t(3,5), of ProcessObjFreeCandidates] c(1)
    by (simp add: closing_ctx_def gc_contract_def)
  ultimately show ?thesis
    using e c(1) by (simp add: closing_ready_def gc_contract_def)
qed

lemma gc_cycle_sound:
  assumes c: "gc_contract env pinned trace" "gc_sound env good ec bc trace"
    and g: "gc_cycle env trace w w5" and w: "settled w" "sound good ec bc w"
  shows "sound good ec bc w5"
  using g
proof cases
  case (cycle tls visitor f f' w1 w2 w3 again w4)
  let ?mode = "gc_mode (env_core env) w"
  let ?good = "good_in (env_core env) good ?mode" and ?P = "pinned (w_core w)"
  have "prepare_ready env pinned ?P ?mode ?good ec bc w2"
    using cycle(2) cycle_prepare_ready [OF c w cycle(1)] by (rule prepare_run_ready)
  from cycle_closing_ready [OF c this cycle(3,4,6)]
  have "closing_ready env pinned ?P ?good ec bc (w_core w3) w4" .
  with cycle(7) have "closing_ready env pinned ?P ?good ec bc (w_core w3) w5"
    by (rule closing_progress.run_keeps)
  then show ?thesis
    by (simp add: closing_ready_def sound_good_in)
qed

text \<open>From wherever the Prepare bucket is, the cycle can be completed.\<close>

text \<open>Once tracing has ended the weak processing is submitted and its bucket can be drained.\<close>

lemma closing_completes:
  assumes c: "gc_contract env pinned trace" "gc_sound env good ec bc trace"
    and w2: "prepare_ready env pinned P moving (good_in (env_core env) good moving) ec bc w2"
      "w_buckets w2 Prepare = []" "trace w2 w3"
    and t: "env_workers env tls = Some ctx"
  obtains again w4 where "process_weak_refs (env_build env) (env_core env) (env_up env) w3 = Inr (again, w4)"
    "\<And>w5. (bucket_step env VMRefClosure)\<^sup>*\<^sup>* w4 w5 \<Longrightarrow>
       \<exists>w6. (bucket_step env VMRefClosure)\<^sup>*\<^sup>* w5 w6 \<and> w_buckets w6 VMRefClosure = []"
proof -
  note tr = cycle_traced [OF c w2]
  have "env_sound env (good_in (env_core env) good moving) ec bc"
    using c(2) by (simp add: gc_sound_def)
  from process_weak_refs_total [OF this tr(1,2,5)] obtain again w4 where
    w4: "process_weak_refs (env_build env) (env_core env) (env_up env) w3 = Inr (again, w4)"
    by blast
  have "\<exists>w6. (bucket_step env VMRefClosure)\<^sup>*\<^sup>* w5 w6 \<and> w_buckets w6 VMRefClosure = []"
    if w5: "(bucket_step env VMRefClosure)\<^sup>*\<^sup>* w4 w5" for w5
  proof -
    have "closing_ready env pinned P (good_in (env_core env) good moving) ec bc (w_core w3) w5"
      using w5 cycle_closing_ready [OF c w2 w4] by (rule closing_progress.run_keeps)
    then show ?thesis
      using closing_progress.can_drain [OF t] by blast
  qed
  with w4 show thesis
    by (rule that)
qed

lemma cycle_completes_from:
  assumes c: "gc_contract env pinned trace" "gc_sound env good ec bc trace"
    and w: "settled w" "sound good ec bc w" and t: "env_workers env tls0 = Some ctx"
    and stop: "stop_all_mutators (env_build env) (env_core env) (env_up env)
      (tls_view (env_workers env) :: address \<rightharpoonup> unit gc_thread_tls) tls visitor (f :: address list) w = Inr (f', w1)"
    and run: "(prepare_step env)\<^sup>*\<^sup>* w1 w2"
  shows "\<exists>w2' w3 again w4. (prepare_step env)\<^sup>*\<^sup>* w2 w2' \<and> w_buckets w2' Prepare = [] \<and> trace w2' w3 \<and>
    process_weak_refs (env_build env) (env_core env) (env_up env) w3 = Inr (again, w4) \<and>
    (\<forall>w5. (bucket_step env VMRefClosure)\<^sup>*\<^sup>* w4 w5 \<longrightarrow>
      (\<exists>w6. (bucket_step env VMRefClosure)\<^sup>*\<^sup>* w5 w6 \<and> gc_cycle env trace w w6))"
proof -
  let ?mode = "gc_mode (env_core env) w"
  let ?good = "good_in (env_core env) good ?mode" and ?P = "pinned (w_core w)"
  have "prepare_ready env pinned ?P ?mode ?good ec bc w2"
    using run cycle_prepare_ready [OF c w stop] by (rule prepare_run_ready)
  then obtain w2' where w2': "(bucket_step env Prepare)\<^sup>*\<^sup>* w2 w2'" "w_buckets w2' Prepare = []"
    "prepare_ready env pinned ?P ?mode ?good ec bc w2'"
    using prepare_progress.can_drain [OF t] by blast
  have p: "(prepare_step env)\<^sup>*\<^sup>* w2 w2'"
    using w2'(1) by (rule rtranclp_mono [THEN predicate2D, rotated]) (auto intro: prepare_packet)
  obtain w3 where w3: "trace w2' w3"
    using c(2) w2'(3) unfolding gc_sound_def prepare_ready_def sound_good_in by blast
  note mode = cycle_traced(6) [OF c w2'(3,2) w3]
  obtain again w4 where w4: "process_weak_refs (env_build env) (env_core env) (env_up env) w3 = Inr (again, w4)"
    and drain: "\<And>w5. (bucket_step env VMRefClosure)\<^sup>*\<^sup>* w4 w5 \<Longrightarrow>
      \<exists>w6. (bucket_step env VMRefClosure)\<^sup>*\<^sup>* w5 w6 \<and> w_buckets w6 VMRefClosure = []"
    using closing_completes [OF c w2'(3,2) w3 t] by blast
  have "\<exists>w6. (bucket_step env VMRefClosure)\<^sup>*\<^sup>* w5 w6 \<and> gc_cycle env trace w w6"
    if w5: "(bucket_step env VMRefClosure)\<^sup>*\<^sup>* w4 w5" for w5
  proof -
    obtain w6 where w6: "(bucket_step env VMRefClosure)\<^sup>*\<^sup>* w5 w6" "w_buckets w6 VMRefClosure = []"
      using drain [OF w5] by blast
    have "gc_cycle env trace w w6"
      using stop rtranclp_trans [OF run p] w2'(2) w3 mode w4 rtranclp_trans [OF w5 w6(1)] w6(2) by (rule cycle)
    with w6(1) show ?thesis
      by blast
  qed
  with p w2'(2) w3 w4 show ?thesis
    by blast
qed

lemma gc_cycle_exists:
  assumes c: "gc_contract env pinned trace" "gc_sound env good ec bc trace"
    and w: "settled w" "sound good ec bc w" and t: "env_workers env tls = Some ctx"
  shows "\<exists>w'. gc_cycle env trace w w'"
proof -
  have e: "env_sound env (good_in (env_core env) good (gc_mode (env_core env) w)) ec bc"
    using c(2) by (simp add: gc_sound_def)
  have "sound (good_in (env_core env) good (gc_mode (env_core env) w)) ec bc w"
    using w(2) by (simp add: sound_good_in)
  from stop_all_mutators_total [OF e this t, of "\<lambda>_ f. f" "[]"] obtain f' w1 where
    "stop_all_mutators (env_build env) (env_core env) (env_up env)
      (tls_view (env_workers env) :: address \<rightharpoonup> unit gc_thread_tls) tls (\<lambda>_ f. f) ([] :: address list) w = Inr (f', w1)"
    by blast
  from cycle_completes_from [OF c w t this rtranclp.rtrancl_refl] show ?thesis
    by blast
qed

lemma program_step_sound:
  assumes c: "gc_contract env pinned trace" "gc_sound env good ec bc trace"
    and "program_step env trace e w w'" and w: "settled w" "sound good ec bc w"
  shows "settled w' \<and> sound good ec bc w'"
proof
  show s: "settled w'"
    using program_step_effect [OF c(1) assms(3) w(1)] by simp
  let ?mode = "gc_mode (env_core env) w"
  have "env_sound env (good_in (env_core env) good ?mode) ec bc"
    using c(2) by (simp add: gc_sound_def)
  then have k: "good_kept (env_core env) (env_up env) (good_in (env_core env) good ?mode)"
    by (simp add: env_sound_def)
  have g: "good_in (env_core env) good ?mode (w_core w) (w_vm w)"
    using w(2) by (simp add: sound_def good_in_def gc_mode_def)
  show "sound good ec bc w'"
    using assms(3)
  proof cases
    case (program_call g call g' b')
    then show ?thesis
      using w(2) s run_call_keeps [OF program_call(4,3,5)]
      by (simp add: sound_def mutexes_free_def settled_def)
  next
    case (program_pin ob newly m)
    then show ?thesis
      using good_keptD(6) [OF k g, of ob] by (simp add: mmtk_pin_object_def sound_states [OF w(2)] good_in_def)
  next
    case (program_unpin ob was m)
    then show ?thesis
      using good_keptD(7) [OF k g, of ob] by (simp add: mmtk_unpin_object_def sound_states [OF w(2)] good_in_def)
  next
    case program_gc
    with c w show ?thesis
      by (blast intro: gc_cycle_sound)
  qed
qed

lemma program_run_sound:
  assumes c: "gc_contract env pinned trace" "gc_sound env good ec bc trace"
    and "program_run env trace es w w'" "settled w" "sound good ec bc w"
  shows "settled w' \<and> sound good ec bc w'"
  using assms(3-5)
proof (induction rule: program_run.induct)
  case (run_cons e w u es w')
  with program_step_sound [OF c run_cons(1)] show ?case
    by blast
qed simp

section \<open>Properties\<close>

text \<open>
  C8. No packet of a GC panics. After any run of the program, in the Prepare bucket and in the closing
  bucket, whatever packets the workers have taken so far and whatever roots were scanned, the next packet a
  worker takes returns, and so does the submission of the weak processing between the buckets.
\<close>

theorem gc_packets_never_panic:
  assumes c: "gc_contract env pinned trace" "gc_sound env good ec bc trace"
    and run: "program_run env trace es w0 w" "settled w0" "sound good ec bc w0"
    and stop: "stop_all_mutators (env_build env) (env_core env) (env_up env)
      (tls_view (env_workers env) :: address \<rightharpoonup> unit gc_thread_tls) tls visitor f w = Inr (f', w1)"
    and prep: "(prepare_step env)\<^sup>*\<^sup>* w1 w2" and t: "env_workers env worker = Some ctx"
  shows "(w_buckets w2 Prepare = xs @ packet # ys \<longrightarrow>
      (\<exists>w'. do_work env worker packet (w2\<lparr>w_buckets := (w_buckets w2)(Prepare := xs @ ys)\<rparr>) = Inr w')) \<and>
    (w_buckets w2 Prepare = [] \<longrightarrow> trace w2 w3 \<longrightarrow>
      (\<exists>again w4. process_weak_refs (env_build env) (env_core env) (env_up env) w3 = Inr (again, w4) \<and>
        (\<forall>w5. (bucket_step env VMRefClosure)\<^sup>*\<^sup>* w4 w5 \<longrightarrow> w_buckets w5 VMRefClosure = us @ packet # vs \<longrightarrow>
          (\<exists>w'. do_work env worker packet (w5\<lparr>w_buckets := (w_buckets w5)(VMRefClosure := us @ vs)\<rparr>) = Inr w'))))"
proof (intro conjI impI)
  let ?mode = "gc_mode (env_core env) w"
  let ?good = "good_in (env_core env) good ?mode" and ?P = "pinned (w_core w)"
  have w: "settled w" "sound good ec bc w"
    using program_run_sound [OF c run] by simp_all
  have r2: "prepare_ready env pinned ?P ?mode ?good ec bc w2"
    using prep cycle_prepare_ready [OF c w stop] by (rule prepare_run_ready)
  then show "\<exists>w'. do_work env worker packet (w2\<lparr>w_buckets := (w_buckets w2)(Prepare := xs @ ys)\<rparr>) = Inr w'"
    if "w_buckets w2 Prepare = xs @ packet # ys"
    using that t by (rule prepare_progress.returns)
  assume e: "w_buckets w2 Prepare = []" "trace w2 w3"
  note tr = cycle_traced [OF c r2 e]
  have "env_sound env ?good ec bc"
    using c(2) by (simp add: gc_sound_def)
  from process_weak_refs_total [OF this tr(1,2,5)] obtain again w4 where
    w4: "process_weak_refs (env_build env) (env_core env) (env_up env) w3 = Inr (again, w4)"
    by blast
  note closing_progress.run_keeps [OF _ cycle_closing_ready [OF c r2 e w4]]
  with w4 t show "\<exists>again w4. process_weak_refs (env_build env) (env_core env) (env_up env) w3 = Inr (again, w4) \<and>
      (\<forall>w5. (bucket_step env VMRefClosure)\<^sup>*\<^sup>* w4 w5 \<longrightarrow> w_buckets w5 VMRefClosure = us @ packet # vs \<longrightarrow>
        (\<exists>w'. do_work env worker packet (w5\<lparr>w_buckets := (w_buckets w5)(VMRefClosure := us @ vs)\<rparr>) = Inr w'))"
    by (blast intro: closing_progress.returns)
qed


text \<open>A VM that reports nothing but a pinned child and an object at 8, with weak tables of one size.\<close>

lemma quiet_env_sound:
  assumes up: "env_up env = ivar_upcalls\<lparr>up_st_get_size_info := \<lambda>_ _. (0, eb, bn)\<rparr>" "unat eb < 2 ^ 63" "unat bn < 2 ^ 63"
    and workers: "\<forall>tls ctx. env_workers env tls = Some ctx \<longrightarrow> tls \<noteq> 0"
    and steady: "\<forall>ob m. mc_current_gc_may_move_object (env_core env) m = mv" "mc_is_mmtk_object (env_core env) = (\<lambda>a _. Some a)"
  shows "env_sound env (good_in (env_core env) (\<lambda>_ _. True) moving) 1024 4096"
  unfolding env_sound_def
proof (intro conjI)
  show "\<forall>m v. good_in (env_core env) (\<lambda>_ _. True) moving m v \<longrightarrow> tables_ok (env_up env) 1024 4096 v"
    using up by (simp add: tables_ok_def table_fits_def ivar_upcalls_def null_upcalls_def)
  have roots: "scan = VM_done" if "scan_roots (env_up env) packet = Some scan" for packet scan
    using that by (cases packet) (simp_all add: up ivar_upcalls_def null_upcalls_def)
  show "vm_reports_objects (env_build env) (env_core env) (env_up env) (good_in (env_core env) (\<lambda>_ _. True) moving)"
    unfolding vm_reports_objects_def using steady
    by (auto dest: roots) (simp_all add: up ivar_upcalls_def null_upcalls_def)
  show "good_kept (env_core env) (env_up env) (good_in (env_core env) (\<lambda>_ _. True) moving)"
    using steady by (simp add: good_kept_def good_in_def up ivar_upcalls_def null_upcalls_def)
qed (rule workers)

lemma example_sound: "gc_sound example_env (\<lambda>_ _. True) 1024 4096 (=)" "sound (\<lambda>_ _. True) 1024 4096 example_gc_world"
proof -
  have "env_up example_env = ivar_upcalls\<lparr>up_st_get_size_info := \<lambda>_ _. (0, 0, 0)\<rparr>"
    by (simp add: ivar_upcalls_def null_upcalls_def)
  then have "env_sound example_env (good_in (env_core example_env) (\<lambda>_ _. True) moving) 1024 4096" for moving
    by (rule quiet_env_sound) (simp_all add: example_core_def)
  then show "gc_sound example_env (\<lambda>_ _. True) 1024 4096 (=)"
    by (simp add: gc_sound_def)
  show "sound (\<lambda>_ _. True) 1024 4096 example_gc_world"
    by (simp add: sound_def mutexes_free_def registries_free_def example_gc_world_def put_ppps_def
        weak_processor_new_def ppp_registry_new_def)
qed

theorem gc_packets_never_panic_witness:
  "\<exists>w' :: (objref set, objref \<rightharpoonup> address) world. do_work example_env 4096 (PinPPPChildren [16])
     ((submit Prepare [PinPPPChildren [16]] example_gc_world)\<lparr>w_buckets :=
        (w_buckets (submit Prepare [PinPPPChildren [16]] example_gc_world))(Prepare := [])\<rparr>) = Inr w'"
proof -
  let ?w1 = "submit Prepare [PinPPPChildren [16]] example_gc_world"
  have stop: "stop_all_mutators (env_build example_env) (env_core example_env) (env_up example_env)
      (tls_view (env_workers example_env) :: address \<rightharpoonup> unit gc_thread_tls) 4096 (\<lambda>_ f. f) ([] :: address list)
      example_gc_world = Inr ([], ?w1)"
    using example_stop by simp
  have b: "w_buckets ?w1 Prepare = [] @ PinPPPChildren [16] # []"
    by (simp add: example_gc_world_def put_ppps_def)
  show ?thesis
    using gc_packets_never_panic [OF example_contract example_sound(1) run_nil example_settled example_sound(2)
      stop rtranclp.rtrancl_refl, of 4096 8192 "[]" "PinPPPChildren [16]" "[]"] b by simp
qed


end
