(* ===== verification/Vm_Frames.thy ===== *)
theory Vm_Frames
  imports Gc_Progress
begin

text \<open>
  What the packets of a GC do to the state of the VM. The binding never writes it: all changes are made
  by the upcalls a packet calls. So a relation \<open>K\<close> that every upcall keeps is kept by every packet, and
  by every bucket. The tables of the VM that outlive a packet (here its generic ivars) are described by
  such relations.
\<close>

section \<open>Upcalls that keep a relation\<close>

lemma run_visitor_result:
  "run_visitor visit c s = Inr (r, s') \<Longrightarrow> vm_wp P Q c \<Longrightarrow> Q r"
  by (induction c arbitrary: s) (auto simp: bind_res_eq_Inr)

lemma run_with_closure_result:
  "run_with_closure cfg object_closure_default visit c s = Inr (r, s') \<Longrightarrow> vm_wp P Q c \<Longrightarrow> Q r"
  by (auto simp: run_with_closure_default intro: run_visitor_result)

text \<open>The upcalls before and during tracing, and those of weak processing but the moves of ivars.\<close>

definition scans_keep :: "('v \<Rightarrow> 'v \<Rightarrow> bool) \<Rightarrow> 'v ruby_upcalls \<Rightarrow> bool" where
  "scans_keep K up \<longleftrightarrow> (\<forall>v.
     (\<forall>tls. K v (up_stop_the_world up tls v)) \<and>
     (\<forall>packet scan. scan_roots up packet = Some scan \<longrightarrow> vm_wp (\<lambda>_. True) (K v) (scan v)) \<and>
     (\<forall>mt tls. vm_wp (\<lambda>_. True) (K v) (up_scan_roots_in_mutator_thread up mt tls v)) \<and>
     (\<forall>ob. vm_wp (\<lambda>_. True) (K v) (up_scan_object_ruby_style up ob v)) \<and>
     (\<forall>ob. vm_wp (\<lambda>_. True) (K v) (up_call_gc_mark_children up ob v)))"

definition updates_keep :: "('v \<Rightarrow> 'v \<Rightarrow> bool) \<Rightarrow> 'v ruby_upcalls \<Rightarrow> bool" where
  "updates_keep K up \<longleftrightarrow> (\<forall>v.
     (\<forall>ob. K v (up_call_obj_free up ob v)) \<and>
     (\<forall>tbl b e wk wv fwd. K v (snd (up_st_update_entries_range up tbl b e wk wv fwd v))) \<and>
     (\<forall>tbl b e. K v (snd (up_st_update_bins_range up tbl b e v))) \<and>
     vm_wp (\<lambda>_. True) (K v) (up_cleanup_generic_iv_tbl up v) \<and>
     vm_wp (\<lambda>_. True) (K v) (up_update_finalizer_and_obj_id_tables up v) \<and>
     vm_wp (\<lambda>_. True) (K v) (up_update_overloaded_cme_table up v) \<and>
     vm_wp (\<lambda>_. True) (K v) (up_update_ci_table up v))"

lemma scans_keepD:
  assumes "scans_keep K up"
  shows "K v (up_stop_the_world up tls v)"
    "scan_roots up packet = Some scan \<Longrightarrow> vm_wp (\<lambda>_. True) (K v) (scan v)"
    "vm_wp (\<lambda>_. True) (K v) (up_scan_roots_in_mutator_thread up mt tls v)"
    "vm_wp (\<lambda>_. True) (K v) (up_scan_object_ruby_style up ob v)"
    "vm_wp (\<lambda>_. True) (K v) (up_call_gc_mark_children up ob v)"
  using assms by (auto simp: scans_keep_def)

lemma updates_keepD:
  assumes "updates_keep K up"
  shows "K v (up_call_obj_free up ob v)"
    "K v (snd (up_st_update_entries_range up tbl b e wk wv fwd v))"
    "K v (snd (up_st_update_bins_range up tbl b e v))"
    "vm_wp (\<lambda>_. True) (K v) (up_cleanup_generic_iv_tbl up v)"
    "vm_wp (\<lambda>_. True) (K v) (up_update_finalizer_and_obj_id_tables up v)"
    "vm_wp (\<lambda>_. True) (K v) (up_update_overloaded_cme_table up v)"
    "vm_wp (\<lambda>_. True) (K v) (up_update_ci_table up v)"
  using assms by (auto simp: updates_keep_def)

lemma scans_keep_mono:
  assumes "scans_keep K up" "\<And>v v'. K v v' \<Longrightarrow> L v v'"
  shows "scans_keep L up"
  using assms(1) unfolding scans_keep_def by (blast intro: vm_wp_mono assms(2))

section \<open>Loops over objects\<close>

lemma wb_scan_body_keeps:
  assumes "scans_keep K up" "reflp K" "transp K"
  shows "vm_wp (\<lambda>_. True) (K v) (wb_scan_body core m up obs v)"
proof (induction obs arbitrary: v)
  case (Cons ob obs)
  have "vm_wp (\<lambda>_. True) (K v) (wb_scan_body core m up obs u)" if "K v u" for u
    by (rule vm_wp_mono [OF Cons]) (rule TrueI, rule transpD [OF assms(3) that])
  then have "vm_wp (\<lambda>_. True) (\<lambda>u. vm_wp (\<lambda>_. True) (K v) (wb_scan_body core m up obs u))
      (up_scan_object_ruby_style up ob v)"
    by (rule vm_wp_mono [OF scans_keepD(4) [OF assms(1)] TrueI])
  with Cons show ?case by simp
qed (use assms(2) in \<open>simp add: reflpD\<close>)

lemma pin_body_keeps:
  assumes "scans_keep K up" "reflp K" "transp K"
  shows "vm_wp (\<lambda>_. True) (\<lambda>r. K v (snd r)) (pin_body up obs n v)"
proof (induction obs arbitrary: n v)
  case (Cons ob obs)
  have "vm_wp (\<lambda>_. True) (\<lambda>r. K v (snd r)) (pin_body up obs n u)" if "K v u" for u
    by (rule vm_wp_mono [OF Cons]) (rule TrueI, rule transpD [OF assms(3) that])
  then have "vm_wp (\<lambda>_. True) (\<lambda>u. vm_wp (\<lambda>_. True) (\<lambda>r. K v (snd r)) (pin_body up obs n u))
      (up_call_gc_mark_children up ob v)"
    by (rule vm_wp_mono [OF scans_keepD(5) [OF assms(1)] TrueI])
  with Cons show ?case by simp
qed (use assms(2) in \<open>simp add: reflpD\<close>)

lemma process_candidates_keeps:
  assumes "updates_keep K up" "reflp K" "transp K"
  shows "K v (snd (process_candidates core up m xs v))"
proof (induction xs arbitrary: v)
  case (Cons x xs)
  then show ?case
    using transpD [OF assms(3) updates_keepD(1) [OF assms(1)]] by (auto simp: case_prod_beta)
qed (use assms(2) in \<open>simp add: reflpD\<close>)

section \<open>Packets\<close>

lemma collect_roots_keeps:
  assumes "collect_object_roots_in cfg core gc_tls callback w = Inr w'"
    and "object_closure gc_tls = object_closure_default" "vm_wp (\<lambda>_. True) (K (w_vm w)) (callback (w_vm w))"
  shows "K (w_vm w) (w_vm w')"
  using assms by (auto simp: collect_object_roots_in_def bind_res_eq_Inr dest: run_with_closure_result)

lemma table_packet_keeps:
  assumes "global_table_do_work cfg core (tls_view workers) tls process w = Inr w'"
    and "vm_wp (\<lambda>_. True) (\<lambda>r. \<forall>w'. r = Inr w' \<longrightarrow> Q w') (process w)"
  shows "Q w'"
proof -
  obtain gc_tls s' where g: "from_vwt_check cfg (tls_view workers :: address \<rightharpoonup> unit gc_thread_tls) tls = Inr gc_tls"
    and r: "run_with_closure cfg (object_closure gc_tls) (forward_visitor cfg core (w_core w))
      (process w) () = Inr (Inr w', s')"
    using assms(1) by (auto simp: global_table_do_work_def bind_res_eq_Inr)
  from run_with_closure_result [OF r [unfolded from_vwt_check_tls_view [OF g]] assms(2)] show ?thesis
    by blast
qed

text \<open>Packets that scan: those of the Prepare bucket.\<close>

lemma scan_packet_keeps:
  assumes d: "do_work env tls packet w = Inr w'" and p: "prepare_packet_ok packet"
    and k: "scans_keep K (env_up env)" "reflp K" "transp K"
  shows "K (w_vm w) (w_vm w')"
proof -
  have pin: ?thesis if pk: "packet = PinPPPChildren chunk" for chunk
  proof -
    obtain gc_tls :: "objref list gc_thread_tls" and no_longer v obs where
      g: "from_vwt_check (env_build env) (tls_view (env_workers env)) tls = Inr gc_tls"
      and r: "run_with_closure (env_build env) (object_closure gc_tls) pin_visitor
        (pin_body (env_up env) chunk 0 (w_vm w)) [] = Inr ((no_longer, v), obs)"
      and w': "w_vm w' = v"
      using d pk by (auto simp: do_work_def Let_def pin_ppp_children_do_work_def bind_res_eq_Inr put_pinned_def
          case_prod_beta)
    show ?thesis
      using run_with_closure_result [OF r [unfolded from_vwt_check_tls_view [OF g]] pin_body_keeps [OF k]] w'
      by simp
  qed
  have roots: ?thesis if "scan_roots (env_up env) packet = Some scan" for scan
  proof -
    have "global_root_do_work (env_build env) (env_core env) (tls_view (env_workers env)) tls scan w = Inr w'"
      using d that by (cases packet) (simp_all add: do_work_def Let_def)
    then show ?thesis
      using scans_keepD(2) [OF k(1) that]
      by (auto simp: global_root_do_work_def bind_res_eq_Inr dest: from_vwt_check_tls_view intro: collect_roots_keeps)
  qed
  have wb: ?thesis if pk: "packet = ScanWbUnprotectedRoots objects" for objects
  proof -
    obtain gc_tls :: "root_env gc_thread_tls" where
      "from_vwt_check (env_build env) (tls_view (env_workers env)) tls = Inr gc_tls"
      "collect_object_roots_in (env_build env) (env_core env) gc_tls
        (wb_scan_body (env_core env) (w_core w) (env_up env) objects) w = Inr w'"
      using d pk by (auto simp: do_work_def Let_def scan_wb_unprotected_roots_do_work_def bind_res_eq_Inr)
    then show ?thesis
      using collect_roots_keeps wb_scan_body_keeps [OF k] from_vwt_check_tls_view by metis
  qed
  show ?thesis
    using p pin wb roots by (cases packet) (simp_all add: global_root_scanners_def)
qed

text \<open>All packets but the one that moves ivars.\<close>

lemma packet_keeps_vm:
  assumes d: "do_work env tls packet w = Inr w'" and p: "packet \<noteq> UpdateGenericIvTbl"
    and k: "scans_keep K (env_up env)" "updates_keep K (env_up env)" "reflp K" "transp K"
  shows "K (w_vm w) (w_vm w')"
proof (cases "prepare_packet_ok packet")
  case True
  show ?thesis
    using d True k(1,3,4) by (rule scan_packet_keeps)
next
  case False
  note refl [simp] = reflpD [OF k(3)]
  show ?thesis
  proof (cases packet)
    case UpdateFinalizerAndObjIdTables
    with d have "global_table_do_work (env_build env) (env_core env) (tls_view (env_workers env)) tls
        (update_finalizer_and_obj_id_tables (env_up env)) w = Inr w'"
      by (simp add: do_work_def Let_def)
    then show ?thesis
      by (rule table_packet_keeps)
        (simp add: update_finalizer_and_obj_id_tables_def Let_def updates_keepD(5) [OF k(2)])
  next
    case UpdateOverloadedCmeTable
    with d have "global_table_do_work (env_build env) (env_core env) (tls_view (env_workers env)) tls
        (update_overloaded_cme_table (env_up env)) w = Inr w'"
      by (simp add: do_work_def Let_def)
    then show ?thesis
      by (rule table_packet_keeps)
        (simp add: update_overloaded_cme_table_def general_update_weak_table_def Let_def updates_keepD(6) [OF k(2)])
  next
    case UpdateCiTable
    with d have "global_table_do_work (env_build env) (env_core env) (tls_view (env_workers env)) tls
        (update_ci_table (env_up env)) w = Inr w'"
      by (simp add: do_work_def Let_def)
    then show ?thesis
      by (rule table_packet_keeps)
        (simp add: update_ci_table_def general_update_weak_table_def Let_def updates_keepD(7) [OF k(2)])
  next
    case ProcessObjFreeCandidates
    obtain xs v where c: "process_candidates (env_core env) (env_up env) (w_core w)
        (candidates (weak_proc (w_binding w))) (w_vm w) = (xs, v)"
      by fastforce
    then have "w_vm w' = v"
      using d ProcessObjFreeCandidates
      by (auto simp: do_work_def Let_def process_obj_free_candidates_do_work_def bind_res_eq_Inr
          try_lock_expect_Inr candidates_def put_candidates_def)
    then show ?thesis
      using process_candidates_keeps [OF k(2-4)] c by (metis snd_conv)
  next
    case (UpdateTableBinsParallel name tbl b e)
    with d show ?thesis
      using updates_keepD(3) [OF k(2), of "w_vm w" tbl b e]
      by (auto simp: do_work_def Let_def table_bins_do_work_def split: prod.splits)
  next
    case (UpdateTableEntriesParallel name tbl b e wk wv fwd aid)
    with d show ?thesis
      using updates_keepD(2) [OF k(2), of "w_vm w" tbl b e wk wv fwd]
      by (auto simp: do_work_def Let_def table_entries_do_work_def split: prod.splits if_splits)
  next
    case RemoveDeadPPPs
    with d show ?thesis
      by (auto simp: do_work_def Let_def remove_dead_ppps_do_work_def bind_res_eq_Inr put_ppps_def case_prod_beta)
  next
    case (UnpinPPPChildren children)
    with d show ?thesis
      by (auto simp: do_work_def Let_def unpin_ppp_children_do_work_def bind_res_eq_Inr)
  next
    case UpdateWbUnprotectedObjectsList
    with d show ?thesis
      by (auto simp: do_work_def Let_def update_wb_unprotected_objects_list_do_work_def bind_res_eq_Inr
          put_wb_unprotected_def)
  qed (use False p in \<open>simp_all add: global_root_scanners_def\<close>)
qed

section \<open>Before tracing\<close>

lemma stop_all_mutators_keeps:
  assumes "stop_all_mutators cfg core up tls_mem tls visitor f w = Inr (f', w')" "scans_keep K up"
  shows "K (w_vm w) (w_vm w')"
proof -
  have "w_vm w' = up_stop_the_world up tls (w_vm w)"
    using assms(1) by (auto simp: stop_all_mutators_def pin_ppp_children_def bind_res_eq_Inr split: if_splits)
  then show ?thesis
    using scans_keepD(1) [OF assms(2)] by simp
qed

lemma prepare_step_keeps:
  assumes "prepare_step env w w'" and inv: "prepare_inv pinned P moving w"
    and k: "scans_keep K (env_up env)" "reflp K" "transp K"
  shows "K (w_vm w) (w_vm w')"
  using assms(1)
proof cases
  case prepare_packet
  then obtain xs packet ys tls where b: "w_buckets w Prepare = xs @ packet # ys"
    and d: "do_work env tls packet (w\<lparr>w_buckets := (w_buckets w)(Prepare := xs @ ys)\<rparr>) = Inr w'"
    by (auto elim: bucket_stepE)
  have "prepare_packet_ok packet"
    using inv b by (simp add: prepare_inv_def)
  from scan_packet_keeps [OF d this k] show ?thesis by simp
next
  case (prepare_vm_roots tls)
  then show ?thesis
    using reflpD [OF k(2)]
    by (auto simp: scan_vm_specific_roots_def bind_res_eq_Inr Let_def split: if_splits)
next
  case (prepare_mutator tls mutator_tls)
  then show ?thesis
    using scans_keepD(3) [OF k(1)]
    by (auto simp: scan_roots_in_mutator_thread_def bind_res_eq_Inr dest: from_vwt_check_tls_view
        intro: collect_roots_keeps)
qed

lemma prepare_run_keeps:
  assumes "pin_contract (env_core env) pinned" "(prepare_step env)\<^sup>*\<^sup>* w w'"
    and "prepare_inv pinned P moving w" and k: "scans_keep K (env_up env)" "reflp K" "transp K"
  shows "K (w_vm w) (w_vm w')"
  using assms(2)
proof (induction rule: rtranclp_induct)
  case (step u w')
  have "prepare_inv pinned P moving u"
    using assms(1) step(1) assms(3) by (rule prepare_run_inv)
  from prepare_step_keeps [OF step(2) this k] step(3) show ?case
    by (rule transpD [OF k(3), rotated])
qed (simp add: reflpD [OF k(2)])

end
