(* ===== verification/Evacuation.thy ===== *)
theory Evacuation
  imports Object_Model
begin

text \<open>
  What the calls of \<open>copy\<close> during one GC do together, with the processing of the generic ivar table
  after it: mmtk-core evacuates a sequence of objects, and in the end the heap and the ivar table of the
  VM are those before, with the objects renamed.
\<close>

section \<open>Regions\<close>

definition region :: "address \<Rightarrow> usize \<Rightarrow> address set" where
  "region a n = {x. in_region a n x}"

lemma region_iff: "x \<in> region a n \<longleftrightarrow> (\<exists>k < n. x = a + k)"
  by (auto simp: region_def in_region_offset elim: in_regionE)

lemma region_offset [simp]: "a + k \<in> region a n \<longleftrightarrow> k < n"
  by (simp add: region_def in_region_offset)

lemma region_start: "0 < n \<Longrightarrow> a \<in> region a n"
  using region_offset [of a 0 n] by simp

lemma disjoint_regionsI:
  assumes "region a n \<inter> region b n = {}" "0 < n"
  shows "disjoint_regions a b n"
proof (rule ccontr)
  assume "\<not> disjoint_regions a b n"
  then consider "a - b < n" | "b - a < n"
    by (auto simp: disjoint_regions_def not_le)
  then show False
  proof cases
    case 1
    then have "a \<in> region b n"
      by (simp add: region_def in_region_def)
    with region_start [OF assms(2), of a] assms(1) show False
      by blast
  next
    case 2
    then have "b \<in> region a n"
      by (simp add: region_def in_region_def)
    with region_start [OF assms(2), of b] assms(1) show False
      by blast
  qed
qed

section \<open>Evacuating objects\<close>

text \<open>\<open>copy\<close> for each object in turn, each with its copy semantics; the new references come back.\<close>

fun evacuate ::
  "build \<Rightarrow> 'v ruby_upcalls \<Rightarrow> usize \<Rightarrow> ('c, 'sem) copy_context \<Rightarrow> 'v \<Rightarrow> (objref \<times> 'sem) list \<Rightarrow>
   'c copy_state \<Rightarrow> (objref list \<times> 'c copy_state) res" where
  "evacuate cfg up sfx cc v [] s = Inr ([], s)"
| "evacuate cfg up sfx cc v ((ob, sem) # obs) s =
     bind_res (object_copy cfg up sfx cc v ob sem s) (\<lambda>(new, s1).
     bind_res (evacuate cfg up sfx cc v obs s1) (\<lambda>(news, s2). Inr (new # news, s2)))"

text \<open>Where mmtk-core allocates the copies of objects with the sizes \<open>sz\<close>.\<close>

fun copy_starts ::
  "('c, 'sem) copy_context \<Rightarrow> (objref \<Rightarrow> usize) \<Rightarrow> (objref \<times> 'sem) list \<Rightarrow> 'c \<Rightarrow> address list" where
  "copy_starts cc sz [] ctx = []"
| "copy_starts cc sz ((ob, sem) # obs) ctx =
     (let (start, ctx1) = cc_alloc_copy cc ob (sz ob) MIN_OBJ_ALIGN 0 sem ctx
      in start # copy_starts cc sz obs (cc_post_copy cc (start + OBJREF_OFFSET) (sz ob) sem ctx1))"

lemma length_copy_starts [simp]: "length (copy_starts cc sz obs ctx) = length obs"
  by (induction cc sz obs ctx rule: copy_starts.induct) (auto split: prod.split)

definition object_region :: "(objref \<Rightarrow> usize) \<Rightarrow> objref \<Rightarrow> address set" where
  "object_region sz ob = region (ref_to_object_start ob) (sz ob)"

text \<open>An object whose header gives its size, with room for the flags.\<close>

definition object_ok :: "build \<Rightarrow> usize \<Rightarrow> memory \<Rightarrow> (objref \<Rightarrow> usize) \<Rightarrow> objref \<Rightarrow> bool" where
  "object_ok cfg sfx m sz ob \<longleftrightarrow> (\<exists>p. payload_size cfg m (from_objref ob) = Inr p \<and> 8 \<le> unat p) \<and>
     object_size cfg sfx m (from_objref ob) = Inr (sz ob)"

text \<open>
  The objects to be evacuated do not overlap, and mmtk-core gives each a region of its own, apart from the
  other new regions and from the objects that are there.
\<close>

fun apart :: "(objref \<Rightarrow> usize) \<Rightarrow> objref list \<Rightarrow> address list \<Rightarrow> bool" where
  "apart sz [] [] = True"
| "apart sz (ob # obs) (start # starts) =
     (start \<noteq> 0 \<and> apart sz obs starts \<and> object_region sz ob \<inter> region start (sz ob) = {} \<and>
      (\<forall>(ob', start') \<in> set (zip obs starts).
         object_region sz ob \<inter> object_region sz ob' = {} \<and>
         object_region sz ob \<inter> region start' (sz ob') = {} \<and>
         region start (sz ob) \<inter> object_region sz ob' = {} \<and>
         region start (sz ob) \<inter> region start' (sz ob') = {}))"
| "apart sz _ _ = False"

lemma apart_length: "apart sz obs starts \<Longrightarrow> length obs = length starts"
  by (induction sz obs starts rule: apart.induct) auto

lemma apart_consD:
  assumes "apart sz (ob # obs) (start # starts)" "(ob', start') \<in> set (zip obs starts)"
    and "x \<in> object_region sz ob \<or> x \<in> region start (sz ob)"
  shows "x \<notin> object_region sz ob' \<and> x \<notin> region start' (sz ob')"
  using assms by auto

text \<open>What is recorded for the ivar table: the moves of the flagged objects.\<close>

fun moved_records ::
  "memory \<Rightarrow> (objref \<rightharpoonup> address) \<Rightarrow> objref list \<Rightarrow> address list \<Rightarrow> (objref \<times> moved_givtbl_entry) list" where
  "moved_records m t (ob # obs) (start # starts) =
     (if has_exivar_flag m (from_objref ob)
      then [(start + OBJREF_OFFSET, \<lparr>old_objref = ob, gen_ivtbl = the (t ob)\<rparr>)] else []) @
     moved_records m t obs starts"
| "moved_records m t _ _ = []"

section \<open>What one copy leaves to the next\<close>

lemma object_ok_facts:
  assumes "object_ok cfg sfx m sz ob" "unat sfx < 2 ^ 63"
  shows "object_size cfg sfx m (from_objref ob) = Inr (sz ob)" "0 < sz ob"
proof -
  obtain p where p: "payload_size cfg m (from_objref ob) = Inr p" "8 \<le> unat p"
    and n: "object_size cfg sfx m (from_objref ob) = Inr (sz ob)"
    using assms(1) by (auto simp: object_ok_def)
  then have "unat (sz ob) = 8 + unat p + unat sfx"
    using object_size_fits [OF p(1) assms(2)] by auto
  then show "object_size cfg sfx m (from_objref ob) = Inr (sz ob)" "0 < sz ob"
    using n by (simp_all add: word_less_nat_alt)
qed

text \<open>An object whose bytes are at another place of another memory is the same object there.\<close>

lemma object_ok_moved:
  assumes "object_ok cfg sfx m sz ob" "unat sfx < 2 ^ 63"
    and "same_bytes (ob - OBJREF_OFFSET) start (sz ob) m m'"
  shows "object_size cfg sfx m' (from_objref (start + OBJREF_OFFSET)) = Inr (sz ob)"
    "load_flags m' (from_objref (start + OBJREF_OFFSET)) = load_flags m (from_objref ob)"
    "sz (start + OBJREF_OFFSET) = sz ob \<Longrightarrow> object_ok cfg sfx m' sz (start + OBJREF_OFFSET)"
proof -
  obtain p where p: "payload_size cfg m (from_objref ob) = Inr p" "8 \<le> unat p"
    and n: "object_size cfg sfx m (from_objref ob) = Inr (sz ob)"
    using assms(1) by (auto simp: object_ok_def)
  note same = same_bytes_object [OF assms(3) n assms(2) p]
  show "object_size cfg sfx m' (from_objref (start + OBJREF_OFFSET)) = Inr (sz ob)"
    "load_flags m' (from_objref (start + OBJREF_OFFSET)) = load_flags m (from_objref ob)"
    using same by simp_all
  show "object_ok cfg sfx m' sz (start + OBJREF_OFFSET)" if "sz (start + OBJREF_OFFSET) = sz ob"
    using same p(2) that by (auto simp: object_ok_def)
qed

lemma object_ok_untouched:
  assumes "object_ok cfg sfx m sz ob" "unat sfx < 2 ^ 63"
    and "\<And>x. x \<in> object_region sz ob \<Longrightarrow> m' x = m x"
  shows "object_ok cfg sfx m' sz ob" "has_exivar_flag m' (from_objref ob) = has_exivar_flag m (from_objref ob)"
proof -
  have "same_bytes (ob - OBJREF_OFFSET) (ob - OBJREF_OFFSET) (sz ob) m m'"
    using assms(3) by (simp add: same_bytes_def object_region_def ref_to_object_start_def)
  from object_ok_moved [OF assms(1,2) this] show "object_ok cfg sfx m' sz ob"
    "has_exivar_flag m' (from_objref ob) = has_exivar_flag m (from_objref ob)"
    by (simp_all add: has_exivar_flag_def)
qed

lemma moved_records_cong:
  assumes "\<And>ob. ob \<in> set obs \<Longrightarrow> has_exivar_flag m' (from_objref ob) = has_exivar_flag m (from_objref ob)"
  shows "moved_records m' t obs starts = moved_records m t obs starts"
  using assms by (induction m t obs starts rule: moved_records.induct) auto

text \<open>
  Everything about the state after an evacuation: the copies, the memory apart from old and new regions,
  the old regions, and the record of moves.
\<close>

definition evacuated ::
  "build \<Rightarrow> 'v ruby_upcalls \<Rightarrow> 'v \<Rightarrow> (objref \<Rightarrow> usize) \<Rightarrow> objref list \<Rightarrow> address list \<Rightarrow>
   'c copy_state \<Rightarrow> 'c copy_state \<Rightarrow> bool" where
  "evacuated cfg up v sz obs starts s s' \<longleftrightarrow>
     (\<forall>(ob, start) \<in> set (zip obs starts). same_bytes (ref_to_object_start ob) start (sz ob) (cs_mem s) (cs_mem s')) \<and>
     (\<forall>x. (\<forall>(ob, start) \<in> set (zip obs starts). x \<notin> object_region sz ob \<and> x \<notin> region start (sz ob)) \<longrightarrow>
        cs_mem s' x = cs_mem s x) \<and>
     (\<forall>(ob, start) \<in> set (zip obs starts). \<forall>x \<in> object_region sz ob.
        cs_mem s' x = (if clear_old_copy cfg then 0 else cs_mem s x)) \<and>
     cs_binding s' = (cs_binding s)\<lparr>moved_givtbl := (moved_givtbl (cs_binding s))\<lparr>mutex_data :=
       mutex_data (moved_givtbl (cs_binding s)) ++
       map_of (rev (moved_records (cs_mem s) (get_original_givtbl up v) obs starts))\<rparr>\<rparr>"

lemma one_copy:
  assumes ok: "object_ok cfg sfx (cs_mem s) sz ob" and sfx: "unat sfx < 2 ^ 63"
    and g: "has_exivar_flag (cs_mem s) (from_objref ob) \<longrightarrow> get_original_givtbl up v ob \<noteq> None"
    and a: "apart sz (ob # obs) (start # starts)" "\<not> mutex_poisoned (moved_givtbl (cs_binding s))"
    and alloc: "cc_alloc_copy cc ob (sz ob) MIN_OBJ_ALIGN 0 sem (cs_ctx s) = (start, ctx1)"
  obtains s1 where "object_copy cfg up sfx cc v ob sem s = Inr (start + OBJREF_OFFSET, s1)"
    "same_bytes (ref_to_object_start ob) start (sz ob) (cs_mem s) (cs_mem s1)"
    "\<forall>x. x \<notin> object_region sz ob \<longrightarrow> x \<notin> region start (sz ob) \<longrightarrow> cs_mem s1 x = cs_mem s x"
    "\<forall>x \<in> object_region sz ob. cs_mem s1 x = (if clear_old_copy cfg then 0 else cs_mem s x)"
    "cs_binding s1 = binding_after_copy up v ob (start + OBJREF_OFFSET) (cs_mem s) (cs_binding s)"
    "cs_ctx s1 = cc_post_copy cc (start + OBJREF_OFFSET) (sz ob) sem ctx1"
proof -
  note size = object_ok_facts [OF ok sfx]
  have "disjoint_regions (ob - OBJREF_OFFSET) start (sz ob)"
    using a(1) size(2) by (intro disjoint_regionsI) (simp_all add: object_region_def ref_to_object_start_def)
  then have "copy_ready cfg up sfx cc v ob sem s (sz ob) start"
    using size(1) g a alloc by (simp add: copy_ready_def)
  then show thesis
    by (rule object_copy_runs)
      (rule that, auto simp: alloc copied_def object_region_def region_def ref_to_object_start_def)
qed

lemma binding_after_copy_record:
  "binding_after_copy up v ob new m b = b\<lparr>moved_givtbl := (moved_givtbl b)\<lparr>mutex_data :=
     mutex_data (moved_givtbl b) ++ map_of (if has_exivar_flag m (from_objref ob)
       then [(new, \<lparr>old_objref = ob, gen_ivtbl = the (get_original_givtbl up v ob)\<rparr>)] else [])\<rparr>\<rparr>"
  by (cases b) (auto simp: binding_after_copy_def)

lemma evacuated_cons:
  assumes a: "apart sz (ob # obs) (start # starts)" and n: "0 < sz ob" "\<forall>ob' \<in> set obs. object_ok cfg sfx (cs_mem s) sz ob'"
    and sfx: "unat sfx < 2 ^ 63"
    and s1: "same_bytes (ref_to_object_start ob) start (sz ob) (cs_mem s) (cs_mem s1)"
      "\<forall>x. x \<notin> object_region sz ob \<longrightarrow> x \<notin> region start (sz ob) \<longrightarrow> cs_mem s1 x = cs_mem s x"
      "\<forall>x \<in> object_region sz ob. cs_mem s1 x = (if clear_old_copy cfg then 0 else cs_mem s x)"
      "cs_binding s1 = binding_after_copy up v ob (start + OBJREF_OFFSET) (cs_mem s) (cs_binding s)"
    and s': "evacuated cfg up v sz obs starts s1 s'"
    and len: "length obs = length starts"
  shows "evacuated cfg up v sz (ob # obs) (start # starts) s s'"
proof -
  have rest: "x \<notin> object_region sz ob' \<and> x \<notin> region start' (sz ob')"
    if "(ob', start') \<in> set (zip obs starts)" "x \<in> object_region sz ob \<or> x \<in> region start (sz ob)" for x ob' start'
    using a that by (rule apart_consD)
  have later: "cs_mem s' x = cs_mem s1 x" if "x \<in> object_region sz ob \<or> x \<in> region start (sz ob)" for x
    using s' rest [OF _ that] unfolding evacuated_def by blast
  have before: "cs_mem s1 x = cs_mem s x" if "x \<in> object_region sz ob'" "(ob', start') \<in> set (zip obs starts)" for x ob' start'
    using rest [OF that(2)] that(1) s1(2) by blast
  have head: "same_bytes (ref_to_object_start ob) start (sz ob) (cs_mem s) (cs_mem s')"
    using s1(1) later by (simp add: same_bytes_def)
  have tail: "same_bytes (ref_to_object_start ob') start' (sz ob') (cs_mem s) (cs_mem s')"
    if p: "(ob', start') \<in> set (zip obs starts)" for ob' start'
  proof -
    have "cs_mem s1 (ref_to_object_start ob' + k) = cs_mem s (ref_to_object_start ob' + k)" if "k < sz ob'" for k
      using before [OF _ p] that by (simp add: object_region_def)
    moreover have "same_bytes (ref_to_object_start ob') start' (sz ob') (cs_mem s1) (cs_mem s')"
      using s' p unfolding evacuated_def by blast
    ultimately show ?thesis
      by (simp add: same_bytes_def)
  qed
  have flags: "has_exivar_flag (cs_mem s1) (from_objref ob') = has_exivar_flag (cs_mem s) (from_objref ob')"
    if ob': "ob' \<in> set obs" for ob'
  proof -
    obtain start' where "(ob', start') \<in> set (zip obs starts)"
      using ob' len by (metis in_set_impl_in_set_zip1)
    then show ?thesis
      using n(2) ob' by (intro object_ok_untouched(2) [OF _ sfx]) (auto intro: before)
  qed
  have "cs_binding s' = (cs_binding s)\<lparr>moved_givtbl := (moved_givtbl (cs_binding s))\<lparr>mutex_data :=
       mutex_data (moved_givtbl (cs_binding s)) ++
       map_of (rev (moved_records (cs_mem s) (get_original_givtbl up v) (ob # obs) (start # starts)))\<rparr>\<rparr>"
    using s' s1(4) by (simp add: evacuated_def binding_after_copy_record moved_records_cong [OF flags])
  then show ?thesis
    using s' head tail later before s1(2,3) unfolding evacuated_def
    by (auto simp: moved_records_cong [OF flags])
qed

lemma evacuate_runs:
  assumes sfx: "unat sfx < 2 ^ 63"
    and "\<forall>ob \<in> fst ` set obs. object_ok cfg sfx (cs_mem s) sz ob \<and>
      (has_exivar_flag (cs_mem s) (from_objref ob) \<longrightarrow> get_original_givtbl up v ob \<noteq> None)"
    and "apart sz (map fst obs) (copy_starts cc sz obs (cs_ctx s))"
    and "\<not> mutex_poisoned (moved_givtbl (cs_binding s))"
  shows "\<exists>s'. evacuate cfg up sfx cc v obs s = Inr (map (\<lambda>a. a + OBJREF_OFFSET) (copy_starts cc sz obs (cs_ctx s)), s') \<and>
    evacuated cfg up v sz (map fst obs) (copy_starts cc sz obs (cs_ctx s)) s s'"
  using assms(2-4)
proof (induction obs arbitrary: s)
  case Nil
  then show ?case
    by (simp add: evacuated_def)
next
  case (Cons x obs)
  obtain ob sem where x: "x = (ob, sem)"
    by (cases x)
  obtain start ctx1 where alloc: "cc_alloc_copy cc ob (sz ob) MIN_OBJ_ALIGN 0 sem (cs_ctx s) = (start, ctx1)"
    by (cases "cc_alloc_copy cc ob (sz ob) MIN_OBJ_ALIGN 0 sem (cs_ctx s)")
  let ?starts = "copy_starts cc sz obs (cc_post_copy cc (start + OBJREF_OFFSET) (sz ob) sem ctx1)"
  have starts: "copy_starts cc sz (x # obs) (cs_ctx s) = start # ?starts"
    using x alloc by simp
  have a: "apart sz (ob # map fst obs) (start # ?starts)"
    using Cons.prems(2) x unfolding starts by simp
  have ok: "object_ok cfg sfx (cs_mem s) sz ob"
    "has_exivar_flag (cs_mem s) (from_objref ob) \<longrightarrow> get_original_givtbl up v ob \<noteq> None"
    using Cons.prems(1) x by auto
  obtain s1 where s1: "object_copy cfg up sfx cc v ob sem s = Inr (start + OBJREF_OFFSET, s1)"
    "same_bytes (ref_to_object_start ob) start (sz ob) (cs_mem s) (cs_mem s1)"
    "\<forall>x. x \<notin> object_region sz ob \<longrightarrow> x \<notin> region start (sz ob) \<longrightarrow> cs_mem s1 x = cs_mem s x"
    "\<forall>x \<in> object_region sz ob. cs_mem s1 x = (if clear_old_copy cfg then 0 else cs_mem s x)"
    "cs_binding s1 = binding_after_copy up v ob (start + OBJREF_OFFSET) (cs_mem s) (cs_binding s)"
    "cs_ctx s1 = cc_post_copy cc (start + OBJREF_OFFSET) (sz ob) sem ctx1"
    by (rule one_copy [OF ok(1) sfx ok(2) a Cons.prems(3) alloc])
  have untouched: "object_ok cfg sfx (cs_mem s1) sz ob' \<and>
      has_exivar_flag (cs_mem s1) (from_objref ob') = has_exivar_flag (cs_mem s) (from_objref ob')"
    if ob': "ob' \<in> fst ` set obs" for ob'
  proof -
    obtain start' where p: "(ob', start') \<in> set (zip (map fst obs) ?starts)"
      using ob' in_set_impl_in_set_zip1 [of "map fst obs" ?starts ob'] by auto
    have "cs_mem s1 x = cs_mem s x" if "x \<in> object_region sz ob'" for x
      using apart_consD [OF a p, of x] that s1(3) by blast
    moreover have "object_ok cfg sfx (cs_mem s) sz ob'"
      using Cons.prems(1) ob' by auto
    ultimately show ?thesis
      using object_ok_untouched sfx by blast
  qed
  have poison: "\<not> mutex_poisoned (moved_givtbl (cs_binding s1))"
    using s1(5) Cons.prems(3) by (simp add: binding_after_copy_record)
  have "\<exists>s'. evacuate cfg up sfx cc v obs s1 = Inr (map (\<lambda>a. a + OBJREF_OFFSET) ?starts, s') \<and>
      evacuated cfg up v sz (map fst obs) ?starts s1 s'"
    using Cons.IH [of s1] untouched poison a Cons.prems(1) by (auto simp: s1(6))
  then obtain s' where s': "evacuate cfg up sfx cc v obs s1 = Inr (map (\<lambda>a. a + OBJREF_OFFSET) ?starts, s')"
    "evacuated cfg up v sz (map fst obs) ?starts s1 s'"
    by blast
  have "evacuated cfg up v sz (ob # map fst obs) (start # ?starts) s s'"
    using a object_ok_facts(2) [OF ok(1) sfx] _ sfx s1(2-5) s'(2)
    by (rule evacuated_cons) (use Cons.prems(1) in auto)
  with s1(1) s'(1) x alloc show ?case
    by simp
qed

section \<open>The record of moves after an evacuation\<close>

lemma moved_records_iff:
  "(new, e) \<in> set (moved_records m t obs starts) \<longleftrightarrow>
     (\<exists>ob start. (ob, start) \<in> set (zip obs starts) \<and> has_exivar_flag m (from_objref ob) \<and>
        new = start + OBJREF_OFFSET \<and> e = \<lparr>old_objref = ob, gen_ivtbl = the (t ob)\<rparr>)"
  by (induction m t obs starts rule: moved_records.induct) auto

lemma apart_distinct:
  assumes "apart sz obs starts" "\<forall>ob \<in> set obs. 0 < sz ob"
  shows "distinct obs \<and> distinct starts \<and> (\<forall>ob \<in> set obs. \<forall>start \<in> set starts. ref_to_object_start ob \<noteq> start)"
  using assms
proof (induction sz obs starts rule: apart.induct)
  case (2 sz ob obs start starts)
  have len: "length obs = length starts"
    using apart_length [OF "2.prems"(1)] by simp
  have old: "ref_to_object_start ob' \<noteq> ref_to_object_start ob \<and> ref_to_object_start ob' \<noteq> start"
    if ob': "ob' \<in> set obs" for ob'
  proof -
    obtain start' where p: "(ob', start') \<in> set (zip obs starts)"
      using ob' len by (metis in_set_impl_in_set_zip1)
    have "ref_to_object_start ob' \<in> object_region sz ob'"
      using ob' "2.prems"(2) by (simp add: object_region_def region_start)
    moreover have "ref_to_object_start ob \<in> object_region sz ob" "start \<in> region start (sz ob)"
      using "2.prems"(2) by (simp_all add: object_region_def region_start)
    ultimately show ?thesis
      using apart_consD [OF "2.prems"(1) p] by metis
  qed
  have new: "start' \<noteq> ref_to_object_start ob \<and> start' \<noteq> start" if s: "start' \<in> set starts" for start'
  proof -
    obtain ob' where p: "(ob', start') \<in> set (zip obs starts)"
      using s len by (metis in_set_impl_in_set_zip2)
    then have "start' \<in> region start' (sz ob')"
      using "2.prems"(2) by (auto simp: region_start dest: set_zip_leftD)
    moreover have "ref_to_object_start ob \<in> object_region sz ob" "start \<in> region start (sz ob)"
      using "2.prems"(2) by (simp_all add: object_region_def region_start)
    ultimately show ?thesis
      using apart_consD [OF "2.prems"(1) p] by metis
  qed
  have "ref_to_object_start ob \<noteq> start"
    using "2.prems" region_start [of "sz ob" start] by (auto simp: object_region_def)
  with "2.IH" "2.prems" old new show ?case
    by auto
qed simp_all

lemma moved_records_distinct:
  assumes "distinct starts"
  shows "distinct (map fst (moved_records m t obs starts))"
  using assms
proof (induction m t obs starts rule: moved_records.induct)
  case (1 m t ob obs start starts)
  have "start + OBJREF_OFFSET \<notin> fst ` set (moved_records m t obs starts)"
    using "1.prems" set_zip_rightD [of _ start obs starts] by (auto simp: moved_records_iff)
  with 1 show ?case
    by simp
qed simp_all

text \<open>The record is fit for the drain, which then renames the keys of the table.\<close>

lemma moved_records_ok:
  assumes a: "apart sz obs starts" "\<forall>ob \<in> set obs. 0 < sz ob"
    and t: "\<forall>ob \<in> set obs. has_exivar_flag m (from_objref ob) \<longrightarrow> t ob \<noteq> None"
  shows "moves_ok t (map_of (rev (moved_records m t obs starts)))"
    and "map_of (rev (moved_records m t obs starts)) new = Some e \<longleftrightarrow> (new, e) \<in> set (moved_records m t obs starts)"
proof -
  note d = apart_distinct [OF a]
  have iff: "map_of (rev (moved_records m t obs starts)) new = Some e \<longleftrightarrow>
      (new, e) \<in> set (moved_records m t obs starts)" for new e
    using moved_records_distinct [of starts m t obs] d by (simp add: map_of_eq_Some_iff rev_map [symmetric])
  then show "map_of (rev (moved_records m t obs starts)) new = Some e \<longleftrightarrow>
      (new, e) \<in> set (moved_records m t obs starts)" .
  have fresh: "ob \<noteq> start + OBJREF_OFFSET" if "ob \<in> set obs" "start \<in> set starts" for ob start
  proof
    assume "ob = start + OBJREF_OFFSET"
    then have "ref_to_object_start ob = start"
      by (simp add: ref_to_object_start_def)
    with d that show False
      by blast
  qed
  have "new = new'"
    if "(new, e) \<in> set (moved_records m t obs starts)" "(new', e') \<in> set (moved_records m t obs starts)"
      "old_objref e = old_objref e'" for new new' e e'
  proof -
    have "distinct (map fst (zip obs starts))"
      using d apart_length [OF a(1)] by simp
    with that show ?thesis
      by (auto simp: moved_records_iff dest: eq_key_imp_eq_value)
  qed
  moreover have "t (old_objref e) = Some (gen_ivtbl e) \<and>
      (old_objref e, e') \<notin> set (moved_records m t obs starts)"
    if "(new, e) \<in> set (moved_records m t obs starts)" for new e e'
  proof -
    obtain ob start where o: "(ob, start) \<in> set (zip obs starts)" "has_exivar_flag m (from_objref ob)"
      "e = \<lparr>old_objref = ob, gen_ivtbl = the (t ob)\<rparr>"
      using \<open>(new, e) \<in> set (moved_records m t obs starts)\<close> by (auto simp: moved_records_iff)
    then have "ob \<in> set obs"
      by (auto dest: set_zip_leftD)
    then show ?thesis
      using o t fresh by (auto simp: moved_records_iff dest: set_zip_rightD)
  qed
  ultimately show "moves_ok t (map_of (rev (moved_records m t obs starts)))"
    unfolding moves_ok_def iff by (metis finite_dom_map_of iff not_Some_eq)
qed

lemma rekeyed_records:
  assumes a: "apart sz obs starts" "\<forall>ob \<in> set obs. 0 < sz ob"
    and t: "\<forall>ob \<in> set obs. has_exivar_flag m (from_objref ob) \<longrightarrow> t ob \<noteq> None"
    and M: "M = map_of (rev (moved_records m t obs starts))"
  shows "(ob, start) \<in> set (zip obs starts) \<Longrightarrow> has_exivar_flag m (from_objref ob) \<Longrightarrow>
      rekeyed t M (start + OBJREF_OFFSET) = t ob \<and> rekeyed t M ob = None"
    and "ob \<notin> (\<lambda>start. start + OBJREF_OFFSET) ` set starts \<Longrightarrow>
      ob \<notin> set obs \<or> \<not> has_exivar_flag m (from_objref ob) \<Longrightarrow> rekeyed t M ob = t ob"
proof -
  have iff: "M new = Some e \<longleftrightarrow> (new, e) \<in> set (moved_records m t obs starts)" for new e
    unfolding M using moved_records_ok(2) [OF a t] .
  have none: "M new = None" if "new \<notin> (\<lambda>start. start + OBJREF_OFFSET) ` set starts" for new
  proof (cases "M new")
    case (Some e)
    with that show ?thesis
      by (auto simp: iff moved_records_iff dest: set_zip_rightD)
  qed
  {
    assume p: "(ob, start) \<in> set (zip obs starts)" "has_exivar_flag m (from_objref ob)"
    then have M: "M (start + OBJREF_OFFSET) = Some \<lparr>old_objref = ob, gen_ivtbl = the (t ob)\<rparr>"
      by (auto simp: iff moved_records_iff)
    then have "M ob = None"
      using moved_records_ok(1) [OF a t] unfolding assms(4) [symmetric] moves_ok_def by fastforce
    moreover have "t ob \<noteq> None"
      using p t by (auto dest: set_zip_leftD)
    moreover have "\<exists>new e. M new = Some e \<and> old_objref e = ob"
      using M by fastforce
    ultimately show "rekeyed t M (start + OBJREF_OFFSET) = t ob \<and> rekeyed t M ob = None"
      using M by (auto simp: rekeyed_def)
  next
    assume o: "ob \<notin> (\<lambda>start. start + OBJREF_OFFSET) ` set starts" "ob \<notin> set obs \<or> \<not> has_exivar_flag m (from_objref ob)"
    then have "\<nexists>new e. M new = Some e \<and> old_objref e = ob"
      by (auto simp: iff moved_records_iff dest: set_zip_leftD)
    then show "rekeyed t M ob = t ob"
      using none [OF o(1)] by (auto simp: rekeyed_def)
  }
qed

lemma set_zip_refs:
  "(ob, new) \<in> set (zip obs (map (\<lambda>start. start + OBJREF_OFFSET) starts)) \<longleftrightarrow>
   (\<exists>start. new = start + OBJREF_OFFSET \<and> (ob, start) \<in> set (zip obs starts))"
  by (force simp: zip_map2)

text \<open>The heap and the table of ivars after the copies, over the new references.\<close>

lemma evacuated_objects:
  assumes e: "evacuated cfg up v sz obs starts s s'" and sfx: "unat sfx < 2 ^ 63"
    and ok: "\<forall>ob \<in> set obs. object_ok cfg sfx (cs_mem s) sz ob"
    and p: "(ob, new) \<in> set (zip obs (map (\<lambda>start. start + OBJREF_OFFSET) starts))"
  shows "same_bytes (ref_to_object_start ob) (ref_to_object_start new) (sz ob) (cs_mem s) (cs_mem s')"
    "get_current_size cfg sfx (cs_mem s') new = Inr (sz ob)"
    "load_flags (cs_mem s') (from_objref new) = load_flags (cs_mem s) (from_objref ob)"
proof -
  obtain start where new: "new = start + OBJREF_OFFSET" and p: "(ob, start) \<in> set (zip obs starts)"
    using p by (auto simp: set_zip_refs)
  have same: "same_bytes (ref_to_object_start ob) start (sz ob) (cs_mem s) (cs_mem s')"
    using e p unfolding evacuated_def by auto
  then have "same_bytes (ob - OBJREF_OFFSET) start (sz ob) (cs_mem s) (cs_mem s')"
    by (simp add: ref_to_object_start_def)
  moreover have "object_ok cfg sfx (cs_mem s) sz ob"
    using ok p by (blast dest: set_zip_leftD)
  ultimately show "same_bytes (ref_to_object_start ob) (ref_to_object_start new) (sz ob) (cs_mem s) (cs_mem s')"
    "get_current_size cfg sfx (cs_mem s') new = Inr (sz ob)"
    "load_flags (cs_mem s') (from_objref new) = load_flags (cs_mem s) (from_objref ob)"
    using object_ok_moved(1,2) [OF _ sfx] same
    by (simp_all add: new get_current_size_def ref_to_object_start_def)
qed

lemma evacuated_elsewhere:
  assumes "evacuated cfg up v sz obs starts s s'"
    and "\<forall>(ob, new) \<in> set (zip obs (map (\<lambda>start. start + OBJREF_OFFSET) starts)).
      x \<notin> object_region sz ob \<and> x \<notin> region (ref_to_object_start new) (sz ob)"
  shows "cs_mem s' x = cs_mem s x"
proof -
  have "x \<notin> object_region sz ob \<and> x \<notin> region start (sz ob)" if "(ob, start) \<in> set (zip obs starts)" for ob start
  proof -
    have "(ob, start + OBJREF_OFFSET) \<in> set (zip obs (map (\<lambda>start. start + OBJREF_OFFSET) starts))"
      using that by (auto simp: set_zip_refs)
    with assms(2) show ?thesis
      by (fastforce simp: ref_to_object_start_def)
  qed
  with assms(1) show ?thesis
    unfolding evacuated_def by blast
qed

lemma evacuated_ivars:
  assumes c: "givtbl_contract up tbl" and ord: "hash_map_order ord"
    and a: "apart sz obs starts" "\<forall>ob \<in> set obs. 0 < sz ob"
    and t: "\<forall>ob \<in> set obs. has_exivar_flag m (from_objref ob) \<longrightarrow> tbl v ob \<noteq> None"
    and v': "v' = move_givtbls up (ord (map_of (rev (moved_records m (tbl v) obs starts)))) v"
  shows "(ob, new) \<in> set (zip obs (map (\<lambda>start. start + OBJREF_OFFSET) starts)) \<Longrightarrow>
      has_exivar_flag m (from_objref ob) \<Longrightarrow> tbl v' new = tbl v ob \<and> tbl v' ob = None"
    and "ob \<notin> (\<lambda>start. start + OBJREF_OFFSET) ` set starts \<Longrightarrow>
      ob \<notin> set obs \<or> \<not> has_exivar_flag m (from_objref ob) \<Longrightarrow> tbl v' ob = tbl v ob"
proof -
  have r: "tbl v' = rekeyed (tbl v) (map_of (rev (moved_records m (tbl v) obs starts)))"
    using move_givtbls_rekeyed [OF c moved_records_ok(1) [OF a t] ord] by (simp add: v')
  show "tbl v' new = tbl v ob \<and> tbl v' ob = None"
    if "(ob, new) \<in> set (zip obs (map (\<lambda>start. start + OBJREF_OFFSET) starts))"
      "has_exivar_flag m (from_objref ob)"
    using that rekeyed_records(1) [OF a t refl] by (auto simp: r set_zip_refs)
  show "tbl v' ob = tbl v ob"
    if "ob \<notin> (\<lambda>start. start + OBJREF_OFFSET) ` set starts" "ob \<notin> set obs \<or> \<not> has_exivar_flag m (from_objref ob)"
    using rekeyed_records(2) [OF a t refl that] by (simp add: r)
qed

section \<open>Properties\<close>

text \<open>
  C22. An evacuation renames objects and does nothing else. When mmtk-core copies any sequence of objects,
  each to a region of its own, no copy panics; every object arrives byte for byte, with its size and flags,
  however many copies came before and after it; memory outside the old and new regions is untouched;
  and when \<open>UpdateGenericIvTbl\<close> has drained the record of moves, in whatever order, the table of the VM has
  the ivars of every flagged object under its new reference and no longer under the old one, and
  is otherwise as it was.
\<close>

theorem evacuation_renames_heap:
  assumes c: "givtbl_contract up tbl" and ord: "hash_map_order ord" and sfx: "unat sfx < 2 ^ 63"
    and ok: "\<forall>ob \<in> fst ` set obs. object_ok cfg sfx (cs_mem s) sz ob \<and>
      (has_exivar_flag (cs_mem s) (from_objref ob) \<longrightarrow> tbl v ob \<noteq> None)"
    and a: "apart sz (map fst obs) (copy_starts cc sz obs (cs_ctx s))"
    and free: "mutex_free (moved_givtbl (cs_binding s))" "mutex_data (moved_givtbl (cs_binding s)) = Map.empty"
  shows "\<exists>news s' v'. evacuate cfg up sfx cc v obs s = Inr (news, s') \<and>
    news = map (\<lambda>start. start + OBJREF_OFFSET) (copy_starts cc sz obs (cs_ctx s)) \<and>
    v' = move_givtbls up (ord (mutex_data (moved_givtbl (cs_binding s')))) v \<and>
    (\<forall>(ob, new) \<in> set (zip (map fst obs) news).
       same_bytes (ref_to_object_start ob) (ref_to_object_start new) (sz ob) (cs_mem s) (cs_mem s') \<and>
       get_current_size cfg sfx (cs_mem s') new = Inr (sz ob) \<and>
       load_flags (cs_mem s') (from_objref new) = load_flags (cs_mem s) (from_objref ob) \<and>
       (has_exivar_flag (cs_mem s) (from_objref ob) \<longrightarrow> tbl v' new = tbl v ob \<and> tbl v' ob = None)) \<and>
    (\<forall>x. (\<forall>(ob, new) \<in> set (zip (map fst obs) news).
        x \<notin> object_region sz ob \<and> x \<notin> region (ref_to_object_start new) (sz ob)) \<longrightarrow> cs_mem s' x = cs_mem s x) \<and>
    (\<forall>ob. ob \<notin> set news \<longrightarrow> ob \<notin> fst ` set obs \<or> \<not> has_exivar_flag (cs_mem s) (from_objref ob) \<longrightarrow>
       tbl v' ob = tbl v ob)"
proof -
  let ?starts = "copy_starts cc sz obs (cs_ctx s)" and ?to = "\<lambda>start. start + OBJREF_OFFSET"
  let ?recs = "moved_records (cs_mem s) (tbl v) (map fst obs) ?starts"
  have get: "get_original_givtbl up v = tbl v"
    using get_original_givtbl_contract [OF c] by blast
  have "\<not> mutex_poisoned (moved_givtbl (cs_binding s))"
    using free(1) by (simp add: mutex_free_def)
  with evacuate_runs [OF sfx _ a, of cfg up v] ok obtain s' where
    s': "evacuate cfg up sfx cc v obs s = Inr (map ?to ?starts, s')"
    "evacuated cfg up v sz (map fst obs) ?starts s s'"
    unfolding get by blast
  have n: "\<forall>ob \<in> set (map fst obs). 0 < sz ob"
    using ok object_ok_facts(2) [OF _ sfx] by auto
  have t: "\<forall>ob \<in> set (map fst obs). has_exivar_flag (cs_mem s) (from_objref ob) \<longrightarrow> tbl v ob \<noteq> None"
    using ok by auto
  have moved: "mutex_data (moved_givtbl (cs_binding s')) = map_of (rev ?recs)"
    using s'(2) free(2) by (simp add: evacuated_def get)
  note heap = evacuated_objects [OF s'(2) sfx] evacuated_elsewhere [OF s'(2)]
  note ivars = evacuated_ivars [OF c ord a n t refl]
  show ?thesis
  proof (intro exI conjI)
    show "evacuate cfg up sfx cc v obs s = Inr (map ?to ?starts, s')"
      by (rule s'(1))
  qed (use ok heap ivars in \<open>auto simp: moved\<close>)
qed

text \<open>
  Two objects of 40 bytes, the one at 1000 with ivars; a copy context that allocates one region after
  the other from 4096.
\<close>

definition two_objects :: memory where
  "two_objects a = (if a = 992 \<or> a = 1992 then 40 else if a = 1001 then 4 else 0)"

definition bump_context :: "(address, unit) copy_context" where
  "bump_context = \<lparr>cc_alloc_copy = (\<lambda>_ n _ _ _ c. (c, c + n)), cc_post_copy = (\<lambda>_ _ _ c. c)\<rparr>"

definition two_objects_state :: "address copy_state" where
  "two_objects_state = \<lparr>cs_mem = two_objects, cs_ctx = 4096, cs_binding = example_binding\<rparr>"

lemma region_below: "x \<in> region a n \<longleftrightarrow> x - a < n"
  by (simp add: region_def in_region_def)

lemma regions_separate:
  assumes "unat a + unat n \<le> unat b" "unat b + unat k < 2 ^ 64"
  shows "region a n \<inter> region b k = {}" "region b k \<inter> region a n = {}"
proof -
  have "\<not> (i < n \<and> j < k \<and> a + i = b + j)" for i j
  proof
    assume h: "i < n \<and> j < k \<and> a + i = b + j"
    then have "unat i < unat n" "unat j < unat k"
      by (simp_all add: word_less_nat_alt)
    then have "unat (a + i) = unat a + unat i" "unat (b + j) = unat b + unat j"
      using assms by (simp_all add: usize_simps)
    with h \<open>unat i < unat n\<close> assms(1) show False
      by simp
  qed
  then have "region a n \<inter> region b k = {}"
    by (auto simp: region_iff)
  then show "region a n \<inter> region b k = {}" "region b k \<inter> region a n = {}"
    by blast+
qed

lemma two_objects_loads:
  "load_usize two_objects 992 = 40" "load_usize two_objects 1992 = 40"
  "load_usize two_objects 1000 = 1024" "load_usize two_objects 2000 = 0"
  by (simp_all add: load_usize_def load_bytes_def two_objects_def upt_rec)

lemma two_objects_flags:
  "has_exivar_flag two_objects (from_objref 1000)" "\<not> has_exivar_flag two_objects (from_objref 2000)"
  by (simp_all add: has_exivar_flag_def load_flags_def from_objref_def two_objects_loads RUBY_FL_EXIVAR_def)

lemma two_objects_ok:
  assumes "ob \<in> {1000, 2000}"
  shows "object_ok debug_build 8 two_objects (\<lambda>_. 56) ob"
proof -
  have "payload_size debug_build two_objects (from_objref ob) = Inr 40"
    using assms by (auto simp: payload_size_cases hidden_header_of_def OBJREF_OFFSET_def two_objects_loads
        is_sane_def HIDDEN_SIZE_MASK_def)
  then show ?thesis
    by (simp add: object_ok_def object_size_def usize_add_def prefix_size_def OBJREF_OFFSET_def)
qed

theorem evacuation_renames_heap_witness:
  "\<exists>s'. evacuate debug_build ivar_upcalls 8 bump_context [1000 \<mapsto> 512] [(1000, ()), (2000, ())] two_objects_state =
      Inr ([4104, 4160], s') \<and>
    ivar_table (move_givtbls ivar_upcalls (sorted_map_order (mutex_data (moved_givtbl (cs_binding s')))) [1000 \<mapsto> 512])
      4104 = Some 512"
proof -
  let ?obs = "[(1000, ()), (2000, ())] :: (objref \<times> unit) list" and ?sz = "\<lambda>_ :: objref. 56 :: usize"
  have s: "cs_mem two_objects_state = two_objects" "cs_ctx two_objects_state = 4096"
    "mutex_free (moved_givtbl (cs_binding two_objects_state))"
    "mutex_data (moved_givtbl (cs_binding two_objects_state)) = Map.empty"
    by (simp_all add: two_objects_state_def)
  have starts: "copy_starts bump_context ?sz ?obs 4096 = [4096, 4152]"
    by (simp add: bump_context_def)
  have ap: "apart ?sz (map fst ?obs) (copy_starts bump_context ?sz ?obs (cs_ctx two_objects_state))"
    unfolding s starts by (simp add: object_region_def ref_to_object_start_def OBJREF_OFFSET_def regions_separate)
  note flags = two_objects_flags and sizes = two_objects_ok
  have ok: "\<forall>ob \<in> fst ` set ?obs. object_ok debug_build 8 (cs_mem two_objects_state) ?sz ob \<and>
      (has_exivar_flag (cs_mem two_objects_state) (from_objref ob) \<longrightarrow> ivar_table [1000 \<mapsto> 512] ob \<noteq> None)"
    using sizes by (auto simp: s flags ivar_table_def)
  have "unat (8 :: usize) < 2 ^ 63"
    by simp
  from evacuation_renames_heap [where v = "[1000 \<mapsto> 512]", OF ivar_upcalls_contract sorted_map_order this ok ap s(3,4)]
  obtain news s' v' where r: "evacuate debug_build ivar_upcalls 8 bump_context [1000 \<mapsto> 512] ?obs two_objects_state = Inr (news, s')"
    "news = map (\<lambda>start. start + OBJREF_OFFSET) (copy_starts bump_context ?sz ?obs (cs_ctx two_objects_state))"
    "v' = move_givtbls ivar_upcalls (sorted_map_order (mutex_data (moved_givtbl (cs_binding s')))) [1000 \<mapsto> 512]"
    "\<forall>(ob, new) \<in> set (zip (map fst ?obs) news). has_exivar_flag (cs_mem two_objects_state) (from_objref ob) \<longrightarrow>
       ivar_table v' new = ivar_table [1000 \<mapsto> 512] ob"
    by (elim exE conjE) (rule that, assumption+, fast)
  have news: "news = [4104, 4160]"
    unfolding r(2) s starts by (simp add: OBJREF_OFFSET_def)
  have "ivar_table v' 4104 = ivar_table [1000 \<mapsto> 512] 1000"
    using r(4) flags(1) by (simp add: news s)
  then show ?thesis
    using r(1,3) by (simp add: news ivar_table_def)
qed

end
