(* ===== verification/Tracing.thy ===== *)
theory Tracing
  imports Vm_Frames Evacuation
begin

text \<open>
  Tracing as what it is for the binding: a sequence of callbacks. mmtk-core traces roots and hands
  objects to \<open>scan_object_and_trace_edges\<close>, which calls back for every edge, and either call may copy
  an object with \<open>copy\<close>. Which objects it traces, and which it copies, is left open. The theory shows
  that such a tracing meets the contract of GC cycles, and follows the generic instance variables of
  the objects that are copied.
\<close>

section \<open>mmtk-core while it traces\<close>

text \<open>
  The state of mmtk-core, split into what \<open>copy\<close> works on, and the rest. While tracing runs the
  binding is in the former: \<open>lend_binding\<close> and \<open>return_binding\<close> put it there and back.
\<close>

record ('c, 'm) traced =
  tc_copy :: "'c copy_state"
  tc_rest :: 'm

definition with_binding :: "ruby_binding \<Rightarrow> ('c, 'm) traced \<Rightarrow> ('c, 'm) traced" where
  "with_binding b m = m\<lparr>tc_copy := (tc_copy m)\<lparr>cs_binding := b\<rparr>\<rparr>"

definition lend_binding :: "(('c, 'm) traced, 'v) world \<Rightarrow> (('c, 'm) traced, 'v) world" where
  "lend_binding w = w\<lparr>w_core := with_binding (w_binding w) (w_core w)\<rparr>"

definition return_binding :: "(('c, 'm) traced, 'v) world \<Rightarrow> (('c, 'm) traced, 'v) world" where
  "return_binding w = w\<lparr>w_binding := cs_binding (tc_copy (w_core w))\<rparr>"

abbreviation traced_binding :: "('c, 'm) traced \<Rightarrow> ruby_binding" where
  "traced_binding m \<equiv> cs_binding (tc_copy m)"

abbreviation forwarded :: "'m mmtk_core \<Rightarrow> 'm \<Rightarrow> objref \<rightharpoonup> objref" where
  "forwarded core m \<equiv> \<lambda>ob. mc_get_forwarded_object core ob m"

text \<open>The calls mmtk-core makes while it traces.\<close>

inductive trace_call :: "('m, 'v) gc_env \<Rightarrow> ('m, 'v) world \<Rightarrow> ('m, 'v) world \<Rightarrow> bool" for env where
  trace_edges: "env_workers env tls = Some ctx \<Longrightarrow>
     scan_object_and_trace_edges (env_build env) (env_core env) (env_up env) (tls_view (env_workers env))
       tls ob w = Inr w' \<Longrightarrow> trace_call env w w'"
| trace_root: "trace_call env w (w\<lparr>w_core := snd (mc_trace_object (env_core env) ob (w_core w))\<rparr>)"

definition callback_trace ::
  "(('c, 'm) traced, 'v) gc_env \<Rightarrow> (('c, 'm) traced, 'v) world \<Rightarrow> (('c, 'm) traced, 'v) world \<Rightarrow> bool" where
  "callback_trace env w w' \<longleftrightarrow> (\<exists>u. (trace_call env)\<^sup>*\<^sup>* (lend_binding w) u \<and> w' = return_binding u)"

text \<open>
  \<open>trace_object\<close> is documented to return the new reference of an object: one it has copied before,
  one it copies now, by a call of \<open>ObjectModel::copy\<close>, and notes as forwarded, or the old one where
  the object stays. \<open>V\<close> are the VM states in which \<open>copy\<close> is called, and \<open>fresh\<close> says what is known
  of the reference, the new reference and the size of a copied object.
\<close>

definition traces_by_copying ::
  "(('c, 'm) traced, 'v) gc_env \<Rightarrow> usize \<Rightarrow> ('c, 'sem) copy_context \<Rightarrow> ('v \<Rightarrow> bool) \<Rightarrow>
   (objref \<Rightarrow> objref \<Rightarrow> usize \<Rightarrow> ('c, 'm) traced \<Rightarrow> bool) \<Rightarrow> bool" where
  "traces_by_copying env sfx cc V fresh \<longleftrightarrow>
     (\<forall>m ob new m'. mc_trace_object (env_core env) ob m = (new, m') \<longrightarrow>
        tc_copy m' = tc_copy m \<and> forwarded (env_core env) m' = forwarded (env_core env) m \<or>
        (\<exists>sem v n. V v \<and>
           object_copy (env_build env) (env_up env) sfx cc v ob sem (tc_copy m) = Inr (new, tc_copy m') \<and>
           object_size (env_build env) sfx (cs_mem (tc_copy m)) (from_objref ob) = Inr n \<and>
           fresh ob new n m \<and> forwarded (env_core env) m' = (forwarded (env_core env) m)(ob \<mapsto> new)))"

text \<open>
  A copy is made of an object that was not copied before and is no copy itself, to a place where there
  is no object with ivars and no copy, and neither the old nor the new region overlaps the flags of
  another object with ivars. \<open>t\<close> is the table of ivars of the VM.
\<close>

definition fresh_copy ::
  "('c, 'm) traced mmtk_core \<Rightarrow> (objref \<rightharpoonup> address) \<Rightarrow> objref \<Rightarrow> objref \<Rightarrow> usize \<Rightarrow> ('c, 'm) traced \<Rightarrow> bool" where
  "fresh_copy core t ob new n m \<longleftrightarrow>
     forwarded core m ob = None \<and> forwarded core m new = None \<and> new \<noteq> ob \<and> t new = None \<and>
     (\<forall>x y. forwarded core m x = Some y \<longrightarrow> y \<noteq> ob \<and> y \<noteq> new) \<and>
     (\<forall>x. t x \<noteq> None \<longrightarrow> x \<noteq> ob \<longrightarrow> forwarded core m x = None \<longrightarrow>
        region x 8 \<inter> (region (ref_to_object_start new) n \<union> region (ref_to_object_start ob) n) = {})"

text \<open>
  What tracing and pinning leave alone: the pins, the kind of the GC; and that mmtk-core does not look
  into the binding.
\<close>

definition tracer_steady :: "('c, 'm) traced mmtk_core \<Rightarrow> (('c, 'm) traced \<Rightarrow> objref set) \<Rightarrow> bool" where
  "tracer_steady core pinned \<longleftrightarrow>
     (\<forall>ob m. pinned (snd (mc_trace_object core ob m)) = pinned m) \<and>
     (\<forall>b m. pinned (with_binding b m) = pinned m \<and> forwarded core (with_binding b m) = forwarded core m) \<and>
     (\<forall>ob m. tc_copy (snd (mc_pin_object core ob m)) = tc_copy m)"

lemma traces_by_copyingD:
  assumes "traces_by_copying env sfx cc V fresh" "mc_trace_object (env_core env) ob m = (new, m')"
  obtains (stays) "tc_copy m' = tc_copy m" "forwarded (env_core env) m' = forwarded (env_core env) m"
    | (copies) sem v n where "V v"
        "object_copy (env_build env) (env_up env) sfx cc v ob sem (tc_copy m) = Inr (new, tc_copy m')"
        "object_size (env_build env) sfx (cs_mem (tc_copy m)) (from_objref ob) = Inr n"
        "fresh ob new n m" "forwarded (env_core env) m' = (forwarded (env_core env) m)(ob \<mapsto> new)"
proof -
  have "tc_copy m' = tc_copy m \<and> forwarded (env_core env) m' = forwarded (env_core env) m \<or>
    (\<exists>sem v n. V v \<and>
       object_copy (env_build env) (env_up env) sfx cc v ob sem (tc_copy m) = Inr (new, tc_copy m') \<and>
       object_size (env_build env) sfx (cs_mem (tc_copy m)) (from_objref ob) = Inr n \<and>
       fresh ob new n m \<and> forwarded (env_core env) m' = (forwarded (env_core env) m)(ob \<mapsto> new))"
    using assms unfolding traces_by_copying_def by blast
  then show thesis
    by (elim disjE exE conjE) (rule stays, assumption+, rule copies, assumption+)
qed

lemma traces_by_copying_mono:
  assumes "traces_by_copying env sfx cc V fresh" "\<And>v. V v \<Longrightarrow> V' v"
    "\<And>ob new n m. fresh ob new n m \<Longrightarrow> fresh' ob new n m"
  shows "traces_by_copying env sfx cc V' fresh'"
  using assms unfolding traces_by_copying_def by meson

section \<open>Invariants of tracing\<close>

lemma scan_edges_run:
  assumes "scan_object_and_trace_edges cfg core up (tls_view workers) tls ob w = Inr w'"
  obtains v m where "run_visitor (edge_visitor cfg core) (up_scan_object_ruby_style up ob (w_vm w)) (w_core w) =
      Inr (v, m)" "w' = w\<lparr>w_vm := v, w_core := m\<rparr>"
proof -
  obtain gc_tls v m where g: "from_vwt_check cfg (tls_view workers) tls = Inr gc_tls"
    and r: "run_with_closure cfg (object_closure gc_tls) (edge_visitor cfg core)
      (up_scan_object_ruby_style up ob (w_vm w)) (w_core w) = Inr (v, m)" "w' = w\<lparr>w_vm := v, w_core := m\<rparr>"
    using assms by (auto simp: scan_object_and_trace_edges_def bind_res_eq_Inr)
  show thesis
    using r(1) unfolding from_vwt_check_tls_view [OF g] run_with_closure_default
    by (rule that) (rule r(2))
qed

text \<open>What every call of \<open>trace_object\<close> keeps is kept by the callbacks, however they nest and follow.\<close>

locale tracer_invariant =
  fixes env :: "('m, 'v) gc_env" and I :: "'m \<Rightarrow> bool"
  assumes trace_keeps: "mc_trace_object (env_core env) ob m = (new, m') \<Longrightarrow> I m \<Longrightarrow> I m'"
begin

lemma visits_keep:
  "run_visitor (edge_visitor (env_build env) (env_core env)) c m = Inr (r, m') \<Longrightarrow> I m \<Longrightarrow> I m'"
proof (induction c arbitrary: m)
  case (VM_visit ob pin k)
  obtain new m1 where v: "edge_visitor (env_build env) (env_core env) ob pin m = Inr (new, m1)"
    and r: "run_visitor (edge_visitor (env_build env) (env_core env)) (k new) m1 = Inr (r, m')"
    using VM_visit.prems(1) by (auto simp: bind_res_eq_Inr)
  have "mc_trace_object (env_core env) ob m = (new, m1)"
    using v by (auto simp: edge_visitor_def bind_res_eq_Inr)
  from VM_visit.IH [OF rangeI r] trace_keeps [OF this VM_visit.prems(2)] show ?case
    by blast
qed simp

lemma call_keeps:
  assumes "trace_call env w w'" "I (w_core w)"
  shows "I (w_core w')"
  using assms(1)
proof cases
  case (trace_edges tls ctx ob)
  from trace_edges(2) show ?thesis
    by (rule scan_edges_run) (simp add: visits_keep [OF _ assms(2)])
next
  case (trace_root ob)
  obtain new m' where "mc_trace_object (env_core env) ob (w_core w) = (new, m')"
    by fastforce
  with trace_keeps [OF this assms(2)] trace_root show ?thesis
    by simp
qed

lemma calls_keep: "(trace_call env)\<^sup>*\<^sup>* w w' \<Longrightarrow> I (w_core w) \<Longrightarrow> I (w_core w')"
  by (induction rule: rtranclp_induct) (auto intro: call_keeps)

end

text \<open>The rest of the world.\<close>

lemma trace_call_world:
  assumes "trace_call env w w'" "scans_keep K (env_up env)" "reflp K"
  shows "(\<exists>v m. w' = w\<lparr>w_vm := v, w_core := m\<rparr>) \<and> K (w_vm w) (w_vm w')"
  using assms(1)
proof cases
  case (trace_edges tls ctx ob)
  then obtain v m where
    "run_visitor (edge_visitor (env_build env) (env_core env))
       (up_scan_object_ruby_style (env_up env) ob (w_vm w)) (w_core w) = Inr (v, m)"
    "w' = w\<lparr>w_vm := v, w_core := m\<rparr>"
    by (auto elim: scan_edges_run)
  then show ?thesis
    using run_visitor_result scans_keepD(4) [OF assms(2)] by fastforce
next
  case (trace_root ob)
  then have "w' = w\<lparr>w_vm := w_vm w, w_core := w_core w'\<rparr>"
    by simp
  with trace_root show ?thesis
    using reflpD [OF assms(3)] by fastforce
qed

lemma trace_calls_world:
  assumes "(trace_call env)\<^sup>*\<^sup>* w w'" "scans_keep K (env_up env)" "reflp K" "transp K"
  shows "(\<exists>v m. w' = w\<lparr>w_vm := v, w_core := m\<rparr>) \<and> K (w_vm w) (w_vm w')"
  using assms(1)
proof (induction rule: rtranclp_induct)
  case base
  have "w = w\<lparr>w_vm := w_vm w, w_core := w_core w\<rparr>"
    by simp
  then show ?case
    using reflpD [OF assms(3)] by blast
next
  case (step u u')
  obtain v m where u: "u = w\<lparr>w_vm := v, w_core := m\<rparr>" "K (w_vm w) (w_vm u)"
    using step(3) by blast
  obtain v' m' where u': "u' = u\<lparr>w_vm := v', w_core := m'\<rparr>" "K (w_vm u) (w_vm u')"
    using trace_call_world [OF step(2) assms(2,3)] by blast
  then have "u' = w\<lparr>w_vm := v', w_core := m'\<rparr>"
    using u(1) by simp
  then show ?case
    using transpD [OF assms(4) u(2) u'(2)] by blast
qed

section \<open>Copies that return\<close>

lemma object_copy_result:
  assumes "object_copy cfg up sfx cc v ob sem s = Inr (new, s')"
    and "object_size cfg sfx (cs_mem s) (from_objref ob) = Inr n"
  shows "cs_binding s' = binding_after_copy up v ob new (cs_mem s) (cs_binding s)"
    "has_exivar_flag (cs_mem s) (from_objref ob) \<Longrightarrow> get_original_givtbl up v ob \<noteq> None"
    "x \<notin> region (ref_to_object_start new) n \<Longrightarrow> x \<notin> region (ref_to_object_start ob) n \<Longrightarrow>
       cs_mem s' x = cs_mem s x"
proof -
  obtain start ctx1 where alloc: "cc_alloc_copy cc ob n MIN_OBJ_ALIGN 0 sem (cs_ctx s) = (start, ctx1)"
    by fastforce
  obtain m1 where m1: "copy_nonoverlapping (ob - OBJREF_OFFSET) start n (cs_mem s) = Inr m1"
    and new: "new = start + OBJREF_OFFSET"
    and mem: "cs_mem s' = (if clear_old_copy cfg then write_bytes (ob - OBJREF_OFFSET) 0 n m1 else m1)"
    using assms alloc by (auto simp: object_copy_def Let_def bind_res_eq_Inr)
  show "has_exivar_flag (cs_mem s) (from_objref ob) \<Longrightarrow> get_original_givtbl up v ob \<noteq> None"
    using assms(1) by (cases "get_original_givtbl up v ob") (auto simp: object_copy_def Let_def)
  show "cs_binding s' = binding_after_copy up v ob new (cs_mem s) (cs_binding s)"
    using assms alloc
    by (auto simp: object_copy_def Let_def bind_res_eq_Inr binding_after_copy_def record_moved_givtbl_def
        lock_unwrap_def split: if_splits option.splits)
  assume "x \<notin> region (ref_to_object_start new) n" "x \<notin> region (ref_to_object_start ob) n"
  then have "\<not> in_region start n x" "\<not> in_region (ob - OBJREF_OFFSET) n x"
    by (simp_all add: region_def ref_to_object_start_def new)
  then show "cs_mem s' x = cs_mem s x"
    using copy_nonoverlapping_copied [OF m1] by (simp add: mem copied_def write_bytes_def)
qed

lemma has_exivar_flag_cong:
  assumes "\<And>x. x \<in> region ob 8 \<Longrightarrow> m' x = m x"
  shows "has_exivar_flag m' (from_objref ob) = has_exivar_flag m (from_objref ob)"
proof -
  have "load_usize m' ob = load_usize m ob"
    by (rule load_usize_region_cong [where n = 8]) (simp_all add: assms)
  then show ?thesis
    by (simp add: has_exivar_flag_def load_flags_def from_objref_def)
qed

section \<open>Tracing and the registries\<close>

text \<open>The binding but for the record of moved ivar tables.\<close>

definition only_moves :: "ruby_binding \<Rightarrow> ruby_binding \<Rightarrow> bool" where
  "only_moves b b' \<longleftrightarrow> (\<exists>moved. b' = b\<lparr>moved_givtbl := (moved_givtbl b)\<lparr>mutex_data := moved\<rparr>\<rparr>)"

lemma only_moves_refl [simp]: "only_moves b b"
  unfolding only_moves_def by (rule exI [of _ "mutex_data (moved_givtbl b)"]) simp

lemma only_moves_trans: "only_moves a b \<Longrightarrow> only_moves b c \<Longrightarrow> only_moves a c"
  by (auto simp: only_moves_def)

lemma only_moves_after_copy: "only_moves b (binding_after_copy up v ob new m b)"
proof (cases "has_exivar_flag m (from_objref ob)")
  case False
  then have "binding_after_copy up v ob new m b = b"
    by (simp add: binding_after_copy_def)
  then show ?thesis by (simp only: only_moves_refl)
qed (auto simp: binding_after_copy_def only_moves_def)

lemma only_moves_simps:
  assumes "only_moves b b'"
  shows "weak_proc b' = weak_proc b" "ppp_reg b' = ppp_reg b"
    "wb_unprotected_objects b' = wb_unprotected_objects b" "plan_name b' = plan_name b"
    "mutex_free (moved_givtbl b') = mutex_free (moved_givtbl b)"
    "st_entries_chunk_size b' = st_entries_chunk_size b" "st_bins_chunk_size b' = st_bins_chunk_size b"
  using assms by (auto simp: only_moves_def)

text \<open>The copying part of a call of \<open>trace_object\<close>, for invariants about it.\<close>

lemma trace_object_copying:
  assumes "traces_by_copying env sfx cc V fresh" "mc_trace_object (env_core env) ob m = (new, m')"
  shows "tc_copy m' = tc_copy m \<or>
    (\<exists>v. V v \<and> traced_binding m' =
       binding_after_copy (env_up env) v ob new (cs_mem (tc_copy m)) (traced_binding m))"
  using assms by (rule traces_by_copyingD) (auto dest: object_copy_result(1))

interpretation binding_tracer: tracer_invariant env
    "\<lambda>m. traces_by_copying env sfx cc V fresh \<and> only_moves b (traced_binding m)"
  for env sfx cc V fresh b
proof
  fix ob and m :: "('a, 'b) traced" and new m'
  assume t: "mc_trace_object (env_core env) ob m = (new, m')"
    and i: "traces_by_copying env sfx cc V fresh \<and> only_moves b (traced_binding m)"
  have "only_moves (traced_binding m) (traced_binding m')"
    using trace_object_copying [OF conjunct1 [OF i] t] by (auto simp: only_moves_after_copy)
  with i show "traces_by_copying env sfx cc V fresh \<and> only_moves b (traced_binding m')"
    by (blast intro: only_moves_trans)
qed

interpretation pins_tracer: tracer_invariant env
    "\<lambda>m. tracer_steady (env_core env) pinned \<and> pinned m = P" for env pinned P
  by unfold_locales (metis snd_conv tracer_steady_def)

lemma with_binding_simps [simp]:
  "traced_binding (with_binding b m) = b" "cs_mem (tc_copy (with_binding b m)) = cs_mem (tc_copy m)"
  "cs_ctx (tc_copy (with_binding b m)) = cs_ctx (tc_copy m)" "tc_rest (with_binding b m) = tc_rest m"
  by (simp_all add: with_binding_def)

lemma lend_binding_simps [simp]:
  "w_core (lend_binding w) = with_binding (w_binding w) (w_core w)" "w_vm (lend_binding w) = w_vm w"
  by (simp_all add: lend_binding_def)

lemma return_binding_simps [simp]:
  "w_core (return_binding w) = w_core w" "w_vm (return_binding w) = w_vm w"
  "w_binding (return_binding w) = traced_binding (w_core w)"
  by (simp_all add: return_binding_def)

lemma vm_wp_top [simp]: "vm_wp (\<lambda>_. True) (\<lambda>_. True) c"
  by (induction c) simp_all

lemma scans_keep_top: "scans_keep (\<lambda>_ _. True) up"
  by (simp add: scans_keep_def)

lemma callback_trace_frame:
  assumes "traces_by_copying env sfx cc V fresh" "callback_trace env w w'"
  shows "only_moves (w_binding w) (w_binding w')" "w_buckets w' = w_buckets w" "w_latches w' = w_latches w"
    "w_probes w' = w_probes w" "w_root_work w' = w_root_work w"
proof -
  obtain u where u: "(trace_call env)\<^sup>*\<^sup>* (lend_binding w) u" "w' = return_binding u"
    using assms(2) by (auto simp: callback_trace_def)
  obtain v m where "u = (lend_binding w)\<lparr>w_vm := v, w_core := m\<rparr>"
    using trace_calls_world [OF u(1) scans_keep_top] by (auto intro: reflpI transpI)
  then show "w_buckets w' = w_buckets w" "w_latches w' = w_latches w" "w_probes w' = w_probes w"
    "w_root_work w' = w_root_work w"
    by (simp_all add: u(2) lend_binding_def return_binding_def)
  show "only_moves (w_binding w) (w_binding w')"
    using binding_tracer.calls_keep [OF u(1), of sfx cc V fresh "w_binding w"] assms(1) by (simp add: u(2))
qed

lemma callback_trace_contract:
  assumes "traces_by_copying env sfx cc V fresh" "tracer_steady (env_core env) pinned"
  shows "trace_keeps_pins (env_core env) pinned (callback_trace env)"
    "trace_keeps_registries (callback_trace env)"
proof -
  have pins: "pinned (w_core w') = pinned (w_core w)" if t: "callback_trace env w w'" for w w'
  proof -
    obtain u where u: "(trace_call env)\<^sup>*\<^sup>* (lend_binding w) u" "w' = return_binding u"
      using t by (auto simp: callback_trace_def)
    have "pinned (w_core (lend_binding w)) = pinned (w_core w)"
      using assms(2) by (simp add: tracer_steady_def)
    with pins_tracer.calls_keep [OF u(1), of pinned "pinned (w_core w)"] assms(2) show ?thesis
      by (simp add: u(2))
  qed
  show "trace_keeps_pins (env_core env) pinned (callback_trace env)"
    unfolding trace_keeps_pins_def
    using pins callback_trace_frame(2,3) [OF assms(1)] only_moves_simps(2) [OF callback_trace_frame(1) [OF assms(1)]]
    by simp
  show "trace_keeps_registries (callback_trace env)"
    unfolding trace_keeps_registries_def same_registries_def cand_view_def ppp_view_def wb_view_def
    using callback_trace_frame(4) [OF assms(1)] only_moves_simps [OF callback_trace_frame(1) [OF assms(1)]]
    by simp
qed

end
