(* ===== verification/Ivar_Cycle.thy ===== *)
theory Ivar_Cycle
  imports Tracing
begin

text \<open>
  The generic instance variables of objects through a whole GC. They live in a table of the VM keyed by
  the objects, which move during tracing, while the table is re-keyed in weak processing only; in
  between, \<open>get_givtbl\<close> finds them through the record of moves. The theory shows that it always does,
  and that after the GC the table has every entry under the new reference of its object.
\<close>

section \<open>While tracing runs\<close>

definition moved_ivars :: "('c, 'm) traced \<Rightarrow> objref \<rightharpoonup> moved_givtbl_entry" where
  "moved_ivars m = mutex_data (moved_givtbl (traced_binding m))"

text \<open>
  \<open>t\<close> is the table of the VM when tracing begins. The record of moves has exactly the copied objects
  that have ivars; the others that have ivars are still flagged.
\<close>

definition ivars_tracked :: "('c, 'm) traced mmtk_core \<Rightarrow> (objref \<rightharpoonup> address) \<Rightarrow> ('c, 'm) traced \<Rightarrow> bool" where
  "ivars_tracked core t m \<longleftrightarrow>
     finite (dom (moved_ivars m)) \<and>
     (\<forall>new e. moved_ivars m new = Some e \<longleftrightarrow>
        forwarded core m (old_objref e) = Some new \<and> t (old_objref e) = Some (gen_ivtbl e)) \<and>
     (\<forall>x y z. forwarded core m x = Some z \<longrightarrow> forwarded core m y = Some z \<longrightarrow> x = y) \<and>
     (\<forall>x y. forwarded core m x = Some y \<longrightarrow> forwarded core m y = None \<and> t y = None) \<and>
     (\<forall>x. t x \<noteq> None \<longrightarrow> forwarded core m x = None \<longrightarrow>
        has_exivar_flag (cs_mem (tc_copy m)) (from_objref x))"

lemma ivars_trackedD:
  assumes "ivars_tracked core t m"
  shows "finite (dom (moved_ivars m))"
    "moved_ivars m new = Some e \<longleftrightarrow>
       forwarded core m (old_objref e) = Some new \<and> t (old_objref e) = Some (gen_ivtbl e)"
    "forwarded core m x = Some z \<Longrightarrow> forwarded core m y = Some z \<Longrightarrow> x = y"
    "forwarded core m x = Some y \<Longrightarrow> forwarded core m y = None"
    "forwarded core m x = Some y \<Longrightarrow> t y = None"
    "t x \<noteq> None \<Longrightarrow> forwarded core m x = None \<Longrightarrow> has_exivar_flag (cs_mem (tc_copy m)) (from_objref x)"
  using assms unfolding ivars_tracked_def by blast+

lemma copy_keeps_flags:
  assumes f: "fresh_copy core t ob new n m" and x: "t x \<noteq> None" "x \<noteq> ob" "forwarded core m x = None"
    and c: "object_copy cfg up sfx cc v ob sem (tc_copy m) = Inr (new, tc_copy m')"
      "object_size cfg sfx (cs_mem (tc_copy m)) (from_objref ob) = Inr n"
  shows "has_exivar_flag (cs_mem (tc_copy m')) (from_objref x) = has_exivar_flag (cs_mem (tc_copy m)) (from_objref x)"
proof (rule has_exivar_flag_cong)
  fix a assume "a \<in> region x 8"
  then have "a \<notin> region (ref_to_object_start new) n" "a \<notin> region (ref_to_object_start ob) n"
    using f x unfolding fresh_copy_def by blast+
  then show "cs_mem (tc_copy m') a = cs_mem (tc_copy m) a"
    by (rule object_copy_result(3) [OF c])
qed

lemma copy_keeps_tracked:
  assumes i: "ivars_tracked core t m" and g: "get_original_givtbl up v = t"
    and c: "object_copy cfg up sfx cc v ob sem (tc_copy m) = Inr (new, tc_copy m')"
      "object_size cfg sfx (cs_mem (tc_copy m)) (from_objref ob) = Inr n"
    and f: "fresh_copy core t ob new n m" "forwarded core m' = (forwarded core m)(ob \<mapsto> new)"
  shows "ivars_tracked core t m'"
proof -
  let ?flag = "has_exivar_flag (cs_mem (tc_copy m)) (from_objref ob)"
  note d = ivars_trackedD [OF i]
  have f2: "forwarded core m' x = (if x = ob then Some new else forwarded core m x)" for x
    using fun_cong [OF f(2), of x] by simp
  have fresh: "forwarded core m ob = None" "forwarded core m new = None" "new \<noteq> ob" "t new = None"
    "forwarded core m x = Some y \<Longrightarrow> y \<noteq> ob \<and> y \<noteq> new" for x y
    using f(1) unfolding fresh_copy_def by blast+
  have flag: "?flag \<longleftrightarrow> t ob \<noteq> None"
    using object_copy_result(2) [OF c] d(6) [OF _ fresh(1)] by (auto simp: g)
  have moved: "moved_ivars m' = (if ?flag then (moved_ivars m)(new \<mapsto> \<lparr>old_objref = ob, gen_ivtbl = the (t ob)\<rparr>)
      else moved_ivars m)"
    using object_copy_result(1) [OF c] by (simp add: moved_ivars_def binding_after_copy_def g)
  have entry: "moved_ivars m' x = Some e \<longleftrightarrow>
      forwarded core m' (old_objref e) = Some x \<and> t (old_objref e) = Some (gen_ivtbl e)" for x e
  proof (cases "old_objref e = ob")
    case True
    have "moved_ivars m x \<noteq> Some e"
      using d(2) [of x e] fresh(1) True by simp
    then show ?thesis
      using True flag by (cases e) (auto simp: moved f2)
  next
    case False
    have "moved_ivars m new = None"
      using d(2) [of new] fresh(5) by (cases "moved_ivars m new") auto
    then show ?thesis
      using False d(2) [of x e] fresh(5) [of "old_objref e" x] by (auto simp: moved f2)
  qed
  have flags: "has_exivar_flag (cs_mem (tc_copy m')) (from_objref x)"
    if "t x \<noteq> None" "forwarded core m' x = None" for x
  proof -
    have x: "x \<noteq> ob" "forwarded core m x = None"
      using that(2) by (auto simp: f2 split: if_splits)
    then show ?thesis
      using copy_keeps_flags [OF f(1) that(1) x c] d(6) [OF that(1)] by simp
  qed
  have "finite (dom (moved_ivars m'))"
    using d(1) by (simp add: moved)
  moreover have "\<forall>x y z. forwarded core m' x = Some z \<longrightarrow> forwarded core m' y = Some z \<longrightarrow> x = y"
    using d(3) fresh(5) [of _ new] by (auto simp: f2 split: if_splits)
  moreover have "\<forall>x y. forwarded core m' x = Some y \<longrightarrow> forwarded core m' y = None \<and> t y = None"
    using d(4,5) fresh by (auto simp: f2 split: if_splits)
  ultimately show ?thesis
    using entry flags unfolding ivars_tracked_def by blast
qed

interpretation ivar_tracer: tracer_invariant env
    "\<lambda>m. givtbl_contract (env_up env) tbl \<and>
       traces_by_copying env sfx cc (\<lambda>v. tbl v = t) (fresh_copy (env_core env) t) \<and> ivars_tracked (env_core env) t m"
  for env tbl sfx cc t
proof
  fix ob and m :: "('a, 'b) traced" and new m'
  assume t: "mc_trace_object (env_core env) ob m = (new, m')"
    and i: "givtbl_contract (env_up env) tbl \<and>
       traces_by_copying env sfx cc (\<lambda>v. tbl v = t) (fresh_copy (env_core env) t) \<and> ivars_tracked (env_core env) t m"
  from i t have "ivars_tracked (env_core env) t m'"
  proof (elim conjE, elim traces_by_copyingD)
    assume "ivars_tracked (env_core env) t m" "tc_copy m' = tc_copy m"
      "forwarded (env_core env) m' = forwarded (env_core env) m"
    then show ?thesis
      by (simp add: ivars_tracked_def moved_ivars_def fun_eq_iff)
  next
    fix sem v n
    assume g: "givtbl_contract (env_up env) tbl" "tbl v = t" and i: "ivars_tracked (env_core env) t m"
      and c: "object_copy (env_build env) (env_up env) sfx cc v ob sem (tc_copy m) = Inr (new, tc_copy m')"
        "object_size (env_build env) sfx (cs_mem (tc_copy m)) (from_objref ob) = Inr n"
        "fresh_copy (env_core env) t ob new n m"
        "forwarded (env_core env) m' = (forwarded (env_core env) m)(ob \<mapsto> new)"
    have "get_original_givtbl (env_up env) v = t"
      using get_original_givtbl_contract [OF g(1)] g(2) by (simp add: fun_eq_iff)
    from copy_keeps_tracked [OF i this c] show ?thesis .
  qed
  with i show "givtbl_contract (env_up env) tbl \<and>
       traces_by_copying env sfx cc (\<lambda>v. tbl v = t) (fresh_copy (env_core env) t) \<and> ivars_tracked (env_core env) t m'"
    by blast
qed

text \<open>What the invariant gives: the drain will find its record in order, and lookups find the ivars.\<close>

lemma tracked_moves_ok:
  assumes "ivars_tracked core t m"
  shows "moves_ok t (moved_ivars m)"
proof -
  note d = ivars_trackedD [OF assms]
  have "moved_ivars m (old_objref e) = None" if "moved_ivars m new = Some e" for new e
  proof (rule ccontr)
    assume "moved_ivars m (old_objref e) \<noteq> None"
    then obtain x where "forwarded core m x = Some (old_objref e)"
      using d(2) by blast
    then show False
      using d(4) d(2) [of new e] that by fastforce
  qed
  moreover have "new = new'"
    if "moved_ivars m new = Some e" "moved_ivars m new' = Some e'" "old_objref e = old_objref e'" for new new' e e'
    using that d(2) [of new e] d(2) [of new' e'] by simp
  ultimately show ?thesis
    using d(1,2) unfolding moves_ok_def by blast
qed

lemma forward_cases: "forward core m ob = (case forwarded core m ob of None \<Rightarrow> ob | Some new \<Rightarrow> new)"
  by (simp add: forward_def)

lemma tracked_moved:
  assumes "ivars_tracked core t m" "t ob = Some iv"
  shows "forwarded core m ob = Some new \<Longrightarrow>
      moved_ivars m new = Some \<lparr>old_objref = ob, gen_ivtbl = iv\<rparr> \<and> t new = None"
    and "rekeyed t (moved_ivars m) (forward core m ob) = Some iv"
proof -
  note d = ivars_trackedD [OF assms(1)]
  have m: "moved_ivars m new = Some \<lparr>old_objref = ob, gen_ivtbl = iv\<rparr>" if "forwarded core m ob = Some new" for new
    using d(2) that assms(2) by simp
  then show "moved_ivars m new = Some \<lparr>old_objref = ob, gen_ivtbl = iv\<rparr> \<and> t new = None"
    if "forwarded core m ob = Some new"
    using d(5) that by blast
  show "rekeyed t (moved_ivars m) (forward core m ob) = Some iv"
  proof (cases "forwarded core m ob")
    case None
    have "moved_ivars m ob = None"
      using d(2,5) assms(2) by (metis not_Some_eq)
    moreover have "\<nexists>new e. moved_ivars m new = Some e \<and> old_objref e = ob"
      using d(2) None by auto
    ultimately show ?thesis
      using None assms(2) by (simp add: forward_cases rekeyed_def)
  next
    case (Some new)
    with m show ?thesis
      by (simp add: forward_cases rekeyed_def)
  qed
qed

lemma tracked_get_givtbl:
  assumes "ivars_tracked core t m" "t ob = Some iv" and c: "givtbl_contract up tbl"
    and v: "tbl v (forward core m ob) = t (forward core m ob)"
    and b: "mutex_free (moved_givtbl b)" "mutex_data (moved_givtbl b) = moved_ivars m"
  shows "get_givtbl up b v (forward core m ob) = Inr iv"
proof (cases "forwarded core m ob")
  case None
  then show ?thesis
    using assms(2) v by (simp add: forward_cases get_givtbl_def get_original_givtbl_contract [OF c])
next
  case (Some new)
  then show ?thesis
    using tracked_moved(1) [OF assms(1,2) Some] v b
    by (simp add: forward_cases get_givtbl_def get_original_givtbl_contract [OF c])
qed

section \<open>In the closing bucket\<close>

text \<open>The entries of the \<open>live\<close> objects; the VM may drop those of others.\<close>

definition same_ivars :: "('v \<Rightarrow> objref \<rightharpoonup> address) \<Rightarrow> (objref \<Rightarrow> bool) \<Rightarrow> 'v \<Rightarrow> 'v \<Rightarrow> bool" where
  "same_ivars tbl live v v' \<longleftrightarrow> (\<forall>ob. live ob \<longrightarrow> tbl v' ob = tbl v ob)"

lemma same_ivars_order: "reflp (same_ivars tbl live)" "transp (same_ivars tbl live)"
  by (auto simp: same_ivars_def intro: reflpI transpI)

definition ivar_contract ::
  "('m, 'v) gc_env \<Rightarrow> ('v \<Rightarrow> objref \<rightharpoonup> address) \<Rightarrow> (objref \<Rightarrow> bool) \<Rightarrow> bool" where
  "ivar_contract env tbl live \<longleftrightarrow> givtbl_contract (env_up env) tbl \<and> hash_map_order (env_map_order env) \<and>
     scans_keep (\<lambda>v v'. tbl v' = tbl v) (env_up env) \<and> updates_keep (same_ivars tbl live) (env_up env)"

lemma ivar_contractD:
  assumes "ivar_contract env tbl live"
  shows "givtbl_contract (env_up env) tbl" "hash_map_order (env_map_order env)"
    "scans_keep (\<lambda>v v'. tbl v' = tbl v) (env_up env)" "updates_keep (same_ivars tbl live) (env_up env)"
    "scans_keep (same_ivars tbl live) (env_up env)"
proof -
  show c: "givtbl_contract (env_up env) tbl" "hash_map_order (env_map_order env)"
    "scans_keep (\<lambda>v v'. tbl v' = tbl v) (env_up env)" "updates_keep (same_ivars tbl live) (env_up env)"
    using assms by (simp_all add: ivar_contract_def)
  from c(3) show "scans_keep (same_ivars tbl live) (env_up env)"
    by (rule scans_keep_mono) (simp add: same_ivars_def)
qed

text \<open>A record that can be drained, of objects the VM has not dropped.\<close>

definition drain_ready ::
  "('m, 'v) gc_env \<Rightarrow> ('v \<Rightarrow> objref \<rightharpoonup> address) \<Rightarrow> (objref \<Rightarrow> bool) \<Rightarrow> (objref \<rightharpoonup> address) \<Rightarrow>
   (objref \<rightharpoonup> moved_givtbl_entry) \<Rightarrow> bool" where
  "drain_ready env tbl live t M \<longleftrightarrow> ivar_contract env tbl live \<and> moves_ok t M \<and>
     (\<forall>new e. M new = Some e \<longrightarrow> live (old_objref e))"

definition ivars_recorded ::
  "('v \<Rightarrow> objref \<rightharpoonup> address) \<Rightarrow> (objref \<Rightarrow> bool) \<Rightarrow> (objref \<rightharpoonup> address) \<Rightarrow>
   (objref \<rightharpoonup> moved_givtbl_entry) \<Rightarrow> ('m, 'v) world \<Rightarrow> bool" where
  "ivars_recorded tbl live t M w \<longleftrightarrow> mutex_free (moved_givtbl (w_binding w)) \<and>
     mutex_data (moved_givtbl (w_binding w)) = M \<and> (\<forall>ob. live ob \<longrightarrow> tbl (w_vm w) ob = t ob)"

lemma ivars_recorded_buckets [simp]:
  "ivars_recorded tbl live t M (w\<lparr>w_buckets := b\<rparr>) = ivars_recorded tbl live t M w"
  by (simp add: ivars_recorded_def)

text \<open>The effect of the drain on the entries of live objects.\<close>

lemma drain_effect:
  assumes d: "do_work env tls UpdateGenericIvTbl w = Inr w'" and r: "drain_ready env tbl live t M"
    and i: "ivars_recorded tbl live t M w"
  shows "ivars_recorded tbl live (rekeyed t M) Map.empty w'"
proof -
  have c: "ivar_contract env tbl live" and ok: "moves_ok t M" and l: "\<And>new e. M new = Some e \<Longrightarrow> live (old_objref e)"
    using r by (auto simp: drain_ready_def)
  note c = ivar_contractD [OF c]
  let ?v1 = "move_givtbls (env_up env) (env_map_order env M) (w_vm w)"
  have live: "tbl (w_vm w) ob = t ob" if "live ob" for ob
    using i that by (simp add: ivars_recorded_def)
  have "moves_ok (tbl (w_vm w)) M"
    using ok l live unfolding moves_ok_def by metis
  from move_givtbls_rekeyed [OF c(1) this c(2)] have v1: "tbl ?v1 ob = rekeyed t M ob" if "live ob" for ob
    using live that by (auto simp: rekeyed_def split: option.split)
  have keeps: "vm_wp (\<lambda>_. True) (\<lambda>v2. \<forall>ob. live ob \<longrightarrow> tbl v2 ob = rekeyed t M ob)
      (up_cleanup_generic_iv_tbl (env_up env) ?v1)"
    using updates_keepD(4) [OF c(4)] by (rule vm_wp_mono) (simp_all add: same_ivars_def v1)
  have g: "global_table_do_work (env_build env) (env_core env) (tls_view (env_workers env)) tls
      (update_generic_iv_tbl (env_up env) (env_map_order env)) w = Inr w'"
    using d by (simp add: do_work_def Let_def)
  have "mutex_free (moved_givtbl (w_binding w))" "mutex_data (moved_givtbl (w_binding w)) = M"
    using i by (simp_all add: ivars_recorded_def)
  with keeps show ?thesis
    by (intro table_packet_keeps [OF g])
      (simp add: update_generic_iv_tbl_def Let_def ivars_recorded_def put_moved_givtbl_def)
qed

lemma frame_ivars:
  assumes d: "do_work env tls packet w = Inr w'" "packet \<noteq> UpdateGenericIvTbl" "latches_hold_bins w"
    and c: "ivar_contract env tbl live" and i: "ivars_recorded tbl live t M w"
  shows "ivars_recorded tbl live t M w'"
proof -
  note c = ivar_contractD [OF c]
  have "same_ivars tbl live (w_vm w) (w_vm w')"
    using d(1,2) c(5,4) same_ivars_order by (rule packet_keeps_vm)
  then show ?thesis
    using i do_work_frame(2) [OF d(1,3,2)] by (simp add: ivars_recorded_def same_ivars_def)
qed

interpretation ivar_closing: closing_once env m UpdateGenericIvTbl
    "\<lambda>w. drain_ready env tbl live t M \<and> ivars_recorded tbl live t M w"
    "\<lambda>w. drain_ready env tbl live t M \<and> ivars_recorded tbl live (rekeyed t M) Map.empty w"
  for env m tbl live t M
  by unfold_locales
    (auto simp: closing_ctx_def drain_ready_def dest: frame_ivars intro: drain_effect [unfolded drain_ready_def])

section \<open>From the start of a GC to tracing\<close>

text \<open>Before tracing nothing is forwarded, and the objects with ivars are flagged.\<close>

definition untraced :: "('c, 'm) traced mmtk_core \<Rightarrow> (objref \<rightharpoonup> address) \<Rightarrow> ('c, 'm) traced \<Rightarrow> bool" where
  "untraced core t m \<longleftrightarrow> (\<forall>ob. forwarded core m ob = None) \<and>
     (\<forall>ob. t ob \<noteq> None \<longrightarrow> has_exivar_flag (cs_mem (tc_copy m)) (from_objref ob))"

lemma prepare_packet_core:
  assumes d: "do_work env tls packet w = Inr w'" and p: "prepare_packet_ok packet"
    and j: "\<And>ob m. J m \<Longrightarrow> J (snd (mc_pin_object (env_core env) ob m))" "J (w_core w)"
  shows "J (w_core w')"
proof -
  have children: "J (snd (pin_children (env_core env) obs m))" if "J m" for obs m
    using that by (induction obs arbitrary: m) (auto simp: Let_def case_prod_beta j(1))
  from d show ?thesis
  proof (cases rule: do_work_result)
    case (pin chunk)
    from pin(2) show ?thesis
      by (rule pin_do_work_effect) (use children [OF j(2)] in \<open>metis snd_conv\<close>)
  qed (use p j(2) in \<open>auto simp: global_root_scanners_def world_put_defs\<close>)
qed

lemma prepare_step_frames:
  assumes "prepare_step env w w'" and inv: "prepare_inv pinned P moving w" and l: "latches_hold_bins w"
    and j: "\<And>ob m. J m \<Longrightarrow> J (snd (mc_pin_object (env_core env) ob m))"
  shows "moved_givtbl (w_binding w') = moved_givtbl (w_binding w) \<and> (J (w_core w) \<longrightarrow> J (w_core w'))"
  using assms(1)
proof cases
  case prepare_packet
  then obtain xs packet ys tls where b: "w_buckets w Prepare = xs @ packet # ys"
    and d: "do_work env tls packet (w\<lparr>w_buckets := (w_buckets w)(Prepare := xs @ ys)\<rparr>) = Inr w'"
    by (auto elim: bucket_stepE)
  have p: "prepare_packet_ok packet"
    using inv b by (simp add: prepare_inv_def)
  then have "packet \<noteq> UpdateGenericIvTbl"
    by (auto simp: global_root_scanners_def)
  with do_work_frame(2) [OF d] prepare_packet_core [OF d p, of J] j l show ?thesis
    by (simp add: latches_hold_bins_def)
next
  case (prepare_vm_roots tls)
  then show ?thesis
    by (auto simp: scan_vm_specific_roots_def bind_res_eq_Inr Let_def split: if_splits)
next
  case (prepare_mutator tls mutator_tls)
  then show ?thesis
    by (auto simp: scan_roots_in_mutator_thread_def bind_res_eq_Inr dest!: collect_object_roots_result)
qed

lemma prepare_run_frames:
  assumes c: "pin_contract (env_core env) pinned" and "(prepare_step env)\<^sup>*\<^sup>* w w'"
    and i: "prepare_inv pinned P moving w" "latches_hold_bins w"
    and j: "\<And>ob m. J m \<Longrightarrow> J (snd (mc_pin_object (env_core env) ob m))"
  shows "moved_givtbl (w_binding w') = moved_givtbl (w_binding w) \<and> (J (w_core w) \<longrightarrow> J (w_core w'))"
  using assms(2)
proof (induction rule: rtranclp_induct)
  case (step u w')
  have "prepare_inv pinned P moving u" "latches_hold_bins u"
    using prepare_run_inv [OF c step(1) i(1)] prepare_run_registries [OF c step(1) i] by simp_all
  from prepare_step_frames [where J = J, OF step(2) this j] step(3) show ?case
    by simp
qed simp

lemma stop_all_mutators_frames:
  assumes "stop_all_mutators cfg core up tls_mem tls visitor f w = Inr (f', w')"
  shows "w_binding w' = w_binding w \<and> w_core w' = w_core w"
  using assms by (auto simp: stop_all_mutators_def pin_ppp_children_def bind_res_eq_Inr split: if_splits)

text \<open>Between cycles, for the ivars: the record of moves is free and empty.\<close>

definition ivars_settled :: "('c, 'm) traced mmtk_core \<Rightarrow> ('v \<Rightarrow> objref \<rightharpoonup> address) \<Rightarrow> (('c, 'm) traced, 'v) world \<Rightarrow> bool" where
  "ivars_settled core tbl w \<longleftrightarrow> settled w \<and> mutex_free (moved_givtbl (w_binding w)) \<and>
     mutex_data (moved_givtbl (w_binding w)) = Map.empty \<and> untraced core (tbl (w_vm w)) (w_core w)"

text \<open>What is assumed of mmtk-core and the VM for the GC that starts in \<open>w\<close>.\<close>

definition ivar_gc ::
  "(('c, 'm) traced, 'v) gc_env \<Rightarrow> (('c, 'm) traced \<Rightarrow> objref set) \<Rightarrow> usize \<Rightarrow> ('c, 'sem) copy_context \<Rightarrow>
   ('v \<Rightarrow> objref \<rightharpoonup> address) \<Rightarrow> (objref \<Rightarrow> bool) \<Rightarrow> (('c, 'm) traced, 'v) world \<Rightarrow> bool" where
  "ivar_gc env pinned sfx cc tbl live w \<longleftrightarrow> pin_contract (env_core env) pinned \<and> pins_keep_heap (env_core env) \<and>
     tracer_steady (env_core env) pinned \<and> ivar_contract env tbl live \<and>
     traces_by_copying env sfx cc (\<lambda>v. tbl v = tbl (w_vm w)) (fresh_copy (env_core env) (tbl (w_vm w))) \<and>
     ivars_settled (env_core env) tbl w"

lemma cycle_tracked:
  assumes c: "ivar_gc env pinned sfx cc tbl live w"
    and run: "stop_all_mutators (env_build env) (env_core env) (env_up env)
      (tls_view (env_workers env) :: address \<rightharpoonup> unit gc_thread_tls) tls visitor f w = Inr (f', w1)"
      "(prepare_step env)\<^sup>*\<^sup>* w1 w2" "(trace_call env)\<^sup>*\<^sup>* (lend_binding w2) u"
  shows "ivars_tracked (env_core env) (tbl (w_vm w)) (w_core u)" "tbl (w_vm u) = tbl (w_vm w)"
    "mutex_free (moved_givtbl (traced_binding (w_core u)))"
proof -
  let ?core = "env_core env" and ?t = "tbl (w_vm w)" and ?K = "\<lambda>v v'. tbl v' = tbl v"
  have p: "pin_contract ?core pinned" "pins_keep_heap ?core" "tracer_steady ?core pinned"
    and i: "ivar_contract env tbl live" and w: "ivars_settled ?core tbl w"
    and cp: "traces_by_copying env sfx cc (\<lambda>v. tbl v = ?t) (fresh_copy ?core ?t)"
    using c by (simp_all add: ivar_gc_def)
  have s: "quiescent w" "latches_hold_bins w"
    using w by (simp_all add: ivars_settled_def settled_def)
  note K = ivar_contractD(3) [OF i]
  have order: "reflp ?K" "transp ?K"
    by (auto intro: reflpI transpI)
  have inv: "prepare_inv pinned (pinned (w_core w)) (gc_mode ?core w) w1" "latches_hold_bins w1"
    using stop_all_mutators_inv [OF run(1) s(1)] stop_all_mutators_registries [OF run(1)] s(2)
    by (simp_all add: latches_hold_bins_def)
  have "untraced ?core ?t (snd (mc_pin_object ?core ob m))" if "untraced ?core ?t m" for ob m
    using that p(2,3) by (simp add: untraced_def pins_keep_heap_def same_heap_def tracer_steady_def)
  from prepare_run_frames [where J = "untraced ?core ?t", OF p(1) run(2) inv this]
  have w2: "moved_givtbl (w_binding w2) = moved_givtbl (w_binding w)" "untraced ?core ?t (w_core w2)"
    using stop_all_mutators_frames [OF run(1)] w by (simp_all add: ivars_settled_def)
  have t2: "tbl (w_vm w2) = ?t"
    using prepare_run_keeps [OF p(1) run(2) inv(1) K order] stop_all_mutators_keeps [OF run(1) K] by simp
  then show "tbl (w_vm u) = ?t"
    using trace_calls_world [OF run(3) K order] by simp
  have "forwarded ?core (w_core (lend_binding w2)) = forwarded ?core (w_core w2)"
    using p(3) by (simp add: tracer_steady_def)
  then have "ivars_tracked ?core ?t (w_core (lend_binding w2))"
    using w w2 by (simp add: ivars_tracked_def moved_ivars_def untraced_def ivars_settled_def fun_eq_iff)
  then show "ivars_tracked ?core ?t (w_core u)"
    using ivar_tracer.calls_keep [OF run(3), of tbl sfx cc ?t] cp ivar_contractD(1) [OF i] by blast
  have "only_moves (w_binding w2) (traced_binding (w_core u))"
    using binding_tracer.calls_keep [OF run(3), of sfx cc "\<lambda>v. tbl v = ?t" "fresh_copy ?core ?t" "w_binding w2"] cp
    by simp
  then show "mutex_free (moved_givtbl (traced_binding (w_core u)))"
    using w w2(1) by (simp add: only_moves_simps ivars_settled_def)
qed

section \<open>The closing bucket of a cycle\<close>

lemma process_weak_refs_frames:
  assumes "process_weak_refs cfg core up w = Inr (again, w')"
  shows "w_vm w' = w_vm w" "moved_givtbl (w_binding w') = moved_givtbl (w_binding w)"
proof -
  obtain w1 where w1: "process_weak_stuff cfg core up w = Inr w1" "cleanup_ppps cfg core w1 = Inr w'"
    using assms by (auto simp: process_weak_refs_def bind_res_eq_Inr)
  have chunked: "w_vm u' = w_vm u \<and> w_binding u' = w_binding u"
    if "process_weak_table_chunked cfg up name table wk wv fwd u = Inr u'" for name table wk wv fwd u u'
    using that by (rule process_weak_table_chunked_result) simp
  have "w_vm w1 = w_vm w \<and> w_binding w1 = w_binding w"
    using w1(1) by (auto simp: process_weak_stuff_def Let_def bind_res_eq_Inr dest!: chunked)
  moreover have "w_vm w' = w_vm w1 \<and> moved_givtbl (w_binding w') = moved_givtbl (w_binding w1)"
    using w1(2) by (auto simp: cleanup_ppps_def Let_def bind_res_eq_Inr put_pinned_def split: if_splits)
  ultimately show "w_vm w' = w_vm w" "moved_givtbl (w_binding w') = moved_givtbl (w_binding w)"
    by simp_all
qed

text \<open>The world when the closing bucket opens, and any later one.\<close>

lemma cycle_closing:
  assumes c: "ivar_gc env pinned sfx cc tbl live w"
    and run: "stop_all_mutators (env_build env) (env_core env) (env_up env)
      (tls_view (env_workers env) :: address \<rightharpoonup> unit gc_thread_tls) tls visitor f w = Inr (f', w1)"
      "(prepare_step env)\<^sup>*\<^sup>* w1 w2" "(trace_call env)\<^sup>*\<^sup>* (lend_binding w2) u"
    and live: "\<forall>ob new. forwarded (env_core env) (w_core u) ob = Some new \<longrightarrow> live ob"
    and w4: "process_weak_refs (env_build env) (env_core env) (env_up env) (return_binding u) = Inr (again, w4)"
      "(bucket_step env VMRefClosure)\<^sup>*\<^sup>* w4 w5"
  shows "ivars_recorded tbl live (tbl (w_vm w)) (moved_ivars (w_core u)) w5 \<and> w_buckets w5 VMRefClosure \<noteq> [] \<or>
    ivars_recorded tbl live (rekeyed (tbl (w_vm w)) (moved_ivars (w_core u))) Map.empty w5"
proof -
  let ?core = "env_core env" and ?t = "tbl (w_vm w)" and ?M = "moved_ivars (w_core u)"
  have p: "pin_contract ?core pinned" "pins_keep_heap ?core" "tracer_steady ?core pinned"
    and i: "ivar_contract env tbl live" and w: "settled w"
    and cp: "traces_by_copying env sfx cc (\<lambda>v. tbl v = ?t) (fresh_copy ?core ?t)"
    using c by (simp_all add: ivar_gc_def ivars_settled_def)
  have s: "quiescent w" "latches_hold_bins w"
    using w by (simp_all add: settled_def)
  note tracked = cycle_tracked [OF c run]
  have inv: "prepare_inv pinned (pinned (w_core w)) (gc_mode ?core w) w1" "latches_hold_bins w1"
    using stop_all_mutators_inv [OF run(1) s(1)] stop_all_mutators_registries [OF run(1)] s(2)
    by (simp_all add: latches_hold_bins_def)
  have w2: "w_buckets w2 VMRefClosure = []" "latches_hold_bins w2"
    using prepare_run_inv [OF p(1) run(2) inv(1)] prepare_run_registries [OF p(1) run(2) inv]
    by (simp_all add: prepare_inv_def)
  have "callback_trace env w2 (return_binding u)"
    using run(3) by (auto simp: callback_trace_def)
  then have w3: "w_buckets (return_binding u) VMRefClosure = []" "latches_hold_bins (return_binding u)"
    using callback_trace_frame(2,3) [OF cp] w2 by (simp_all add: latches_hold_bins_def)
  note opens = process_weak_refs_opens [OF w4(1) w3(2,1), of UpdateGenericIvTbl]
  have "closing_ctx ?core (w_core u) w4"
    using opens(2,3) p(2) by (simp add: closing_ctx_def)
  moreover have "live (old_objref e)" if "?M new = Some e" for new e
    using that ivars_trackedD(2) [OF tracked(1)] live by blast
  then have "drain_ready env tbl live ?t ?M"
    using i tracked_moves_ok [OF tracked(1)] by (simp add: drain_ready_def)
  moreover have "ivars_recorded tbl live ?t ?M w4"
    using process_weak_refs_frames [OF w4(1)] tracked(2,3) by (simp add: ivars_recorded_def moved_ivars_def)
  ultimately have "ivar_closing.progress env (w_core u) tbl live ?t ?M w4"
    using opens(4) unfolding ivar_closing.progress_def by blast
  with w4(2) have "ivar_closing.progress env (w_core u) tbl live ?t ?M w5"
    by (rule ivar_closing.run_keeps)
  then show ?thesis
    by (auto simp: ivar_closing.progress_def)
qed

text \<open>The table that the drain leaves.\<close>

lemma tracked_rekeyed:
  assumes "ivars_tracked core t m"
  shows "forwarded core m ob = Some new \<Longrightarrow>
      rekeyed t (moved_ivars m) new = t ob \<and> rekeyed t (moved_ivars m) ob = None"
    and "forwarded core m ob = None \<Longrightarrow> \<forall>x. forwarded core m x \<noteq> Some ob \<Longrightarrow>
      rekeyed t (moved_ivars m) ob = t ob"
proof -
  note d = ivars_trackedD [OF assms]
  have none: "moved_ivars m x = None" if "\<forall>y. forwarded core m y \<noteq> Some x" for x
    using d(2) [of x] that by (cases "moved_ivars m x") auto
  {
    assume f: "forwarded core m ob = Some new"
    have nob: "moved_ivars m ob = None"
      using none d(4) f by (metis option.distinct(1))
    show "rekeyed t (moved_ivars m) new = t ob \<and> rekeyed t (moved_ivars m) ob = None"
    proof (cases "t ob")
      case None
      have "moved_ivars m new \<noteq> Some e" for e
        using d(2) [of new e] d(3) [OF f, of "old_objref e"] None by auto
      then have "moved_ivars m new = None"
        by (meson not_Some_eq)
      moreover have "\<nexists>x e. moved_ivars m x = Some e \<and> old_objref e = new"
        using d(2) d(4) [OF f] by auto
      ultimately show ?thesis
        using nob None d(5) [OF f] by (simp add: rekeyed_def)
    next
      case (Some iv)
      then have "moved_ivars m new = Some \<lparr>old_objref = ob, gen_ivtbl = iv\<rparr>"
        using d(2) f by simp
      then have "\<exists>x e. moved_ivars m x = Some e \<and> old_objref e = ob" "rekeyed t (moved_ivars m) new = Some iv"
        by (force simp: rekeyed_def)+
      then show ?thesis
        using nob Some by (simp add: rekeyed_def)
    qed
  next
    assume f: "forwarded core m ob = None" "\<forall>x. forwarded core m x \<noteq> Some ob"
    then have "\<nexists>x e. moved_ivars m x = Some e \<and> old_objref e = ob"
      using d(2) by auto
    then show "rekeyed t (moved_ivars m) ob = t ob"
      using none [OF f(2)] by (auto simp: rekeyed_def)
  }
qed

section \<open>Properties\<close>

text \<open>
  C15. Tracing by the callbacks of the binding meets the contract of GC cycles: whatever objects mmtk-core
  traces and copies, in whatever nesting with the VM's scanning code, the pins, the buckets and the
  registries of the binding are as before, since \<open>copy\<close> changes the record of moved ivar tables only.
\<close>

theorem callback_tracing_meets_contract:
  assumes "traces_by_copying env sfx cc (\<lambda>_. True) (\<lambda>_ _ _ _. True)" "tracer_steady (env_core env) pinned"
    and "pin_contract (env_core env) pinned" "pins_keep_heap (env_core env)" "hash_set_order (env_set_order env)"
  shows "gc_contract env pinned (callback_trace env)"
  using callback_trace_contract [OF assms(1,2)] assms(3-5) by (simp add: gc_contract_def)

text \<open>
  C11. Generic instance variables are found at any moment of a GC: while tracing runs, and while the closing
  bucket is processed, before and after the table was re-keyed, \<open>get_givtbl\<close> of the current reference of
  an object returns the table the object had when the GC began.
\<close>

theorem ivars_found_during_gc:
  assumes "ivar_gc env pinned sfx cc tbl live w"
    and "stop_all_mutators (env_build env) (env_core env) (env_up env)
      (tls_view (env_workers env) :: address \<rightharpoonup> unit gc_thread_tls) tls visitor f w = Inr (f', w1)"
    and "(prepare_step env)\<^sup>*\<^sup>* w1 w2" "(trace_call env)\<^sup>*\<^sup>* (lend_binding w2) u"
    and ob: "tbl (w_vm w) ob = Some iv"
  shows "get_givtbl (env_up env) (traced_binding (w_core u)) (w_vm u) (forward (env_core env) (w_core u) ob) = Inr iv \<and>
    (process_weak_refs (env_build env) (env_core env) (env_up env) (return_binding u) = Inr (again, w4) \<longrightarrow>
     (bucket_step env VMRefClosure)\<^sup>*\<^sup>* w4 w5 \<longrightarrow>
     (\<forall>x new. forwarded (env_core env) (w_core u) x = Some new \<longrightarrow> live x) \<longrightarrow>
     live (forward (env_core env) (w_core u) ob) \<longrightarrow>
     get_givtbl (env_up env) (w_binding w5) (w_vm w5) (forward (env_core env) (w_core u) ob) = Inr iv)"
proof (intro conjI impI)
  let ?t = "tbl (w_vm w)" and ?new = "forward (env_core env) (w_core u) ob"
  note tracked = cycle_tracked [OF assms(1-4)]
  have c: "givtbl_contract (env_up env) tbl"
    using assms(1) by (simp add: ivar_gc_def ivar_contract_def)
  show "get_givtbl (env_up env) (traced_binding (w_core u)) (w_vm u) ?new = Inr iv"
    using tracked by (intro tracked_get_givtbl [OF tracked(1) ob c]) (simp_all add: moved_ivars_def)
  assume w4: "process_weak_refs (env_build env) (env_core env) (env_up env) (return_binding u) = Inr (again, w4)"
      "(bucket_step env VMRefClosure)\<^sup>*\<^sup>* w4 w5"
    and live: "\<forall>x new. forwarded (env_core env) (w_core u) x = Some new \<longrightarrow> live x" "live ?new"
  from cycle_closing [OF assms(1-4) live(1) w4] show "get_givtbl (env_up env) (w_binding w5) (w_vm w5) ?new = Inr iv"
  proof (elim disjE conjE)
    assume "ivars_recorded tbl live ?t (moved_ivars (w_core u)) w5"
    then show ?thesis
      using live(2) by (intro tracked_get_givtbl [OF tracked(1) ob c]) (simp_all add: ivars_recorded_def)
  next
    assume "ivars_recorded tbl live (rekeyed ?t (moved_ivars (w_core u))) Map.empty w5"
    then have "tbl (w_vm w5) ?new = Some iv"
      using live(2) tracked_moved(2) [OF tracked(1) ob] by (simp add: ivars_recorded_def)
    then show ?thesis
      by (simp add: get_givtbl_def get_original_givtbl_contract [OF c])
  qed
qed

text \<open>
  C10. A GC carries the generic instance variables along: after a whole cycle, in any order of the packets,
  the table of the VM has the entry of every copied object under its new reference and none under the
  old one, the entries of live objects that stayed are unchanged, and the record of moves is empty.
\<close>

theorem gc_cycle_carries_ivars:
  assumes "ivar_gc env pinned sfx cc tbl live w"
    and "stop_all_mutators (env_build env) (env_core env) (env_up env)
      (tls_view (env_workers env) :: address \<rightharpoonup> unit gc_thread_tls) tls visitor f w = Inr (f', w1)"
    and "(prepare_step env)\<^sup>*\<^sup>* w1 w2" "callback_trace env w2 w3"
    and w4: "process_weak_refs (env_build env) (env_core env) (env_up env) w3 = Inr (again, w4)"
    and w5: "(bucket_step env VMRefClosure)\<^sup>*\<^sup>* w4 w5" "w_buckets w5 VMRefClosure = []"
    and live: "\<forall>ob new. forwarded (env_core env) (w_core w3) ob = Some new \<longrightarrow> live ob \<and> live new"
  shows "mutex_data (moved_givtbl (w_binding w5)) = Map.empty \<and>
    (\<forall>ob new. forwarded (env_core env) (w_core w3) ob = Some new \<longrightarrow>
       tbl (w_vm w5) new = tbl (w_vm w) ob \<and> tbl (w_vm w5) ob = None) \<and>
    (\<forall>ob. forwarded (env_core env) (w_core w3) ob = None \<longrightarrow>
       (\<forall>x. forwarded (env_core env) (w_core w3) x \<noteq> Some ob) \<longrightarrow> live ob \<longrightarrow>
       tbl (w_vm w5) ob = tbl (w_vm w) ob)"
proof -
  obtain u where u: "(trace_call env)\<^sup>*\<^sup>* (lend_binding w2) u" "w3 = return_binding u"
    using assms(4) by (auto simp: callback_trace_def)
  have "ivars_recorded tbl live (rekeyed (tbl (w_vm w)) (moved_ivars (w_core u))) Map.empty w5"
    using cycle_closing [OF assms(1-3) u(1) _ w4 [unfolded u(2)] w5(1)] live w5(2) by (auto simp: u(2))
  then show ?thesis
    using tracked_rekeyed [OF cycle_tracked(1) [OF assms(1-3) u(1)]] live
    by (auto simp: ivars_recorded_def u(2))
qed

end
