(* ===== verification/Weak_Cycle.thy ===== *)
theory Weak_Cycle
  imports Gc_Progress
begin

text \<open>
  Weak tables inside a GC cycle. \<open>Weak_Table\<close> has the packets of one table by themselves; here they are
  in the closing bucket with all the others, which the workers take in any order. The probes of a table
  tell the order: its packets of bins run after the last packet of entries, each range once, whatever
  runs in between, and the latches of the two tables do not interfere.
\<close>

section \<open>What is about a table\<close>

fun about_table :: "string \<Rightarrow> probe \<Rightarrow> bool" where
  "about_table name (Probe_initial_weak_table_stats es eb bn n name') = (name = name')"
| "about_table name (Probe_final_weak_table_stats n name') = (name = name')"
| "about_table name (Probe_update_table_entries_parallel b e n name') = (name = name')"
| "about_table name (Probe_update_table_bins_parallel b e n name') = (name = name')"
| "about_table name _ = False"

fun of_table :: "string \<Rightarrow> gc_work \<Rightarrow> bool" where
  "of_table name (UpdateTableEntriesParallel name' tbl b e wk wv fwd aid) = (name' = name)"
| "of_table name (UpdateTableBinsParallel name' tbl b e) = (name' = name)"
| "of_table name _ = False"

fun is_table_packet :: "gc_work \<Rightarrow> bool" where
  "is_table_packet (UpdateTableEntriesParallel name tbl b e wk wv fwd aid) = True"
| "is_table_packet (UpdateTableBinsParallel name tbl b e) = True"
| "is_table_packet _ = False"

definition table_log :: "string \<Rightarrow> ('m, 'v) world \<Rightarrow> probe list" where
  "table_log name w = filter (about_table name) (w_probes w)"

definition table_queue :: "string \<Rightarrow> ('m, 'v) world \<Rightarrow> gc_work list" where
  "table_queue name w = filter (of_table name) (w_buckets w VMRefClosure)"

text \<open>The probes of packets, from the ranges and the numbers of deleted entries.\<close>

type_synonym updates = "((usize \<times> usize) \<times> usize) list"

definition entries_probes :: "string \<Rightarrow> updates \<Rightarrow> probe list" where
  "entries_probes name = map (\<lambda>((b, e), n). Probe_update_table_entries_parallel b e n name)"

definition bins_probes :: "string \<Rightarrow> updates \<Rightarrow> probe list" where
  "bins_probes name = map (\<lambda>((b, e), n). Probe_update_table_bins_parallel b e n name)"

text \<open>
  The log of a table whose entries and bins have these ranges: at any moment, and at the end.
\<close>

definition table_story :: "string \<Rightarrow> (usize \<times> usize) list \<Rightarrow> (usize \<times> usize) list \<Rightarrow> probe list \<Rightarrow> bool" where
  "table_story name entries bins log \<longleftrightarrow>
     (\<exists>us. log = entries_probes name us \<and> (us = [] \<or> mset (map fst us) \<subset># mset entries)) \<or>
     (\<exists>us n rs. log = entries_probes name us @ Probe_final_weak_table_stats n name # bins_probes name rs \<and>
        mset (map fst us) = mset entries \<and> mset (map fst rs) \<subseteq># mset bins)"

definition table_finished :: "string \<Rightarrow> (usize \<times> usize) list \<Rightarrow> (usize \<times> usize) list \<Rightarrow> probe list \<Rightarrow> bool" where
  "table_finished name entries bins log \<longleftrightarrow>
     (\<exists>us n rs. log = entries_probes name us @ Probe_final_weak_table_stats n name # bins_probes name rs \<and>
        mset (map fst us) = mset entries \<and> mset (map fst rs) = mset bins)"

lemma table_log_upd [simp]:
  "table_log name (emit p w) = table_log name w @ (if about_table name p then [p] else [])"
  "table_log name (submit st ps w) = table_log name w"
  "table_log name (put_pinned xs w) = table_log name w"
  "table_log name (put_candidates xs w) = table_log name w"
  "table_log name (put_wb_unprotected S w) = table_log name w"
  "table_log name (put_ppps xs w) = table_log name w"
  "table_log name (put_moved_givtbl t w) = table_log name w"
  "table_log name (w\<lparr>w_vm := v\<rparr>) = table_log name w"
  "table_log name (w\<lparr>w_core := m\<rparr>) = table_log name w"
  "table_log name (w\<lparr>w_root_work := rs\<rparr>) = table_log name w"
  "table_log name (w\<lparr>w_buckets := b\<rparr>) = table_log name w"
  "table_log name (w\<lparr>w_latches := ls\<rparr>) = table_log name w"
  by (simp_all add: table_log_def emit_def submit_def world_put_defs)

lemma put_latches [simp]:
  "w_latches (put_moved_givtbl t w) = w_latches w" "w_latches (put_candidates xs w) = w_latches w"
  "w_latches (put_wb_unprotected S w) = w_latches w" "w_latches (put_ppps xs w) = w_latches w"
  by (simp_all add: world_put_defs)

section \<open>Packets that are about no table\<close>

lemma table_world_unchanged:
  assumes "global_table_do_work cfg core (tls_view workers) tls process w = Inr w'"
    and "process w = vm_bind c (\<lambda>v. VM_done (Inr (emit (q v) (f v))))"
    and "\<And>v. \<not> about_table name (q v)"
    and "\<And>v. w_buckets (f v) = w_buckets w \<and> w_latches (f v) = w_latches w \<and> table_log name (f v) = table_log name w"
  shows "w_buckets w' = w_buckets w \<and> w_latches w' = w_latches w \<and> table_log name w' = table_log name w"
  using global_table_result [OF assms(1,2)] assms(3,4) by auto

lemma general_update_tables:
  assumes "global_table_do_work cfg core (tls_view workers) tls
    (general_update_weak_table up getter cleaner) w = Inr w'"
  shows "w_buckets w' = w_buckets w \<and> w_latches w' = w_latches w \<and> table_log name w' = table_log name w"
  using assms
  by (rule table_world_unchanged) (simp add: general_update_weak_table_def Let_def, simp_all)

lemma other_packet_tables:
  assumes "do_work env tls packet w = Inr w'" "\<not> is_table_packet packet"
  shows "w_buckets w' = w_buckets w \<and> w_latches w' = w_latches w \<and> table_log name w' = table_log name w"
proof (cases packet)
  case UpdateGenericIvTbl
  with assms have g: "global_table_do_work (env_build env) (env_core env) (tls_view (env_workers env)) tls
      (update_generic_iv_tbl (env_up env) (env_map_order env)) w = Inr w'"
    by (simp add: do_work_def Let_def)
  then have "mutex_free (moved_givtbl (w_binding w))"
    using generic_iv_tbl_result by blast
  then show ?thesis
    by (intro table_world_unchanged [OF g]) (simp add: update_generic_iv_tbl_def Let_def, simp_all)
next
  case UpdateFinalizerAndObjIdTables
  with assms have "global_table_do_work (env_build env) (env_core env) (tls_view (env_workers env)) tls
      (update_finalizer_and_obj_id_tables (env_up env)) w = Inr w'"
    by (simp add: do_work_def Let_def)
  then show ?thesis
    by (rule table_world_unchanged) (simp add: update_finalizer_and_obj_id_tables_def Let_def, simp_all)
next
  case UpdateOverloadedCmeTable
  with assms show ?thesis
    by (intro general_update_tables) (simp add: do_work_def Let_def update_overloaded_cme_table_def)
next
  case UpdateCiTable
  with assms show ?thesis
    by (intro general_update_tables) (simp add: do_work_def Let_def update_ci_table_def)
next
  case ProcessObjFreeCandidates
  with assms show ?thesis
    by (auto simp: do_work_def Let_def process_obj_free_candidates_do_work_def bind_res_eq_Inr
        process_candidates_eq)
next
  case UpdateWbUnprotectedObjectsList
  with assms show ?thesis
    by (auto simp: do_work_def Let_def update_wb_unprotected_objects_list_do_work_def bind_res_eq_Inr)
next
  case RemoveDeadPPPs
  with assms show ?thesis
    by (auto simp: do_work_def Let_def remove_dead_ppps_do_work_def bind_res_eq_Inr retain_ppps_eq)
next
  case (PinPPPChildren chunk)
  with assms show ?thesis
    by (auto simp: do_work_def Let_def pin_ppp_children_do_work_def bind_res_eq_Inr case_prod_beta)
next
  case (UnpinPPPChildren children)
  with assms show ?thesis
    by (auto simp: do_work_def Let_def unpin_ppp_children_do_work_def bind_res_eq_Inr)
next
  case (ScanWbUnprotectedRoots objects)
  with assms show ?thesis
    by (auto simp: do_work_def Let_def scan_wb_unprotected_roots_do_work_def bind_res_eq_Inr
        dest!: collect_object_roots_result)
qed (use assms in \<open>auto simp: do_work_def Let_def global_root_do_work_def bind_res_eq_Inr
    dest!: collect_object_roots_result\<close>)

section \<open>The packets of two tables do not meet\<close>

text \<open>
  A packet of entries of another table counts down another latch, which holds no packets of this one.
\<close>

fun keeps_apart :: "string \<Rightarrow> nat \<Rightarrow> gc_work after_all list \<Rightarrow> gc_work \<Rightarrow> bool" where
  "keeps_apart name aid ls (UpdateTableEntriesParallel name' tbl b e wk wv fwd i) =
     (name' \<noteq> name \<longrightarrow> i \<noteq> aid \<and> i < length ls \<and> (\<forall>p \<in> set (packets (ls ! i)). \<not> of_table name p))"
| "keeps_apart name aid ls _ = True"

lemma keeps_apart_bins: "is_bins_packet p \<Longrightarrow> keeps_apart name aid ls p"
  by (cases p) simp_all

lemma keeps_apart_update:
  assumes "keeps_apart name aid ls p" "i = aid \<or> set (packets aa) \<subseteq> set (packets (ls ! i))"
  shows "keeps_apart name aid (ls[i := aa]) p"
  using assms by (cases "i < length ls"; cases p) (auto simp: nth_list_update list_update_beyond split: if_splits)

lemma keeps_apart_append: "keeps_apart name aid ls p \<Longrightarrow> keeps_apart name aid (ls @ [l]) p"
  by (cases p) (auto simp: nth_append)

definition tables_apart :: "string \<Rightarrow> nat \<Rightarrow> ('m, 'v) world \<Rightarrow> bool" where
  "tables_apart name aid w \<longleftrightarrow> latches_hold_bins w \<and> aid < length (w_latches w) \<and>
     (\<forall>p \<in> set (w_buckets w VMRefClosure). keeps_apart name aid (w_latches w) p)"

text \<open>The effect of a packet of entries in the closing bucket.\<close>

lemma table_entries_cases:
  assumes "table_entries_do_work up name table b e wk wv fwd aid w = Inr w'" "latches_hold_bins w"
  obtains
    (more) n where "counter (w_latches w ! aid) \<noteq> 1" "w_buckets w' = w_buckets w"
      "w_latches w' = (w_latches w)[aid := (w_latches w ! aid)\<lparr>counter := counter (w_latches w ! aid) - 1\<rparr>]"
      "\<And>nm. table_log nm w' = table_log nm w @
         (if nm = name then [Probe_update_table_entries_parallel b e n name] else [])"
  | (last) n k where "counter (w_latches w ! aid) = 1"
      "w_buckets w' = bulk_add VMRefClosure (packets (w_latches w ! aid)) (w_buckets w)"
      "w_latches w' = (w_latches w)[aid := (w_latches w ! aid)\<lparr>counter := 0, packets := []\<rparr>]"
      "\<And>nm. table_log nm w' = table_log nm w @
         (if nm = name then [Probe_update_table_entries_parallel b e n name, Probe_final_weak_table_stats k name]
          else [])"
proof -
  obtain deleted v where v: "up_st_update_entries_range up table b e wk wv fwd (w_vm w) = (deleted, v)"
    by (cases "up_st_update_entries_range up table b e wk wv fwd (w_vm w)")
  have aid: "aid < length (w_latches w)"
    using assms(1) by (auto simp: table_entries_do_work_def split: if_splits)
  then have st: "stage (w_latches w ! aid) = VMRefClosure"
    using assms(2) by (simp add: latches_hold_bins_def)
  show thesis
  proof (cases "counter (w_latches w ! aid) = 1")
    case True
    show thesis
      using assms(1) v aid True st
      by (intro last [where n = deleted and k = "up_st_get_num_entries up table v"])
        (auto simp: table_entries_do_work_def count_down_def Let_def)
  next
    case False
    show thesis
      using assms(1) v aid False
      by (intro more [where n = deleted]) (auto simp: table_entries_do_work_def count_down_def Let_def)
  qed
qed

lemma table_bins_effect:
  assumes "table_bins_do_work up name table b e w = Inr w'"
  obtains n where "w_buckets w' = w_buckets w" "w_latches w' = w_latches w"
    "\<And>nm. table_log nm w' = table_log nm w @
       (if nm = name then [Probe_update_table_bins_parallel b e n name] else [])"
  using assms by (auto simp: table_bins_do_work_def split: prod.splits)

text \<open>Every packet keeps the tables apart, and those of others leave a table alone.\<close>

lemma packet_keeps_apart:
  assumes d: "do_work env tls packet w = Inr w'" and a: "tables_apart name aid w"
    and p: "keeps_apart name aid (w_latches w) packet"
  shows "tables_apart name aid w'"
    and "\<not> of_table name packet \<Longrightarrow> table_log name w' = table_log name w \<and>
      w_latches w' ! aid = w_latches w ! aid \<and> table_queue name w' = table_queue name w"
proof -
  have l: "latches_hold_bins w" "aid < length (w_latches w)"
    "\<forall>p \<in> set (w_buckets w VMRefClosure). keeps_apart name aid (w_latches w) p"
    using a by (simp_all add: tables_apart_def)
  have "tables_apart name aid w' \<and> (\<not> of_table name packet \<longrightarrow> table_log name w' = table_log name w \<and>
      w_latches w' ! aid = w_latches w ! aid \<and> table_queue name w' = table_queue name w)"
  proof (cases "is_table_packet packet")
    case False
    with other_packet_tables [OF d False, of name] a show ?thesis
      by (simp add: tables_apart_def latches_hold_bins_def table_queue_def)
  next
    case True
    then show ?thesis
    proof (cases packet)
      case (UpdateTableBinsParallel nm tbl b e)
      with d have "table_bins_do_work (env_up env) nm tbl b e w = Inr w'"
        by (simp add: do_work_def Let_def)
      with a UpdateTableBinsParallel show ?thesis
        by (elim table_bins_effect) (simp add: tables_apart_def latches_hold_bins_def table_queue_def)
    next
      case (UpdateTableEntriesParallel nm tbl b e wk wv fwd i)
      with d have t: "table_entries_do_work (env_up env) nm tbl b e wk wv fwd i w = Inr w'"
        by (simp add: do_work_def Let_def)
      have i: "i < length (w_latches w)"
        using t by (auto simp: table_entries_do_work_def split: if_splits)
      then have bins: "\<forall>p \<in> set (packets (w_latches w ! i)). is_bins_packet p"
        using l(1) nth_mem unfolding latches_hold_bins_def by blast
      from t l(1) have holds: "latches_hold_bins w'"
        by (rule table_entries_result)
      from t l(1) show ?thesis
      proof (cases rule: table_entries_cases)
        case (more n)
        then have "tables_apart name aid w'"
          using l holds by (auto simp: tables_apart_def intro!: keeps_apart_update)
        with more p UpdateTableEntriesParallel show ?thesis
          by (auto simp: table_queue_def)
      next
        case (last n k)
        then have "\<forall>q \<in> set (w_buckets w' VMRefClosure). keeps_apart name aid (w_latches w) q"
          using l(3) bins keeps_apart_bins by auto
        with last have "tables_apart name aid w'"
          using l(2) holds by (auto simp: tables_apart_def intro!: keeps_apart_update)
        with last p UpdateTableEntriesParallel show ?thesis
          by (auto simp: table_queue_def)
      qed
    qed simp_all
  qed
  then show "tables_apart name aid w'"
    and "\<not> of_table name packet \<Longrightarrow> table_log name w' = table_log name w \<and>
      w_latches w' ! aid = w_latches w ! aid \<and> table_queue name w' = table_queue name w"
    by blast+
qed

section \<open>The progress of a table\<close>

text \<open>
  Before the release of the bins: \<open>us\<close> is done, \<open>todo\<close> waits in the bucket and is what the latch counts.
  After it: the bins \<open>rs\<close> are done and \<open>todo\<close> waits.
\<close>

definition entries_left ::
  "string \<Rightarrow> address \<Rightarrow> (usize \<times> usize \<Rightarrow> gc_work) \<Rightarrow> nat \<Rightarrow> (usize \<times> usize) list \<Rightarrow> (usize \<times> usize) list \<Rightarrow>
   probe list \<Rightarrow> ('m, 'v) world \<Rightarrow> bool" where
  "entries_left name table packet aid entries bins before w \<longleftrightarrow>
     (\<exists>us todo. table_log name w = before @ entries_probes name us \<and> (us = [] \<or> todo \<noteq> []) \<and>
        mset entries = mset (map fst us) + mset todo \<and>
        mset (table_queue name w) = mset (map packet todo) \<and>
        counter (w_latches w ! aid) = of_nat (length todo) \<and>
        packets (w_latches w ! aid) = map (bins_packet name table) bins)"

definition bins_left ::
  "string \<Rightarrow> address \<Rightarrow> (usize \<times> usize) list \<Rightarrow> (usize \<times> usize) list \<Rightarrow> probe list \<Rightarrow> ('m, 'v) world \<Rightarrow> bool" where
  "bins_left name table entries bins before w \<longleftrightarrow>
     (\<exists>us n rs todo. table_log name w = before @ entries_probes name us @
          Probe_final_weak_table_stats n name # bins_probes name rs \<and>
        mset entries = mset (map fst us) \<and> mset bins = mset (map fst rs) + mset todo \<and>
        mset (table_queue name w) = mset (map (bins_packet name table) todo))"

definition table_progress ::
  "string \<Rightarrow> address \<Rightarrow> bool \<Rightarrow> bool \<Rightarrow> bool \<Rightarrow> nat \<Rightarrow> (usize \<times> usize) list \<Rightarrow> (usize \<times> usize) list \<Rightarrow>
   probe list \<Rightarrow> ('m, 'v) world \<Rightarrow> bool" where
  "table_progress name table wk wv fwd aid entries bins before w \<longleftrightarrow>
     length entries < 2 ^ 64 \<and> tables_apart name aid w \<and>
     (entries_left name table (entries_packet name table wk wv fwd aid) aid entries bins before w \<or>
      bins_left name table entries bins before w)"

text \<open>A packet of the table, and the rest of its queue.\<close>

lemma mset_map_take:
  assumes "add_mset x M = mset (map f xs)"
  obtains r ys where "x = f r" "mset xs = add_mset r (mset ys)" "M = mset (map f ys)"
proof -
  have "x \<in># mset (map f xs)"
    unfolding assms [symmetric] by simp
  then obtain r where r: "r \<in> set xs" "x = f r"
    by auto
  then have "mset xs = add_mset r (mset (remove1 r xs))"
    by simp
  moreover from this have "M = mset (map f (remove1 r xs))"
    using assms r(2) by (metis add_mset_add_mset_same_iff image_mset_add_mset mset_map)
  ultimately show thesis
    using r(2) that by blast
qed

lemma entries_left_step:
  assumes left: "entries_left name table (entries_packet name table wk wv fwd aid) aid entries bins before w"
    and small: "length entries < 2 ^ 64" and l: "latches_hold_bins w" "aid < length (w_latches w)"
    and b: "w_buckets w VMRefClosure = xs @ packet # ys" and "of_table name packet"
    and d: "do_work env tls packet (w\<lparr>w_buckets := (w_buckets w)(VMRefClosure := xs @ ys)\<rparr>) = Inr w'"
  shows "entries_left name table (entries_packet name table wk wv fwd aid) aid entries bins before w' \<or>
    bins_left name table entries bins before w'"
proof -
  let ?w = "w\<lparr>w_buckets := (w_buckets w)(VMRefClosure := xs @ ys)\<rparr>" and ?aa = "w_latches w ! aid"
  obtain us todo where t: "table_log name w = before @ entries_probes name us"
    "mset entries = mset (map fst us) + mset todo"
    "mset (table_queue name w) = mset (map (entries_packet name table wk wv fwd aid) todo)"
    "counter ?aa = of_nat (length todo)" "packets ?aa = map (bins_packet name table) bins"
    using left by (auto simp: entries_left_def)
  have "add_mset packet (mset (table_queue name ?w)) = mset (map (entries_packet name table wk wv fwd aid) todo)"
    using t(3) b assms(6) by (simp add: table_queue_def)
  then obtain r rest where r: "packet = entries_packet name table wk wv fwd aid r"
    "mset todo = add_mset r (mset rest)"
    "mset (table_queue name ?w) = mset (map (entries_packet name table wk wv fwd aid) rest)"
    by (rule mset_map_take)
  have len: "length todo = Suc (length rest)" "length todo < 2 ^ 64"
    using arg_cong [OF r(2), of size] arg_cong [OF t(2), of size] small by simp_all
  have run: "table_entries_do_work (env_up env) name table (fst r) (snd r) wk wv fwd aid ?w = Inr w'"
    using d r(1) by (simp add: do_work_def entries_packet_def Let_def)
  have holds: "latches_hold_bins ?w"
    using l(1) by (simp add: latches_hold_bins_def)
  have probe: "entries_probes name (us @ [(r, n)]) =
      entries_probes name us @ [Probe_update_table_entries_parallel (fst r) (snd r) n name]" for n
    by (simp add: entries_probes_def case_prod_beta)
  from run holds show ?thesis
  proof (cases rule: table_entries_cases)
    case (more n)
    have "rest \<noteq> []"
      using more(1) t(4) len(1) by auto
    then have "entries_left name table (entries_packet name table wk wv fwd aid) aid entries bins before w'"
      unfolding entries_left_def using more t r l(2) len(1)
      by (intro exI [of _ "us @ [(r, n)]"] exI [of _ rest]) (simp add: probe table_queue_def)
    then show ?thesis ..
  next
    case (last n k)
    have "rest = []"
      using last(1) t(4) len by (simp add: usize_simps word_unat_eq_iff)
    moreover have "of_table name p" if "p \<in> bins_packet name table ` X" for p X
      using that by (auto simp: bins_packet_def)
    ultimately have "bins_left name table entries bins before w'"
      unfolding bins_left_def using last t r
      by (intro exI [of _ "us @ [(r, n)]"] exI [of _ k] exI [of _ "[]"] exI [of _ bins])
        (simp add: probe table_queue_def bins_probes_def filter_map o_def bins_packet_def)
    then show ?thesis ..
  qed
qed

lemma bins_left_step:
  assumes left: "bins_left name table entries bins before w"
    and b: "w_buckets w VMRefClosure = xs @ packet # ys" and "of_table name packet"
    and d: "do_work env tls packet (w\<lparr>w_buckets := (w_buckets w)(VMRefClosure := xs @ ys)\<rparr>) = Inr w'"
  shows "bins_left name table entries bins before w'"
proof -
  let ?w = "w\<lparr>w_buckets := (w_buckets w)(VMRefClosure := xs @ ys)\<rparr>"
  obtain us n rs todo where t:
    "table_log name w = before @ entries_probes name us @ Probe_final_weak_table_stats n name # bins_probes name rs"
    "mset entries = mset (map fst us)" "mset bins = mset (map fst rs) + mset todo"
    "mset (table_queue name w) = mset (map (bins_packet name table) todo)"
    using left by (auto simp: bins_left_def)
  have "add_mset packet (mset (table_queue name ?w)) = mset (map (bins_packet name table) todo)"
    using t(4) b assms(3) by (simp add: table_queue_def)
  then obtain r rest where r: "packet = bins_packet name table r" "mset todo = add_mset r (mset rest)"
    "mset (table_queue name ?w) = mset (map (bins_packet name table) rest)"
    by (rule mset_map_take)
  have "table_bins_do_work (env_up env) name table (fst r) (snd r) ?w = Inr w'"
    using d r(1) by (simp add: do_work_def bins_packet_def Let_def)
  then obtain k where k: "w_buckets w' = w_buckets ?w"
    "table_log name w' = table_log name ?w @ [Probe_update_table_bins_parallel (fst r) (snd r) k name]"
    by (rule table_bins_effect) simp
  show ?thesis
    unfolding bins_left_def using k t r
    by (intro exI [of _ us] exI [of _ n] exI [of _ "rs @ [(r, k)]"] exI [of _ rest])
      (simp add: table_queue_def bins_probes_def case_prod_beta)
qed

interpretation table_closing: bucket_invariant env VMRefClosure
    "table_progress name table wk wv fwd aid entries bins before"
  for env name table wk wv fwd aid entries bins before
proof
  fix w :: "('a, 'b) world" and w' xs packet ys tls
  let ?w = "w\<lparr>w_buckets := (w_buckets w)(VMRefClosure := xs @ ys)\<rparr>"
  let ?e = "entries_packet name table wk wv fwd aid"
  assume b: "w_buckets w VMRefClosure = xs @ packet # ys"
    and p: "table_progress name table wk wv fwd aid entries bins before w"
    and d: "do_work env tls packet ?w = Inr w'"
  have a: "tables_apart name aid ?w" "keeps_apart name aid (w_latches ?w) packet"
    using p b by (auto simp: table_progress_def tables_apart_def latches_hold_bins_def)
  note keeps = packet_keeps_apart [OF d a]
  have "entries_left name table ?e aid entries bins before w' \<or> bins_left name table entries bins before w'"
  proof (cases "of_table name packet")
    case True
    with p show ?thesis
      unfolding table_progress_def tables_apart_def
      using entries_left_step [OF _ _ _ _ b True d] bins_left_step [OF _ b True d] by blast
  next
    case False
    then have "table_log name w' = table_log name w" "w_latches w' ! aid = w_latches w ! aid"
      "table_queue name w' = table_queue name w"
      using keeps(2) b by (simp_all add: table_queue_def)
    with p show ?thesis
      by (simp add: table_progress_def entries_left_def bins_left_def)
  qed
  with p keeps(1) show "table_progress name table wk wv fwd aid entries bins before w'"
    by (simp add: table_progress_def)
qed

section \<open>The start\<close>

lemma submit_tables:
  assumes "\<forall>p \<in> set ps. \<not> is_table_packet p"
  shows "tables_apart name aid (submit VMRefClosure ps w) = tables_apart name aid w"
    "table_queue name (submit VMRefClosure ps w) = table_queue name w"
proof -
  have "keeps_apart name aid (w_latches w) p \<and> \<not> of_table name p" if "p \<in> set ps" for p
    using assms that by (cases p) auto
  then show "tables_apart name aid (submit VMRefClosure ps w) = tables_apart name aid w"
    "table_queue name (submit VMRefClosure ps w) = table_queue name w"
    by (auto simp: tables_apart_def table_queue_def latches_hold_bins_def filter_empty_conv)
qed

lemma table_progress_submit:
  assumes "\<forall>p \<in> set ps. \<not> is_table_packet p"
  shows "table_progress name table wk wv fwd aid entries bins before (submit VMRefClosure ps w) =
    table_progress name table wk wv fwd aid entries bins before w"
  by (simp add: table_progress_def entries_left_def bins_left_def submit_tables [OF assms])

lemma table_progress_put_pinned [simp]:
  "table_progress name table wk wv fwd aid entries bins before (put_pinned xs w) =
    table_progress name table wk wv fwd aid entries bins before w"
  by (simp add: table_progress_def entries_left_def bins_left_def tables_apart_def latches_hold_bins_def table_queue_def)

text \<open>Submitting a table starts its progress, and keeps that of the others.\<close>

lemma weak_table_submitted:
  assumes "process_weak_table_chunked cfg up name table wk wv fwd w = Inr w'" "latches_hold_bins w"
    and "up_st_get_size_info up table (w_vm w) = (es, eb, bn)"
  obtains entries bins where
    "range_packets cfg es eb (st_entries_chunk_size (w_binding w)) (st_entries_chunk_size (w_binding w)) = Inr entries"
    "range_packets cfg 0 bn (st_entries_chunk_size (w_binding w)) (st_bins_chunk_size (w_binding w)) = Inr bins"
    "w' = submit VMRefClosure (map (entries_packet name table wk wv fwd (length (w_latches w))) entries)
      (emit (Probe_initial_weak_table_stats es eb bn (up_st_get_num_entries up table (w_vm w)) name) w
        \<lparr>w_latches := w_latches w @
          [\<lparr>counter = of_nat (length entries), stage = VMRefClosure, packets = map (bins_packet name table) bins\<rparr>]\<rparr>)"
    "latches_hold_bins w'"
proof -
  obtain entries bins where r:
    "range_packets cfg es eb (st_entries_chunk_size (w_binding w)) (st_entries_chunk_size (w_binding w)) = Inr entries"
    "range_packets cfg 0 bn (st_entries_chunk_size (w_binding w)) (st_bins_chunk_size (w_binding w)) = Inr bins"
    using assms(1,3) by (auto simp: process_weak_table_chunked_def bind_res_eq_Inr Let_def)
  from process_weak_table_chunked_eq [OF assms(3) r] assms(1)
  have "w' = submit VMRefClosure (map (entries_packet name table wk wv fwd (length (w_latches w))) entries)
      (emit (Probe_initial_weak_table_stats es eb bn (up_st_get_num_entries up table (w_vm w)) name) w
        \<lparr>w_latches := w_latches w @
          [\<lparr>counter = of_nat (length entries), stage = VMRefClosure, packets = map (bins_packet name table) bins\<rparr>]\<rparr>)"
    by simp
  moreover from this have "latches_hold_bins w'"
    using assms(2) by (auto simp: latches_hold_bins_def bins_packet_def)
  ultimately show thesis
    using r that by blast
qed

lemma weak_table_starts:
  assumes run: "process_weak_table_chunked cfg up name table wk wv fwd w = Inr w'" "latches_hold_bins w"
    and sz: "up_st_get_size_info up table (w_vm w) = (es, eb, bn)"
    and chunk: "0 < st_entries_chunk_size (w_binding w)"
      "unat eb + unat (st_entries_chunk_size (w_binding w)) \<le> 2 ^ 64"
    and alone: "\<forall>p \<in> set (w_buckets w VMRefClosure). \<not> of_table name p \<and>
      keeps_apart name (length (w_latches w)) (w_latches w) p"
  obtains entries bins where
    "range_packets cfg 0 bn (st_entries_chunk_size (w_binding w)) (st_bins_chunk_size (w_binding w)) = Inr bins"
    "\<forall>i. coverage i entries = (if unat es \<le> i \<and> i < unat eb then 1 else 0)"
    "table_progress name table wk wv fwd (length (w_latches w)) entries bins
       (table_log name w @ [Probe_initial_weak_table_stats es eb bn (up_st_get_num_entries up table (w_vm w)) name]) w'"
proof -
  let ?aid = "length (w_latches w)"
  obtain entries bins where e:
    "range_packets cfg es eb (st_entries_chunk_size (w_binding w)) (st_entries_chunk_size (w_binding w)) = Inr entries"
    and b: "range_packets cfg 0 bn (st_entries_chunk_size (w_binding w)) (st_bins_chunk_size (w_binding w)) = Inr bins"
    and w': "w' = submit VMRefClosure (map (entries_packet name table wk wv fwd ?aid) entries)
      (emit (Probe_initial_weak_table_stats es eb bn (up_st_get_num_entries up table (w_vm w)) name) w
        \<lparr>w_latches := w_latches w @
          [\<lparr>counter = of_nat (length entries), stage = VMRefClosure, packets = map (bins_packet name table) bins\<rparr>]\<rparr>)"
    and holds: "latches_hold_bins w'"
    using run sz by (rule weak_table_submitted)
  have "tables_apart name ?aid w'"
    using alone holds by (auto simp: tables_apart_def w' entries_packet_def intro: keeps_apart_append)
  moreover have "filter (of_table name) (w_buckets w VMRefClosure) = []"
    using alone by (simp add: filter_empty_conv)
  then have "table_queue name w' = map (entries_packet name table wk wv fwd ?aid) entries"
    by (simp add: table_queue_def w' filter_map o_def entries_packet_def)
  then have "entries_left name table (entries_packet name table wk wv fwd ?aid) ?aid entries bins
      (table_log name w @ [Probe_initial_weak_table_stats es eb bn (up_st_get_num_entries up table (w_vm w)) name]) w'"
    unfolding entries_left_def by (intro exI [of _ "[]"] exI [of _ entries]) (simp add: w' entries_probes_def)
  ultimately have "table_progress name table wk wv fwd ?aid entries bins
       (table_log name w @ [Probe_initial_weak_table_stats es eb bn (up_st_get_num_entries up table (w_vm w)) name]) w'"
    using entries_packets_few [OF chunk e] by (simp add: table_progress_def)
  then show thesis
    using that b coverage_tiling [OF chunk e] by blast
qed

lemma weak_table_keeps_progress:
  assumes run: "process_weak_table_chunked cfg up nm tbl wk' wv' fwd' w = Inr w'" "nm \<noteq> name"
    and p: "table_progress name table wk wv fwd aid entries bins before w"
  shows "table_progress name table wk wv fwd aid entries bins before w'"
proof -
  obtain es eb bn where sz: "up_st_get_size_info up tbl (w_vm w) = (es, eb, bn)"
    by (cases "up_st_get_size_info up tbl (w_vm w)")
  have a: "latches_hold_bins w" "aid < length (w_latches w)"
    "\<forall>p \<in> set (w_buckets w VMRefClosure). keeps_apart name aid (w_latches w) p"
    using p by (simp_all add: table_progress_def tables_apart_def)
  obtain es' bs where w': "w' = submit VMRefClosure (map (entries_packet nm tbl wk' wv' fwd' (length (w_latches w))) es')
      (emit (Probe_initial_weak_table_stats es eb bn (up_st_get_num_entries up tbl (w_vm w)) nm) w
        \<lparr>w_latches := w_latches w @
          [\<lparr>counter = of_nat (length es'), stage = VMRefClosure, packets = map (bins_packet nm tbl) bs\<rparr>]\<rparr>)"
    and holds: "latches_hold_bins w'"
    using run(1) a(1) sz by (rule weak_table_submitted)
  have "tables_apart name aid w'"
    using a holds run(2)
    by (auto simp: tables_apart_def w' entries_packet_def bins_packet_def intro: keeps_apart_append)
  moreover have "table_queue name w' = table_queue name w"
    using run(2) by (auto simp: table_queue_def w' filter_empty_conv entries_packet_def)
  moreover have "table_log name w' = table_log name w" "w_latches w' ! aid = w_latches w ! aid"
    using run(2) a(2) by (simp_all add: w' nth_append)
  ultimately show ?thesis
    using p by (simp add: table_progress_def entries_left_def bins_left_def)
qed

text \<open>The two tables, when the closing bucket opens.\<close>

definition chunked_tables :: "'v ruby_upcalls \<Rightarrow> 'v \<Rightarrow> (string \<times> address) set" where
  "chunked_tables up v = {(''frozen strings'', up_get_frozen_strings_table up v),
     (''global symbols'', up_get_global_symbols_table up v)}"

lemma cleanup_keeps_progress:
  assumes "cleanup_ppps cfg core w = Inr w'" "table_progress name table wk wv fwd aid entries bins before w"
  shows "table_progress name table wk wv fwd aid entries bins before w'"
  using assms by (auto simp: cleanup_ppps_def Let_def bind_res_eq_Inr table_progress_submit split: if_splits)

lemma process_weak_refs_starts:
  assumes w4: "process_weak_refs cfg core up w = Inr (again, w')"
    and w: "latches_hold_bins w" "w_buckets w VMRefClosure = []"
    and table: "(name, table) \<in> chunked_tables up (w_vm w)" "up_st_get_size_info up table (w_vm w) = (es, eb, bn)"
    and chunk: "0 < st_entries_chunk_size (w_binding w)"
      "unat eb + unat (st_entries_chunk_size (w_binding w)) \<le> 2 ^ 64"
  obtains wk wv fwd aid entries bins where
    "range_packets cfg 0 bn (st_entries_chunk_size (w_binding w)) (st_bins_chunk_size (w_binding w)) = Inr bins"
    "\<forall>i. coverage i entries = (if unat es \<le> i \<and> i < unat eb then 1 else 0)"
    "table_progress name table wk wv fwd aid entries bins
       (table_log name w @ [Probe_initial_weak_table_stats es eb bn (up_st_get_num_entries up table (w_vm w)) name]) w'"
proof -
  let ?w2 = "submit VMRefClosure weak_packets (submit VMRefClosure [ProcessObjFreeCandidates] w)"
  let ?fs = "up_get_frozen_strings_table up (w_vm w)" and ?fwd = "mc_current_gc_may_move_object core (w_core w)"
  obtain w1 where w1: "process_weak_stuff cfg core up w = Inr w1" "cleanup_ppps cfg core w1 = Inr w'"
    using w4 by (auto simp: process_weak_refs_def bind_res_eq_Inr)
  then obtain w3 where
    w3: "process_weak_table_chunked cfg up ''frozen strings'' ?fs True False ?fwd ?w2 = Inr w3"
    and gs: "process_weak_table_chunked cfg up ''global symbols'' (up_get_global_symbols_table up (w_vm w3))
      False True ?fwd w3 = Inr w1"
    by (auto simp: process_weak_stuff_def Let_def bind_res_eq_Inr)
  have holds: "latches_hold_bins ?w2"
    using w(1) by (simp add: latches_hold_bins_def)
  obtain es1 eb1 bn1 where sz1: "up_st_get_size_info up ?fs (w_vm ?w2) = (es1, eb1, bn1)"
    by (cases "up_st_get_size_info up ?fs (w_vm ?w2)")
  from table(1) consider "name = ''frozen strings''" "table = ?fs"
    | "name = ''global symbols''" "table = up_get_global_symbols_table up (w_vm w)"
    by (auto simp: chunked_tables_def)
  then show thesis
  proof cases
    case 1
    have alone: "\<forall>p \<in> set (w_buckets ?w2 VMRefClosure). \<not> of_table ''frozen strings'' p \<and>
        keeps_apart ''frozen strings'' (length (w_latches ?w2)) (w_latches ?w2) p"
      using w(2) by (auto simp: weak_packets_def)
    have sz: "up_st_get_size_info up ?fs (w_vm ?w2) = (es, eb, bn)"
      and chunk2: "0 < st_entries_chunk_size (w_binding ?w2)"
        "unat eb + unat (st_entries_chunk_size (w_binding ?w2)) \<le> 2 ^ 64"
      using table(2) 1(2) chunk by simp_all
    obtain entries bins where
      "range_packets cfg 0 bn (st_entries_chunk_size (w_binding w)) (st_bins_chunk_size (w_binding w)) = Inr bins"
      "\<forall>i. coverage i entries = (if unat es \<le> i \<and> i < unat eb then 1 else 0)"
      "table_progress name table True False ?fwd (length (w_latches ?w2)) entries bins
         (table_log name w @ [Probe_initial_weak_table_stats es eb bn (up_st_get_num_entries up table (w_vm w)) name]) w3"
      by (rule weak_table_starts [OF w3 holds sz chunk2 alone]) (rule that, simp_all add: 1)
    note start = this(1,2) and p3 = this(3)
    have "''global symbols'' \<noteq> name"
      using 1(1) by simp
    from cleanup_keeps_progress [OF w1(2) weak_table_keeps_progress [OF gs this p3]] show thesis
      by (rule that [OF start])
  next
    case 2
    from w3 holds sz1 obtain ps bs where
      w3': "w3 = submit VMRefClosure (map (entries_packet ''frozen strings'' ?fs True False ?fwd (length (w_latches ?w2))) ps)
        (emit (Probe_initial_weak_table_stats es1 eb1 bn1 (up_st_get_num_entries up ?fs (w_vm ?w2)) ''frozen strings'') ?w2
          \<lparr>w_latches := w_latches ?w2 @ [\<lparr>counter = of_nat (length ps), stage = VMRefClosure,
             packets = map (bins_packet ''frozen strings'' ?fs) bs\<rparr>]\<rparr>)"
      and holds3: "latches_hold_bins w3"
      by (rule weak_table_submitted)
    have "\<forall>p \<in> set (w_buckets w3 VMRefClosure). \<not> of_table name p \<and>
        keeps_apart name (length (w_latches w3)) (w_latches w3) p"
      using w(2) 2(1) by (auto simp: w3' weak_packets_def entries_packet_def bins_packet_def)
    moreover have "w_vm w3 = w_vm w" "w_binding w3 = w_binding w" "table_log name w3 = table_log name w"
      using 2(1) by (simp_all add: w3')
    ultimately show thesis
      using weak_table_starts [OF gs holds3, of es eb bn] table(2) chunk 2 that cleanup_keeps_progress [OF w1(2)]
      by metis
  qed
qed

text \<open>What the progress says of the log.\<close>

lemma table_progress_story:
  assumes "table_progress name table wk wv fwd aid entries bins before w"
  obtains log where "table_log name w = before @ log" "table_story name entries bins log"
    "w_buckets w VMRefClosure = [] \<Longrightarrow> entries \<noteq> [] \<Longrightarrow> table_finished name entries bins log"
proof -
  have empty: "table_queue name w = []" if "w_buckets w VMRefClosure = []"
    using that by (simp add: table_queue_def)
  from assms consider
      "entries_left name table (entries_packet name table wk wv fwd aid) aid entries bins before w"
    | "bins_left name table entries bins before w"
    by (auto simp: table_progress_def)
  then show thesis
  proof cases
    case 1
    then obtain us todo where t: "table_log name w = before @ entries_probes name us" "us = [] \<or> todo \<noteq> []"
      "mset entries = mset (map fst us) + mset todo"
      "mset (table_queue name w) = mset (map (entries_packet name table wk wv fwd aid) todo)"
      by (auto simp: entries_left_def)
    have "mset todo = {#} \<Longrightarrow> us = []"
      using t(2) by simp
    then have "us = [] \<or> mset (map fst us) \<subset># mset entries"
      using t(3) by (metis add.right_neutral add_cancel_left_right mset_subset_eq_add_left subset_mset.less_le)
    then have "table_story name entries bins (entries_probes name us)"
      unfolding table_story_def by blast
    moreover have "entries = []" if "w_buckets w VMRefClosure = []"
      using t(2-4) empty [OF that] by auto
    ultimately show thesis
      using that [OF t(1)] by blast
  next
    case 2
    then obtain us n rs todo where t:
      "table_log name w = before @ entries_probes name us @ Probe_final_weak_table_stats n name # bins_probes name rs"
      "mset entries = mset (map fst us)" "mset bins = mset (map fst rs) + mset todo"
      "mset (table_queue name w) = mset (map (bins_packet name table) todo)"
      by (auto simp: bins_left_def)
    have "mset (map fst us) = mset entries" "mset (map fst rs) \<subseteq># mset bins"
      using t(2,3) by simp_all
    moreover have "todo = []" if "w_buckets w VMRefClosure = []"
      using t(4) empty [OF that] by simp
    ultimately show thesis
      using that [OF t(1)] t(3) unfolding table_story_def table_finished_def
      by (metis add.right_neutral mset.simps(1))
  qed
qed

section \<open>Properties\<close>


end
