(* ===== verification/Moving_Example.thy ===== *)
theory Moving_Example
  imports Ivar_Cycle Weak_Cycle
begin

text \<open>
  A collector that moves an object with generic ivars, for the witnesses of \<open>Ivar_Cycle\<close>: the heap of
  \<open>Evacuation\<close>, in which tracing copies the object at 1000 to 4104, with the VM of \<open>Example\<close>, whose
  table of ivars has an entry for it.
\<close>

section \<open>The VM\<close>

text \<open>That of \<open>Example\<close>, with 3000 entries and 8 bins in every weak table.\<close>

definition moving_upcalls :: "(objref \<rightharpoonup> address) ruby_upcalls" where
  "moving_upcalls = ivar_upcalls\<lparr>up_st_get_size_info := \<lambda>_ _. (0, 3000, 8)\<rparr>"

lemma moving_upcalls_contract: "givtbl_contract moving_upcalls ivar_table"
  using ivar_upcalls_contract by (simp add: givtbl_contract_def moving_upcalls_def)

section \<open>The collector\<close>

text \<open>Its own state: the forwarded objects and the pins.\<close>

type_synonym moving_state = "(address, (objref \<rightharpoonup> objref) \<times> objref set) traced"

definition trace_moving :: "objref \<Rightarrow> moving_state \<Rightarrow> objref \<times> moving_state" where
  "trace_moving ob m =
     (if ob = 1000 \<and> fst (tc_rest m) = Map.empty \<and> cs_mem (tc_copy m) = two_objects \<and> cs_ctx (tc_copy m) = 4096
      then (case object_copy debug_build moving_upcalls 8 bump_context [1000 \<mapsto> 512] ob () (tc_copy m) of
              Inl e \<Rightarrow> (ob, m)
            | Inr (new, s) \<Rightarrow> (new, m\<lparr>tc_copy := s, tc_rest := ([ob \<mapsto> new], snd (tc_rest m))\<rparr>))
      else (ob, m))"

definition moving_pins :: "moving_state \<Rightarrow> objref set" where
  "moving_pins m = snd (tc_rest m)"

definition put_pins :: "objref set \<Rightarrow> moving_state \<Rightarrow> moving_state" where
  "put_pins P m = m\<lparr>tc_rest := (fst (tc_rest m), P)\<rparr>"

definition moving_core :: "moving_state mmtk_core" where
  "moving_core = \<lparr>mc_is_reachable = (\<lambda>_ _. True), mc_is_live = (\<lambda>_ _. True),
     mc_get_forwarded_object = (\<lambda>ob m. fst (tc_rest m) ob), mc_current_gc_may_move_object = (\<lambda>_. True),
     mc_generational_nursery = (\<lambda>_. None),
     mc_pin_object = (\<lambda>ob m. (ob \<notin> moving_pins m, put_pins (insert ob (moving_pins m)) m)),
     mc_unpin_object = (\<lambda>ob m. (ob \<in> moving_pins m, put_pins (moving_pins m - {ob}) m)),
     mc_is_mmtk_object = (\<lambda>a _. Some a), mc_trace_object = trace_moving, mc_vo_bit_region_size = 8\<rparr>"

definition moving_env :: "(moving_state, objref \<rightharpoonup> address) gc_env" where
  "moving_env = \<lparr>env_build = debug_build, env_core = moving_core, env_up = moving_upcalls,
     env_set_order = sorted_list_of_set, env_map_order = sorted_map_order, env_workers = [4096 \<mapsto> 8192]\<rparr>"

definition moving_world :: "(moving_state, objref \<rightharpoonup> address) world" where
  "moving_world = example_world \<lparr>tc_copy = two_objects_state, tc_rest = (Map.empty, {})\<rparr> [1000 \<mapsto> 512] example_binding"

lemma moving_env_simps [simp]:
  "env_build moving_env = debug_build" "env_core moving_env = moving_core" "env_up moving_env = moving_upcalls"
  "env_set_order moving_env = sorted_list_of_set" "env_map_order moving_env = sorted_map_order"
  "env_workers moving_env = [4096 \<mapsto> 8192]"
  by (simp_all add: moving_env_def)

lemma moving_core_simps [simp]:
  "mc_get_forwarded_object moving_core ob m = fst (tc_rest m) ob"
  "mc_trace_object moving_core ob m = trace_moving ob m"
  "mc_current_gc_may_move_object moving_core m = True"
  "mc_pin_object moving_core ob m = (ob \<notin> moving_pins m, put_pins (insert ob (moving_pins m)) m)"
  "mc_unpin_object moving_core ob m = (ob \<in> moving_pins m, put_pins (moving_pins m - {ob}) m)"
  by (simp_all add: moving_core_def)

lemma put_pins_simps [simp]:
  "moving_pins (put_pins P m) = P" "tc_copy (put_pins P m) = tc_copy m" "fst (tc_rest (put_pins P m)) = fst (tc_rest m)"
  by (simp_all add: moving_pins_def put_pins_def)

section \<open>What it does\<close>

lemma two_objects_size: "object_size debug_build 8 two_objects (from_objref 1000) = Inr 56"
  using two_objects_ok [of 1000] by (simp add: object_ok_def)

lemma copy_two_objects:
  assumes "cs_mem s = two_objects" "cs_ctx s = 4096"
    and "object_copy debug_build moving_upcalls 8 bump_context [1000 \<mapsto> 512] 1000 () s = Inr (new, s')"
  shows "new = 4104"
  using assms two_objects_flags(1)
  by (auto simp: object_copy_def Let_def bind_res_eq_Inr two_objects_size bump_context_def OBJREF_OFFSET_def)

lemma moving_traces:
  "traces_by_copying moving_env 8 bump_context (\<lambda>v. ivar_table v = ivar_table [1000 \<mapsto> 512])
     (fresh_copy moving_core (ivar_table [1000 \<mapsto> 512]))"
  unfolding traces_by_copying_def
proof (intro allI impI)
  fix m :: moving_state and ob new m'
  assume t: "mc_trace_object (env_core moving_env) ob m = (new, m')"
  show "tc_copy m' = tc_copy m \<and> forwarded (env_core moving_env) m' = forwarded (env_core moving_env) m \<or>
    (\<exists>sem v n. ivar_table v = ivar_table [1000 \<mapsto> 512] \<and>
       object_copy (env_build moving_env) (env_up moving_env) 8 bump_context v ob sem (tc_copy m) = Inr (new, tc_copy m') \<and>
       object_size (env_build moving_env) 8 (cs_mem (tc_copy m)) (from_objref ob) = Inr n \<and>
       fresh_copy moving_core (ivar_table [1000 \<mapsto> 512]) ob new n m \<and>
       forwarded (env_core moving_env) m' = (forwarded (env_core moving_env) m)(ob \<mapsto> new))"
  proof (cases "m' = m")
    case False
    then obtain s where o: "ob = 1000" "fst (tc_rest m) = Map.empty" "cs_mem (tc_copy m) = two_objects"
      "cs_ctx (tc_copy m) = 4096"
      and c: "object_copy debug_build moving_upcalls 8 bump_context [1000 \<mapsto> 512] 1000 () (tc_copy m) = Inr (new, s)"
      and m': "m' = m\<lparr>tc_copy := s, tc_rest := ([1000 \<mapsto> new], snd (tc_rest m))\<rparr>"
      using t by (auto simp: trace_moving_def split: if_splits sum.splits prod.splits)
    have new: "new = 4104"
      using copy_two_objects [OF o(3,4) c] .
    have "fresh_copy moving_core (ivar_table [1000 \<mapsto> 512]) ob new 56 m"
      by (simp add: fresh_copy_def o new ivar_table_def)
    then show ?thesis
      using c by (intro disjI2 exI [of _ "()"] exI [of _ "[1000 \<mapsto> 512]"] exI [of _ 56])
        (simp add: o m' two_objects_size fun_eq_iff)
  qed simp
qed

lemma moving_traces_any: "traces_by_copying moving_env 8 bump_context (\<lambda>_. True) (\<lambda>_ _ _ _. True)"
  using moving_traces by (rule traces_by_copying_mono) simp_all

lemma moving_steady: "tracer_steady moving_core moving_pins"
proof -
  have "moving_pins (snd (trace_moving ob m)) = moving_pins m" for ob m
    by (auto simp: trace_moving_def moving_pins_def split: sum.split prod.split)
  moreover have "moving_pins (with_binding b m) = moving_pins m" for b m
    by (simp add: moving_pins_def with_binding_def)
  ultimately show ?thesis
    by (simp add: tracer_steady_def)
qed

lemma moving_pin_contract: "pin_contract moving_core moving_pins"
  by (simp add: pin_contract_def)

lemma moving_pins_heap: "pins_keep_heap moving_core"
  by (simp add: pins_keep_heap_def same_heap_def) (simp add: moving_core_def)

lemma moving_ivars: "ivar_contract moving_env ivar_table (\<lambda>_. True)"
proof -
  have roots: "scan = VM_done" if "scan_roots moving_upcalls packet = Some scan" for packet scan
    using that by (cases packet) (simp_all add: moving_upcalls_def ivar_upcalls_def null_upcalls_def)
  then have "scans_keep (\<lambda>v v'. ivar_table v' = ivar_table v) moving_upcalls"
    unfolding scans_keep_def by (auto dest: roots) (simp_all add: moving_upcalls_def ivar_upcalls_def null_upcalls_def)
  moreover have "updates_keep (same_ivars ivar_table (\<lambda>_. True)) moving_upcalls"
    by (simp add: updates_keep_def moving_upcalls_def ivar_upcalls_def null_upcalls_def same_ivars_def)
  ultimately show ?thesis
    using moving_upcalls_contract sorted_map_order by (simp add: ivar_contract_def)
qed

lemma moving_world_simps [simp]:
  "w_core moving_world = \<lparr>tc_copy = two_objects_state, tc_rest = (Map.empty, {})\<rparr>"
  "w_vm moving_world = [1000 \<mapsto> 512]" "w_binding moving_world = example_binding"
  by (simp_all add: moving_world_def)

lemma moving_settled: "settled moving_world"
  by (simp add: settled_def quiescent_def moving_world_def example_world_def pinned_list_def latches_ok_def
      latches_hold_bins_def wb_view_def registries_free_def weak_processor_new_def ppp_registry_new_def)

lemma moving_gc: "ivar_gc moving_env moving_pins 8 bump_context ivar_table (\<lambda>_. True) moving_world"
proof -
  have "untraced moving_core (ivar_table [1000 \<mapsto> 512]) \<lparr>tc_copy = two_objects_state, tc_rest = (Map.empty, {})\<rparr>"
    by (simp add: untraced_def two_objects_state_def ivar_table_def two_objects_flags)
  then have "ivars_settled moving_core ivar_table moving_world"
    using moving_settled by (simp add: ivars_settled_def)
  then show ?thesis
    using moving_pin_contract moving_pins_heap moving_steady moving_ivars moving_traces
    by (simp add: ivar_gc_def moving_world_def)
qed

section \<open>A cycle that moves the object\<close>

lemma moving_sound:
  "gc_sound moving_env (\<lambda>_ _. True) 1024 4096 (callback_trace moving_env)" "sound (\<lambda>_ _. True) 1024 4096 moving_world"
proof -
  have "env_up moving_env = ivar_upcalls\<lparr>up_st_get_size_info := \<lambda>_ _. (0, 3000, 8)\<rparr>"
    by (simp add: moving_upcalls_def)
  then have "env_sound moving_env (good_in (env_core moving_env) (\<lambda>_ _. True) moving) 1024 4096" for moving
    by (rule quiet_env_sound) (simp_all add: moving_core_def)
  moreover have "sound (\<lambda>_ _. True) 1024 4096 w'"
    if "callback_trace moving_env w w'" "sound (\<lambda>_ _. True) 1024 4096 w" for w w'
    using that only_moves_simps [OF callback_trace_frame(1) [OF moving_traces_any that(1)]]
    by (simp add: sound_def mutexes_free_def registries_free_def)
  moreover have "\<exists>w'. callback_trace moving_env w w'" for w
    by (auto simp: callback_trace_def)
  ultimately show "gc_sound moving_env (\<lambda>_ _. True) 1024 4096 (callback_trace moving_env)"
    by (simp add: gc_sound_def gc_mode_def)
  show "sound (\<lambda>_ _. True) 1024 4096 moving_world"
    by (simp add: sound_def mutexes_free_def registries_free_def moving_world_def weak_processor_new_def
        ppp_registry_new_def)
qed

lemma moving_contract: "gc_contract moving_env moving_pins (callback_trace moving_env)"
  using callback_trace_contract [OF moving_traces_any] moving_steady moving_pin_contract moving_pins_heap
    sorted_set_order by (simp add: gc_contract_def)

lemma moving_stop:
  "stop_all_mutators (env_build moving_env) (env_core moving_env) (env_up moving_env)
     (tls_view (env_workers moving_env) :: address \<rightharpoonup> unit gc_thread_tls) 4096 (\<lambda>_ f. f) ([] :: address list)
     moving_world = Inr ([], moving_world)"
  by (simp add: stop_all_mutators_def pin_ppp_children_def example_view tls_worker_def for_worker_def
      gc_thread_tls_new_def moving_world_def ppp_registry_new_def moving_upcalls_def ivar_upcalls_def null_upcalls_def)

lemma moving_no_packets: "(prepare_step moving_env)\<^sup>*\<^sup>* moving_world moving_world"
  by simp

text \<open>The world when the object has been traced.\<close>

definition moved_world :: "(moving_state, objref \<rightharpoonup> address) world" where
  "moved_world = (lend_binding moving_world)\<lparr>w_core := snd (trace_moving 1000 (w_core (lend_binding moving_world)))\<rparr>"

lemma moved_world_trace: "(trace_call moving_env)\<^sup>*\<^sup>* (lend_binding moving_world) moved_world"
  using trace_root [of moving_env "lend_binding moving_world" 1000] by (simp add: moved_world_def r_into_rtranclp)

lemma moved_world_forwarded: "fst (tc_rest (w_core moved_world)) = [1000 \<mapsto> 4104]"
proof -
  let ?m = "w_core (lend_binding moving_world)"
  have m: "fst (tc_rest ?m) = Map.empty" "cs_mem (tc_copy ?m) = two_objects" "cs_ctx (tc_copy ?m) = 4096"
    "traced_binding ?m = example_binding"
    by (simp_all add: moving_world_def two_objects_state_def)
  have "copy_ready debug_build moving_upcalls 8 bump_context [1000 \<mapsto> 512] 1000 () (tc_copy ?m) 56 4096"
    unfolding copy_ready_def m by (simp add: two_objects_size two_objects_flags bump_context_def disjoint_regions_def
        OBJREF_OFFSET_def get_original_givtbl_def moving_upcalls_def ivar_upcalls_def mutex_new_def)
  then obtain s where "object_copy debug_build moving_upcalls 8 bump_context [1000 \<mapsto> 512] 1000 () (tc_copy ?m) =
      Inr (4096 + OBJREF_OFFSET, s)"
    by (rule object_copy_runs)
  then show ?thesis
    using m by (simp add: moved_world_def trace_moving_def OBJREF_OFFSET_def)
qed

lemma moved_world_closes:
  obtains again w4 w5 where
    "process_weak_refs (env_build moving_env) (env_core moving_env) (env_up moving_env) (return_binding moved_world) =
       Inr (again, w4)"
    "(bucket_step moving_env VMRefClosure)\<^sup>*\<^sup>* w4 w5" "w_buckets w5 VMRefClosure = []"
proof -
  have t: "callback_trace moving_env moving_world (return_binding moved_world)"
    using moved_world_trace by (auto simp: callback_trace_def)
  have b: "w_buckets moving_world Prepare = []"
    by (simp add: moving_world_def)
  obtain again w4 where
    w4: "process_weak_refs (env_build moving_env) (env_core moving_env) (env_up moving_env)
        (return_binding moved_world) = Inr (again, w4)"
      "\<And>w5. (bucket_step moving_env VMRefClosure)\<^sup>*\<^sup>* w4 w5 \<Longrightarrow>
       \<exists>w6. (bucket_step moving_env VMRefClosure)\<^sup>*\<^sup>* w5 w6 \<and> w_buckets w6 VMRefClosure = []"
  proof (rule closing_completes [OF moving_contract moving_sound(1) _ b t])
    show "env_workers moving_env 4096 = Some 8192"
      by simp
    show "prepare_ready moving_env moving_pins (moving_pins (w_core moving_world))
        (gc_mode (env_core moving_env) moving_world)
        (good_in (env_core moving_env) (\<lambda>_ _. True) (gc_mode (env_core moving_env) moving_world)) 1024 4096 moving_world"
      using cycle_prepare_ready [OF moving_contract moving_sound(1) moving_settled moving_sound(2) moving_stop] .
  qed (rule that)
  with w4(2) [OF rtranclp.rtrancl_refl] show thesis
    using that by blast
qed

section \<open>Witnesses\<close>

theorem callback_tracing_meets_contract_witness:
  "gc_contract moving_env moving_pins (callback_trace moving_env)"
  using callback_tracing_meets_contract [OF moving_traces_any] moving_steady moving_pin_contract moving_pins_heap
    sorted_set_order by simp

theorem ivars_found_during_gc_witness:
  "get_givtbl moving_upcalls (traced_binding (w_core moved_world)) (w_vm moved_world) 4104 = Inr 512 \<and>
   (\<exists>w5 :: (moving_state, objref \<rightharpoonup> address) world. w_buckets w5 VMRefClosure = [] \<and>
      get_givtbl moving_upcalls (w_binding w5) (w_vm w5) 4104 = Inr 512)"
proof -
  have ob: "ivar_table (w_vm moving_world) 1000 = Some 512"
    by (simp add: ivar_table_def)
  obtain again w4 w5 where
    "process_weak_refs (env_build moving_env) (env_core moving_env) (env_up moving_env) (return_binding moved_world) =
       Inr (again, w4)"
    "(bucket_step moving_env VMRefClosure)\<^sup>*\<^sup>* w4 w5" "w_buckets w5 VMRefClosure = []"
    by (rule moved_world_closes)
  moreover note ivars_found_during_gc [where ob = 1000 and w = moving_world and tbl = ivar_table, OF moving_gc
      moving_stop moving_no_packets moved_world_trace ob, of again w4 w5]
  ultimately show ?thesis
    by (auto simp: forward_cases moved_world_forwarded)
qed

theorem gc_cycle_carries_ivars_witness:
  "\<exists>w5 :: (moving_state, objref \<rightharpoonup> address) world.
     mutex_data (moved_givtbl (w_binding w5)) = Map.empty \<and> ivar_table (w_vm w5) 4104 = Some 512 \<and>
     ivar_table (w_vm w5) 1000 = None"
proof -
  have t: "callback_trace moving_env moving_world (return_binding moved_world)"
    using moved_world_trace by (auto simp: callback_trace_def)
  obtain again w4 w5 where
    "process_weak_refs (env_build moving_env) (env_core moving_env) (env_up moving_env) (return_binding moved_world) =
       Inr (again, w4)"
    "(bucket_step moving_env VMRefClosure)\<^sup>*\<^sup>* w4 w5" "w_buckets w5 VMRefClosure = []"
    by (rule moved_world_closes)
  from gc_cycle_carries_ivars [OF moving_gc moving_stop moving_no_packets t this]
  have "mutex_data (moved_givtbl (w_binding w5)) = Map.empty \<and> ivar_table (w_vm w5) 4104 = Some 512 \<and>
      ivar_table (w_vm w5) 1000 = None"
    by (simp add: return_binding_def moved_world_forwarded ivar_table_def)
  then show ?thesis
    by blast
qed


end
