(* ===== verification/Thread_Cycle.thy ===== *)
theory Thread_Cycle
  imports Gc_Progress
begin

text \<open>
  The GC threads of \<open>Collection\<close> as the workers of a GC: a process is a world together with its
  threads, which share the binding and the VM. Threads are spawned, begin, quit and are joined while
  others execute packets; a packet is executed by a running thread, with the pointer to its own record.
\<close>

section \<open>Which worker executes a packet\<close>

text \<open>Of the workers a packet looks at the record of its own thread only.\<close>

lemma from_vwt_check_cong:
  "tls_mem tls = tls_mem' tls \<Longrightarrow> from_vwt_check cfg tls_mem tls = from_vwt_check cfg tls_mem' tls"
  by (simp add: from_vwt_check_def check_cast_def from_vwt_def)

lemma do_work_workers:
  assumes "W tls = env_workers env tls"
  shows "do_work (env\<lparr>env_workers := W\<rparr>) tls packet w = do_work env tls packet w"
proof -
  have u: "from_vwt_check cfg (tls_view W :: address \<rightharpoonup> unit gc_thread_tls) tls =
      from_vwt_check cfg (tls_view (env_workers env)) tls" for cfg
    using assms by (intro from_vwt_check_cong) (simp add: tls_view_def)
  have l: "from_vwt_check cfg (tls_view W :: address \<rightharpoonup> objref list gc_thread_tls) tls =
      from_vwt_check cfg (tls_view (env_workers env)) tls" for cfg
    using assms by (intro from_vwt_check_cong) (simp add: tls_view_def)
  have r: "from_vwt_check cfg (tls_view W :: address \<rightharpoonup> (objref list \<times> objref list list) gc_thread_tls) tls =
      from_vwt_check cfg (tls_view (env_workers env)) tls" for cfg
    using assms by (intro from_vwt_check_cong) (simp add: tls_view_def)
  show ?thesis
    by (cases packet) (simp_all add: do_work_def Let_def global_table_do_work_def global_root_do_work_def
        pin_ppp_children_do_work_def scan_wb_unprotected_roots_do_work_def u l r)
qed

text \<open>The join handles are none of the packets' business.\<close>

lemma do_work_join_handles:
  assumes "do_work env tls packet w = Inr w'"
  shows "gc_thread_join_handles (w_binding w') = gc_thread_join_handles (w_binding w)"
  using assms
proof (cases rule: do_work_result)
  case (pin chunk)
  from pin(2) show ?thesis
    by (rule pin_do_work_result) (simp add: world_put_defs)
next
  case (entries name tbl b e wk wv fwd aid)
  then show ?thesis
    by (auto simp: table_entries_do_work_def Let_def case_prod_beta split: if_splits)
qed (simp_all add: world_put_defs)

section \<open>Processes\<close>

record ('m, 'v) process =
  pr_world :: "('m, 'v) world"
  pr_threads :: "('v, unit) thread_sys"

text \<open>The contexts of the running threads, by the pointers to their records.\<close>

definition live_workers :: "('v, 's) thread_sys \<Rightarrow> address \<rightharpoonup> address" where
  "live_workers s p = (if \<exists>t. ts_phase s t = Running p then map_option gc_context (ts_tls s p) else None)"

definition at_work :: "('m, 'v) gc_env \<Rightarrow> ('m, 'v) process \<Rightarrow> ('m, 'v) gc_env" where
  "at_work env q = env\<lparr>env_workers := live_workers (pr_threads q)\<rparr>"

definition share :: "('m, 'v) world \<Rightarrow> ('v, 's) thread_sys \<Rightarrow> ('v, 's) thread_sys" where
  "share w s = s\<lparr>ts_vm := w_vm w, ts_statics := (ts_statics s)\<lparr>BINDING := Some (w_binding w)\<rparr>\<rparr>"

inductive process_step ::
  "('m, 'v) gc_env \<Rightarrow> work_bucket_stage \<Rightarrow> ('m, 'v) process \<Rightarrow> ('m, 'v) process \<Rightarrow> bool"
  for env st where
  thread_acts: "thread_step (env_up env) (pr_threads q) s \<Longrightarrow> BINDING (ts_statics s) = Some b \<Longrightarrow>
     process_step env st q
       \<lparr>pr_world = (pr_world q)\<lparr>w_vm := ts_vm s, w_binding := b\<rparr>, pr_threads = s\<rparr>"
| worker_takes: "ts_phase (pr_threads q) t = Running tls \<Longrightarrow>
     w_buckets (pr_world q) st = xs @ packet # ys \<Longrightarrow>
     do_work (at_work env q) tls packet
       ((pr_world q)\<lparr>w_buckets := (w_buckets (pr_world q))(st := xs @ ys)\<rparr>) = Inr w' \<Longrightarrow>
     process_step env st q \<lparr>pr_world = w', pr_threads = share w' (pr_threads q)\<rparr>"

definition process_inv :: "('m, 'v) process \<Rightarrow> bool" where
  "process_inv q \<longleftrightarrow> thread_inv (pr_threads q) \<and> ts_vm (pr_threads q) = w_vm (pr_world q) \<and>
     BINDING (ts_statics (pr_threads q)) = Some (w_binding (pr_world q))"

lemma share_simps [simp]:
  "ts_phase (share w s) = ts_phase s" "ts_tls (share w s) = ts_tls s" "ts_vm (share w s) = w_vm w"
  "ts_unpushed (share w s) = ts_unpushed s" "ts_joined (share w s) = ts_joined s"
  "BINDING (ts_statics (share w s)) = Some (w_binding w)" "live_workers (share w s) = live_workers s"
  "GC_THREADS (ts_statics (share w s)) = GC_THREADS (ts_statics s)"
  by (simp_all add: share_def live_workers_def fun_eq_iff)

lemma running_record:
  assumes "thread_inv s" "ts_phase s t = Running p"
  obtains tls where "ts_tls s p = Some tls" "kind tls = GC_THREAD_KIND_WORKER"
    "object_closure tls = object_closure_default" "p \<noteq> 0"
proof -
  have "idle_gc_thread (ts_tls s) p"
    using assms unfolding thread_inv_def by blast
  with that show thesis
    by (auto simp: idle_gc_thread_def)
qed

lemma live_workersD:
  assumes "thread_inv s"
  shows "live_workers s p \<noteq> None \<Longrightarrow> p \<noteq> 0"
    and "ts_phase s t = Running p \<Longrightarrow> live_workers s p \<noteq> None"
proof -
  show "p \<noteq> 0" if l: "live_workers s p \<noteq> None"
  proof -
    obtain t where "ts_phase s t = Running p"
      using l by (auto simp: live_workers_def split: if_splits)
    with assms show ?thesis
      by (rule running_record)
  qed
  show "live_workers s p \<noteq> None" if r: "ts_phase s t = Running p"
    using assms r by (rule running_record) (use r in \<open>auto simp: live_workers_def\<close>)
qed

text \<open>The record a worker reads is its own.\<close>

lemma live_record:
  assumes "thread_inv s" "ts_phase s t = Running p"
  shows "tls_view (live_workers s) p = ts_tls s p"
  using assms
  by (rule running_record)
    (use assms(2) in \<open>auto simp: tls_view_def live_workers_def for_worker_def gc_thread_tls_new_def\<close>)

lemma share_inv:
  assumes "thread_inv s" "BINDING (ts_statics s) = Some b"
    and "gc_thread_join_handles (w_binding w) = gc_thread_join_handles b"
  shows "thread_inv (share w s)"
proof -
  have "join_handles (ts_statics (share w s)) = join_handles (ts_statics s)"
    "gc_threads (ts_statics (share w s)) = gc_threads (ts_statics s)"
    "statics_ok (ts_statics (share w s)) = statics_ok (ts_statics s)"
    using assms(2,3) by (simp_all add: join_handles_def gc_threads_def statics_ok_def)
  with assms(1) show ?thesis
    by (simp add: thread_inv_def)
qed

text \<open>What the actions of threads do to the binding and the VM.\<close>

lemma thread_step_shared:
  assumes "thread_step up s s'" "BINDING (ts_statics s) = Some b" "BINDING (ts_statics s') = Some b'"
  shows "(\<exists>h. b' = b\<lparr>gc_thread_join_handles := h\<rparr>) \<and>
    (ts_vm s' = ts_vm s \<or> (\<exists>p. ts_vm s' = up_init_gc_worker_thread up p (ts_vm s)))"
proof -
  have same: "\<exists>h. b = b\<lparr>gc_thread_join_handles := h\<rparr>"
    by (rule exI [of _ "gc_thread_join_handles b"]) simp
  have put: "BINDING g' = BINDING g" if "register_gc_thread t g = Inr g' \<or> unregister_gc_thread t g = Inr g'" for t g g'
    using that by (auto simp: register_gc_thread_def unregister_gc_thread_def bind_res_eq_Inr)
  from assms(1) show ?thesis
  proof cases
    case (thread_push t g)
    then show ?thesis
      using assms by (auto simp: push_join_handle_def binding_def bind_res_eq_Inr)
  next
    case (thread_begin t p worker g v tls_mem)
    then show ?thesis
      using assms same put [of t "ts_statics s" g] by (auto simp: gc_thread_begin_def bind_res_eq_Inr)
  next
    case (thread_end t p g)
    then show ?thesis
      using assms same put [of t "ts_statics s" g] by (auto simp: gc_thread_end_def)
  next
    case (thread_join b0 joined g)
    then show ?thesis
      using assms by (auto simp: join_gc_threads_def join_all_gc_threads_def binding_def bind_res_eq_Inr)
  qed (use assms same in auto)
qed

section \<open>Buckets in a process\<close>

text \<open>
  A bucket that can make progress with any workers, and whose invariant the initialisation of a worker
  and the storing of join handles keep, makes progress while threads come and go.
\<close>

locale threaded_bucket =
  fixes env :: "('m, 'v) gc_env" and st :: work_bucket_stage and I :: "('m, 'v) world \<Rightarrow> bool"
  assumes any_workers: "\<forall>p. W p \<noteq> None \<longrightarrow> p \<noteq> 0 \<Longrightarrow> bucket_progress (env\<lparr>env_workers := W\<rparr>) st I"
    and init_keeps: "I w \<Longrightarrow> I (w\<lparr>w_vm := up_init_gc_worker_thread (env_up env) p (w_vm w)\<rparr>)"
    and handles_keep: "I w \<Longrightarrow> I (w\<lparr>w_binding := (w_binding w)\<lparr>gc_thread_join_handles := h\<rparr>\<rparr>)"
begin

lemma working: "process_inv q \<Longrightarrow> bucket_progress (at_work env q) st I"
  unfolding at_work_def by (intro any_workers) (auto simp: process_inv_def dest: live_workersD)

lemma worker_known:
  assumes "process_inv q" "ts_phase (pr_threads q) t = Running tls"
  obtains ctx where "env_workers (at_work env q) tls = Some ctx"
  using live_workersD(2) [of "pr_threads q" t tls] assms by (auto simp: process_inv_def at_work_def)

lemma process_step_keeps:
  assumes "process_step env st q q'" "process_inv q" "I (pr_world q)"
  shows "process_inv q' \<and> I (pr_world q')"
  using assms(1)
proof cases
  case (thread_acts s b)
  let ?w = "pr_world q"
  obtain h where b: "b = (w_binding ?w)\<lparr>gc_thread_join_handles := h\<rparr>"
    and v: "ts_vm s = w_vm ?w \<or> (\<exists>p. ts_vm s = up_init_gc_worker_thread (env_up env) p (w_vm ?w))"
    using thread_step_shared [OF thread_acts(2) _ thread_acts(3)] assms(2) by (auto simp: process_inv_def)
  have "I (?w\<lparr>w_vm := ts_vm s\<rparr>)"
    using v assms(3) init_keeps by auto
  from handles_keep [OF this, of h] have "I (?w\<lparr>w_vm := ts_vm s, w_binding := b\<rparr>)"
    by (simp add: b)
  moreover have "thread_inv s"
    using thread_step_inv [OF thread_acts(2)] assms(2) by (simp add: process_inv_def)
  ultimately show ?thesis
    using thread_acts by (simp add: process_inv_def)
next
  case (worker_takes t tls xs packet ys w')
  obtain ctx where ctx: "env_workers (at_work env q) tls = Some ctx"
    using worker_known [OF assms(2) worker_takes(2)] .
  have "I w'"
    using bucket_invariant.packet_keeps [OF bucket_progress.axioms(1) [OF working [OF assms(2)]]
      worker_takes(3) assms(3) ctx worker_takes(4)] .
  moreover have "thread_inv (share w' (pr_threads q))"
    using assms(2) do_work_join_handles [OF worker_takes(4)] by (intro share_inv) (simp_all add: process_inv_def)
  ultimately show ?thesis
    using worker_takes by (simp add: process_inv_def)
qed

lemma process_run_keeps:
  "(process_step env st)\<^sup>*\<^sup>* q q' \<Longrightarrow> process_inv q \<Longrightarrow> I (pr_world q) \<Longrightarrow> process_inv q' \<and> I (pr_world q')"
  by (induction rule: rtranclp_induct) (auto dest: process_step_keeps)

lemma packet_returns:
  assumes "process_inv q" "I (pr_world q)" "ts_phase (pr_threads q) t = Running tls"
    and "w_buckets (pr_world q) st = xs @ packet # ys"
  shows "\<exists>w'. do_work (at_work env q) tls packet
    ((pr_world q)\<lparr>w_buckets := (w_buckets (pr_world q))(st := xs @ ys)\<rparr>) = Inr w'"
proof -
  obtain ctx where "env_workers (at_work env q) tls = Some ctx"
    using worker_known [OF assms(1,3)] .
  then show ?thesis
    by (rule bucket_progress.returns [OF working [OF assms(1)] assms(2,4)])
qed

text \<open>One running thread is enough to drain the bucket.\<close>

lemma process_drains:
  assumes "process_inv q" "I (pr_world q)" "ts_phase (pr_threads q) t = Running tls"
  shows "\<exists>q'. (process_step env st)\<^sup>*\<^sup>* q q' \<and> w_buckets (pr_world q') st = [] \<and> process_inv q' \<and>
    I (pr_world q') \<and> ts_phase (pr_threads q') = ts_phase (pr_threads q)"
  using assms
proof (induction "packets_left st (pr_world q)" arbitrary: q rule: less_induct)
  case less
  show ?case
  proof (cases "w_buckets (pr_world q) st")
    case (Cons packet ys)
    then have b: "w_buckets (pr_world q) st = [] @ packet # ys"
      by simp
    obtain w' where d: "do_work (at_work env q) tls packet
        ((pr_world q)\<lparr>w_buckets := (w_buckets (pr_world q))(st := [] @ ys)\<rparr>) = Inr w'"
      using packet_returns [OF less.prems b] by blast
    let ?q = "\<lparr>pr_world = w', pr_threads = share w' (pr_threads q)\<rparr>"
    have step: "process_step env st q ?q"
      using less.prems(3) b d by (rule worker_takes)
    obtain ctx where "env_workers (at_work env q) tls = Some ctx"
      using worker_known [OF less.prems(1,3)] .
    from bucket_step_packets_left [OF take_packet [OF b this d]]
    have "packets_left st (pr_world ?q) < packets_left st (pr_world q)"
      by simp
    from less.hyps [OF this] process_step_keeps [OF step less.prems(1,2)] less.prems(3)
    obtain q' where "(process_step env st)\<^sup>*\<^sup>* ?q q'" "w_buckets (pr_world q') st = []" "process_inv q'"
      "I (pr_world q')" "ts_phase (pr_threads q') = ts_phase (pr_threads q)"
      by auto
    with step show ?thesis
      by (blast intro: converse_rtranclp_into_rtranclp)
  qed (use less.prems in blast)
qed

end

text \<open>\<open>init_gc_worker_thread\<close> keeps what is assumed of the VM.\<close>

definition init_good :: "('m \<Rightarrow> 'v \<Rightarrow> bool) \<Rightarrow> 'v ruby_upcalls \<Rightarrow> bool" where
  "init_good good up \<longleftrightarrow> (\<forall>m v p. good m v \<longrightarrow> good m (up_init_gc_worker_thread up p v))"

lemma bucket_progress_conj:
  assumes "bucket_progress env st J"
  shows "bucket_progress env st (\<lambda>w. C \<and> J w)"
  using bucket_invariant.packet_keeps [OF bucket_progress.axioms(1) [OF assms]] bucket_progress.returns [OF assms]
  by unfold_locales blast+

lemma sound_handles [simp]:
  "sound good ec bc (w\<lparr>w_binding := (w_binding w)\<lparr>gc_thread_join_handles := h\<rparr>\<rparr>) = sound good ec bc w"
  by (simp add: sound_def mutexes_free_def registries_free_def)

lemma env_sound_workers:
  assumes "\<forall>p. W p \<noteq> None \<longrightarrow> p \<noteq> 0"
  shows "env_sound (env\<lparr>env_workers := W\<rparr>) good ec bc = env_sound (env\<lparr>env_workers := Map.empty\<rparr>) good ec bc"
  using assms by (auto simp: env_sound_def)

text \<open>Both buckets of a GC. Their invariants do not depend on the workers.\<close>

definition closing_steady ::
  "('m, 'v) gc_env \<Rightarrow> ('m \<Rightarrow> objref set) \<Rightarrow> objref set \<Rightarrow> ('m \<Rightarrow> 'v \<Rightarrow> bool) \<Rightarrow> usize \<Rightarrow> usize \<Rightarrow> 'm \<Rightarrow>
   ('m, 'v) world \<Rightarrow> bool" where
  "closing_steady env pinned P good ec bc m w \<longleftrightarrow> init_good good (env_up env) \<and>
     closing_ready (env\<lparr>env_workers := Map.empty\<rparr>) pinned P good ec bc m w"

lemma closing_steady_workers:
  assumes "\<forall>p. W p \<noteq> None \<longrightarrow> p \<noteq> 0"
  shows "closing_steady env pinned P good ec bc m =
    (\<lambda>w. init_good good (env_up env) \<and> closing_ready (env\<lparr>env_workers := W\<rparr>) pinned P good ec bc m w)"
  by (simp add: closing_steady_def closing_ready_def env_sound_workers [OF assms] fun_eq_iff)

interpretation threaded_closing: threaded_bucket env VMRefClosure "closing_steady env pinned P good ec bc m"
  for env :: "('m, 'v) gc_env" and pinned P good ec bc m
proof (rule threaded_bucket.intro)
  fix W :: "address \<rightharpoonup> address"
  assume "\<forall>p. W p \<noteq> None \<longrightarrow> p \<noteq> 0"
  then show "bucket_progress (env\<lparr>env_workers := W\<rparr>) VMRefClosure (closing_steady env pinned P good ec bc m)"
    by (simp only: closing_steady_workers bucket_progress_conj [OF closing_progress.bucket_progress_axioms])
next
  fix w :: "('m, 'v) world" and p
  assume c: "closing_steady env pinned P good ec bc m w"
  then have "good (w_core w) (up_init_gc_worker_thread (env_up env) p (w_vm w))"
    by (simp add: closing_steady_def closing_ready_def init_good_def sound_def)
  with c show "closing_steady env pinned P good ec bc m (w\<lparr>w_vm := up_init_gc_worker_thread (env_up env) p (w_vm w)\<rparr>)"
    by (simp add: closing_steady_def closing_ready_def sound_def closing_inv_def closing_ctx_def pinned_list_def latches_ok_def latches_hold_bins_def)
next
  fix w :: "('m, 'v) world" and h
  assume "closing_steady env pinned P good ec bc m w"
  then show "closing_steady env pinned P good ec bc m (w\<lparr>w_binding := (w_binding w)\<lparr>gc_thread_join_handles := h\<rparr>\<rparr>)"
    by (simp add: closing_steady_def closing_ready_def closing_inv_def closing_ctx_def
        pinned_list_def latches_ok_def latches_hold_bins_def)
qed

definition prepare_steady ::
  "('m, 'v) gc_env \<Rightarrow> ('m \<Rightarrow> objref set) \<Rightarrow> objref set \<Rightarrow> bool \<Rightarrow> ('m \<Rightarrow> 'v \<Rightarrow> bool) \<Rightarrow> usize \<Rightarrow> usize \<Rightarrow>
   ('m, 'v) world \<Rightarrow> bool" where
  "prepare_steady env pinned P moving good ec bc w \<longleftrightarrow> init_good good (env_up env) \<and>
     prepare_ready (env\<lparr>env_workers := Map.empty\<rparr>) pinned P moving good ec bc w"

lemma prepare_steady_workers:
  assumes "\<forall>p. W p \<noteq> None \<longrightarrow> p \<noteq> 0"
  shows "prepare_steady env pinned P moving good ec bc =
    (\<lambda>w. init_good good (env_up env) \<and> prepare_ready (env\<lparr>env_workers := W\<rparr>) pinned P moving good ec bc w)"
  by (simp add: prepare_steady_def prepare_ready_def env_sound_workers [OF assms] fun_eq_iff)

interpretation threaded_prepare: threaded_bucket env Prepare "prepare_steady env pinned P moving good ec bc"
  for env :: "('m, 'v) gc_env" and pinned P moving good ec bc
proof (rule threaded_bucket.intro)
  fix W :: "address \<rightharpoonup> address"
  assume "\<forall>p. W p \<noteq> None \<longrightarrow> p \<noteq> 0"
  then show "bucket_progress (env\<lparr>env_workers := W\<rparr>) Prepare (prepare_steady env pinned P moving good ec bc)"
    by (simp only: prepare_steady_workers bucket_progress_conj [OF prepare_progress.bucket_progress_axioms])
next
  fix w :: "('m, 'v) world" and p
  assume c: "prepare_steady env pinned P moving good ec bc w"
  then have "good (w_core w) (up_init_gc_worker_thread (env_up env) p (w_vm w))"
    by (simp add: prepare_steady_def prepare_ready_def init_good_def sound_def)
  with c show "prepare_steady env pinned P moving good ec bc (w\<lparr>w_vm := up_init_gc_worker_thread (env_up env) p (w_vm w)\<rparr>)"
    by (simp add: prepare_steady_def prepare_ready_def sound_def prepare_inv_def pinned_list_def latches_ok_def latches_hold_bins_def)
next
  fix w :: "('m, 'v) world" and h
  assume "prepare_steady env pinned P moving good ec bc w"
  then show "prepare_steady env pinned P moving good ec bc (w\<lparr>w_binding := (w_binding w)\<lparr>gc_thread_join_handles := h\<rparr>\<rparr>)"
    by (simp add: prepare_steady_def prepare_ready_def prepare_inv_def pinned_list_def latches_ok_def latches_hold_bins_def)
qed

section \<open>Forking\<close>

text \<open>
  Threads that have begun can be asked to quit, and those that are about to begin need memory for their
  records: \<open>room\<close> says that there is enough, and some left.
\<close>

definition free_addresses :: "('v, 's) thread_sys \<Rightarrow> address set" where
  "free_addresses s = {p. p \<noteq> 0 \<and> ts_tls s p = None}"

definition room :: "('v, 's) thread_sys \<Rightarrow> bool" where
  "room s \<longleftrightarrow> finite {t. ts_phase s t \<noteq> Not_spawned} \<and>
     card {t. ts_phase s t = Starting} < card (free_addresses s)"

definition threads_todo :: "('v, 's) thread_sys \<Rightarrow> nat" where
  "threads_todo s = 2 * card {t. ts_phase s t = Starting} + card {t. \<exists>p. ts_phase s t = Running p} +
     card (ts_unpushed s)"

lemma room_finite:
  assumes "room s" "thread_inv s"
  shows "finite {t. ts_phase s t = Starting}" "finite {t. \<exists>p. ts_phase s t = Running p}" "finite (ts_unpushed s)"
proof -
  have f: "finite {t. ts_phase s t \<noteq> Not_spawned}"
    using assms(1) by (simp add: room_def)
  have "ts_unpushed s \<subseteq> {t. ts_phase s t \<noteq> Not_spawned}"
    using assms(2) by (auto simp: thread_inv_def)
  then show "finite {t. ts_phase s t = Starting}" "finite {t. \<exists>p. ts_phase s t = Running p}" "finite (ts_unpushed s)"
    by (auto intro: finite_subset [OF _ f])
qed

text \<open>Unless all is done there is a step that leaves less to do.\<close>

lemma thread_begins:
  assumes s: "thread_inv s" "room s" and t: "ts_phase s t = Starting"
  shows "\<exists>s'. thread_step up s s' \<and> room s' \<and> threads_todo s' < threads_todo s \<and>
    (\<forall>u. ts_phase s' u = Not_spawned \<longleftrightarrow> ts_phase s u = Not_spawned)"
proof -
  have "free_addresses s \<noteq> {}"
    using s(2) by (auto simp: room_def)
  then obtain p where p: "p \<in> free_addresses s"
    by blast
  have "gc_threads (ts_statics s) = Inr {t. \<exists>p. ts_phase s t = Running p}"
    using s(1) by (simp add: thread_inv_def)
  then obtain g where g: "gc_thread_begin up t 0 p (ts_statics s, ts_vm s, ts_tls s) =
      Inr (g, up_init_gc_worker_thread up p (ts_vm s), (ts_tls s)(p \<mapsto> for_worker 0))"
    by (auto simp: gc_thread_begin_def register_gc_thread_def)
  let ?s = "s\<lparr>ts_statics := g, ts_vm := up_init_gc_worker_thread up p (ts_vm s),
    ts_tls := (ts_tls s)(p \<mapsto> for_worker 0), ts_phase := (ts_phase s)(t := Running p)\<rparr>"
  have step: "thread_step up s ?s"
    using t _ _ g by (rule thread_begin) (use p in \<open>simp_all add: free_addresses_def\<close>)
  note fin = room_finite [OF s(2,1)]
  have A: "{u. ts_phase ?s u = Starting} = {u. ts_phase s u = Starting} - {t}"
    and R: "{u. \<exists>p. ts_phase ?s u = Running p} = insert t {u. \<exists>p. ts_phase s u = Running p}"
    and F: "free_addresses ?s = free_addresses s - {p}"
    and N: "{u. ts_phase ?s u \<noteq> Not_spawned} = {u. ts_phase s u \<noteq> Not_spawned}"
    using t by (auto simp: free_addresses_def)
  have a: "Suc (card {u. ts_phase ?s u = Starting}) = card {u. ts_phase s u = Starting}"
    unfolding A by (rule card_Suc_Diff1 [OF fin(1)]) (simp add: t)
  have r: "card {u. \<exists>p. ts_phase ?s u = Running p} = Suc (card {u. \<exists>p. ts_phase s u = Running p})"
    unfolding R using fin(2) t by simp
  have f: "Suc (card (free_addresses ?s)) = card (free_addresses s)"
    unfolding F by (rule card_Suc_Diff1) (simp_all add: p)
  have "card {u. ts_phase ?s u = Starting} < card (free_addresses ?s)"
    using s(2) a f unfolding room_def by linarith
  then have "room ?s"
    using s(2) unfolding room_def N by blast
  moreover have "threads_todo ?s < threads_todo s"
    using a r unfolding threads_todo_def by simp
  ultimately show ?thesis
    using step t by (intro exI [of _ ?s]) auto
qed

lemma thread_ends:
  assumes s: "thread_inv s" "room s" and t: "ts_phase s t = Running p"
  shows "\<exists>s'. thread_step up s s' \<and> room s' \<and> threads_todo s' < threads_todo s \<and>
    (\<forall>u. ts_phase s' u = Not_spawned \<longleftrightarrow> ts_phase s u = Not_spawned)"
proof -
  have "gc_threads (ts_statics s) = Inr {t. \<exists>p. ts_phase s t = Running p}"
    using s(1) by (simp add: thread_inv_def)
  then obtain g where g: "gc_thread_end t (ts_statics s) = Inr g"
    by (auto simp: gc_thread_end_def unregister_gc_thread_def)
  let ?s = "s\<lparr>ts_statics := g, ts_phase := (ts_phase s)(t := Quit)\<rparr>"
  have step: "thread_step up s ?s"
    using t g by (rule thread_end)
  have A: "{u. ts_phase ?s u = Starting} = {u. ts_phase s u = Starting}"
    and R: "{u. \<exists>p. ts_phase ?s u = Running p} = {u. \<exists>p. ts_phase s u = Running p} - {t}"
    and N: "{u. ts_phase ?s u \<noteq> Not_spawned} = {u. ts_phase s u \<noteq> Not_spawned}"
    using t by (auto split: if_splits)
  have "Suc (card {u. \<exists>p. ts_phase ?s u = Running p}) = card {u. \<exists>p. ts_phase s u = Running p}"
    unfolding R by (rule card_Suc_Diff1 [OF room_finite(2) [OF s(2,1)]]) (simp add: t)
  then have "threads_todo ?s < threads_todo s"
    unfolding threads_todo_def A by simp
  moreover have "room ?s"
    using s(2) unfolding room_def A N by (simp add: free_addresses_def)
  ultimately show ?thesis
    using step t by (intro exI [of _ ?s]) auto
qed

lemma handle_stored:
  assumes s: "thread_inv s" "room s" and t: "t \<in> ts_unpushed s"
  shows "\<exists>s'. thread_step up s s' \<and> room s' \<and> threads_todo s' < threads_todo s \<and>
    (\<forall>u. ts_phase s' u = Not_spawned \<longleftrightarrow> ts_phase s u = Not_spawned)"
proof -
  have "statics_ok (ts_statics s)"
    using s(1) by (simp add: thread_inv_def)
  then obtain g where g: "push_join_handle t (ts_statics s) = Inr g"
    by (auto simp: statics_ok_def push_join_handle_def binding_def)
  let ?s = "s\<lparr>ts_statics := g, ts_unpushed := ts_unpushed s - {t}\<rparr>"
  have "thread_step up s ?s"
    using t g by (rule thread_push)
  moreover have "Suc (card (ts_unpushed s - {t})) = card (ts_unpushed s)"
    using room_finite(3) [OF s(2,1)] t by (rule card_Suc_Diff1)
  then have "threads_todo ?s < threads_todo s"
    by (simp add: threads_todo_def)
  ultimately show ?thesis
    using s(2) by (intro exI [of _ ?s]) (simp add: room_def free_addresses_def)
qed

lemma threads_can_quit:
  assumes "thread_inv s" "room s"
  shows "\<exists>s'. (thread_step up)\<^sup>*\<^sup>* s s' \<and> thread_inv s' \<and> room s' \<and> ts_unpushed s' = {} \<and>
    (\<forall>t. ts_phase s' t = (if ts_phase s t = Not_spawned then Not_spawned else Quit))"
  using assms
proof (induction "threads_todo s" arbitrary: s rule: less_induct)
  case less
  show ?case
  proof (cases "ts_unpushed s = {} \<and> (\<forall>t. ts_phase s t = Not_spawned \<or> ts_phase s t = Quit)")
    case False
    have "\<exists>t. ts_phase s t = Starting \<or> (\<exists>p. ts_phase s t = Running p) \<or> t \<in> ts_unpushed s"
      using False by (metis all_not_in_conv thread_phase.exhaust)
    then obtain s1 where s1: "thread_step up s s1" "room s1" "threads_todo s1 < threads_todo s"
      "\<forall>u. ts_phase s1 u = Not_spawned \<longleftrightarrow> ts_phase s u = Not_spawned"
      using thread_begins [OF less.prems] thread_ends [OF less.prems] handle_stored [OF less.prems] by blast
    have "thread_inv s1"
      using s1(1) less.prems(1) by (rule thread_step_inv)
    from less.hyps [OF s1(3) this s1(2)] obtain s' where s': "(thread_step up)\<^sup>*\<^sup>* s1 s'" "thread_inv s'" "room s'"
      "ts_unpushed s' = {}" "\<forall>t. ts_phase s' t = (if ts_phase s1 t = Not_spawned then Not_spawned else Quit)"
      by blast
    have "(thread_step up)\<^sup>*\<^sup>* s s'"
      using s1(1) s'(1) by (rule converse_rtranclp_into_rtranclp)
    with s' s1(4) show ?thesis
      by auto
  next
    case True
    with less.prems show ?thesis
      by (intro exI [of _ s]) auto
  qed
qed

text \<open>\<open>mmtk_prepare_to_fork\<close> can always be carried to its end, and a new thread be spawned afterwards.\<close>

lemma threads_can_fork:
  assumes "thread_inv s" "room s"
  obtains s1 s2 t p where "(thread_step up)\<^sup>*\<^sup>* s s1"
    "\<forall>u. ts_phase s1 u = (if ts_phase s u = Not_spawned then Not_spawned else Quit)"
    "gc_threads (ts_statics s1) = Inr {}" "join_handles (ts_statics s1) = []"
    "(thread_step up)\<^sup>*\<^sup>* s1 s2" "ts_phase s t = Not_spawned" "ts_phase s2 t = Running p"
proof -
  obtain s0 where s0: "(thread_step up)\<^sup>*\<^sup>* s s0" "thread_inv s0" "room s0" "ts_unpushed s0 = {}"
    "\<forall>t. ts_phase s0 t = (if ts_phase s t = Not_spawned then Not_spawned else Quit)"
    using threads_can_quit [OF assms] by blast
  have q: "\<forall>t. ts_phase s0 t = Not_spawned \<or> ts_phase s0 t = Quit"
    using s0(5) by simp
  have "ts_phase s0 t \<noteq> Running p" for t p
    using spec [OF q, of t] by auto
  then have ok: "statics_ok (ts_statics s0)" "gc_threads (ts_statics s0) = Inr {}"
    using s0(2) by (simp_all add: thread_inv_def)
  then obtain b joined g where b: "binding (ts_statics s0) = Inr b"
    and g: "join_gc_threads (\<lambda>_. True) (ts_statics s0) = Inr (joined, g)"
    by (auto simp: statics_ok_def binding_def join_gc_threads_def join_all_gc_threads_def join_threads_eq)
  have "set (mutex_data (gc_thread_join_handles b)) \<subseteq> {t. ts_phase s0 t \<noteq> Not_spawned}"
    using s0(2) b by (auto simp: thread_inv_def join_handles_def binding_def split: option.splits)
  then have "\<forall>t \<in> set (mutex_data (gc_thread_join_handles b)). ts_phase s0 t = Quit"
    using q by blast
  note joins = thread_join [OF b this g, of up]
  let ?s1 = "s0\<lparr>ts_statics := g, ts_joined := ts_joined s0 \<union> set joined\<rparr>"
  have g': "gc_threads g = Inr {}" "join_handles g = []" "statics_ok g"
    using join_gc_threads_ok [OF ok(1) g] ok(2) by simp_all
  have "{t. ts_phase s t \<noteq> Not_spawned} = {t. ts_phase s0 t \<noteq> Not_spawned}"
    using s0(5) by (auto split: if_splits)
  then have "finite {t. ts_phase s t \<noteq> Not_spawned}"
    using s0(3) by (simp add: room_def)
  then obtain t where t: "ts_phase s t = Not_spawned"
    using ex_new_if_finite [of "{t. ts_phase s t \<noteq> Not_spawned}"] by auto
  let ?s' = "?s1\<lparr>ts_phase := (ts_phase ?s1)(t := Starting), ts_unpushed := insert t (ts_unpushed ?s1)\<rparr>"
  have spawn: "thread_step up ?s1 ?s'"
    using t s0(5) by (intro thread_spawn) simp
  obtain p where p: "p \<noteq> 0" "ts_tls s0 p = None"
    using s0(3) by (fastforce simp: room_def free_addresses_def dest!: card_gt_0_iff [THEN iffD1, OF le_less_trans [OF le0]])
  obtain g2 v tls_mem where "gc_thread_begin up t 0 p (ts_statics ?s', ts_vm ?s', ts_tls ?s') = Inr (g2, v, tls_mem)"
    using g'(1) by (simp add: gc_thread_begin_def register_gc_thread_def)
  then have begins: "thread_step up ?s' (?s'\<lparr>ts_statics := g2, ts_vm := v, ts_tls := tls_mem,
      ts_phase := (ts_phase ?s')(t := Running p)\<rparr>)"
    by (intro thread_begin) (simp_all add: p)
  show thesis
  proof (rule that [of ?s1 _ t p])
    show "(thread_step up)\<^sup>*\<^sup>* s ?s1"
      using s0(1) joins by (rule rtranclp.rtrancl_into_rtrancl)
    show "(thread_step up)\<^sup>*\<^sup>* ?s1 (?s'\<lparr>ts_statics := g2, ts_vm := v, ts_tls := tls_mem,
        ts_phase := (ts_phase ?s')(t := Running p)\<rparr>)"
      using spawn begins by (meson converse_rtranclp_into_rtranclp r_into_rtranclp)
  qed (use s0(5) g' t in simp_all)
qed

text \<open>Threads act in a process as they do by themselves, and keep what \<open>init_gc_worker_thread\<close> keeps.\<close>

lemma process_threads:
  assumes "(thread_step (env_up env))\<^sup>*\<^sup>* s s'" "process_inv q" "pr_threads q = s" "J (pr_world q)"
    and init: "\<And>w p. J w \<Longrightarrow> J (w\<lparr>w_vm := up_init_gc_worker_thread (env_up env) p (w_vm w)\<rparr>)"
    and handles: "\<And>w h. J w \<Longrightarrow> J (w\<lparr>w_binding := (w_binding w)\<lparr>gc_thread_join_handles := h\<rparr>\<rparr>)"
  shows "\<exists>q'. (process_step env st)\<^sup>*\<^sup>* q q' \<and> pr_threads q' = s' \<and> process_inv q' \<and> J (pr_world q')"
  using assms(1)
proof (induction rule: rtranclp_induct)
  case base
  with assms(2-4) show ?case by blast
next
  case (step s1 s2)
  then obtain q1 where q1: "(process_step env st)\<^sup>*\<^sup>* q q1" "pr_threads q1 = s1" "process_inv q1" "J (pr_world q1)"
    by blast
  have i: "thread_inv s2"
    using step(2) q1(2,3) by (auto simp: process_inv_def intro: thread_step_inv)
  then obtain b where b: "BINDING (ts_statics s2) = Some b"
    by (auto simp: thread_inv_def statics_ok_def)
  let ?w = "pr_world q1" and ?q = "\<lparr>pr_world = (pr_world q1)\<lparr>w_vm := ts_vm s2, w_binding := b\<rparr>, pr_threads = s2\<rparr>"
  have s: "process_step env st q1 ?q"
    using step(2) b q1(2) by (intro thread_acts) simp_all
  obtain h where h: "b = (w_binding ?w)\<lparr>gc_thread_join_handles := h\<rparr>"
    and v: "ts_vm s2 = w_vm ?w \<or> (\<exists>p. ts_vm s2 = up_init_gc_worker_thread (env_up env) p (w_vm ?w))"
    using thread_step_shared [OF step(2) _ b] q1(2,3) by (auto simp: process_inv_def)
  have "J (?w\<lparr>w_vm := ts_vm s2\<rparr>)"
    using v q1(4) init by auto
  from handles [OF this, of h] have "J (pr_world ?q)"
    by (simp add: h)
  moreover have "process_inv ?q"
    using i b by (simp add: process_inv_def)
  ultimately show ?case
    using rtranclp.rtrancl_into_rtrancl [OF q1(1) s] by (intro exI [of _ ?q]) simp
qed

text \<open>What is assumed of the environment does not depend on the workers.\<close>

lemma workers_irrelevant:
  assumes "\<forall>p. W p \<noteq> None \<longrightarrow> p \<noteq> 0"
  shows "gc_contract env pinned trace \<Longrightarrow> gc_contract (env\<lparr>env_workers := W\<rparr>) pinned trace"
    and "env_sound env good ec bc \<Longrightarrow> env_sound (env\<lparr>env_workers := W\<rparr>) good ec bc"
    and "gc_sound env good ec bc trace \<Longrightarrow> gc_sound (env\<lparr>env_workers := W\<rparr>) good ec bc trace"
proof -
  show e: "env_sound (env\<lparr>env_workers := W\<rparr>) good ec bc" if "env_sound env good ec bc" for good
    using that assms by (auto simp: env_sound_def)
  show "gc_contract (env\<lparr>env_workers := W\<rparr>) pinned trace" if "gc_contract env pinned trace"
    using that by (simp add: gc_contract_def)
  show "gc_sound (env\<lparr>env_workers := W\<rparr>) good ec bc trace" if "gc_sound env good ec bc trace"
    using that e by (simp add: gc_sound_def)
qed

lemma at_work_contract:
  assumes "process_inv q" "gc_contract env pinned trace" "gc_sound env good ec bc trace"
  shows "gc_contract (at_work env q) pinned trace" "gc_sound (at_work env q) good ec bc trace"
proof -
  have "\<forall>p. live_workers (pr_threads q) p \<noteq> None \<longrightarrow> p \<noteq> 0"
    using assms(1) live_workersD(1) by (auto simp: process_inv_def)
  from workers_irrelevant [OF this] assms(2,3)
  show "gc_contract (at_work env q) pinned trace" "gc_sound (at_work env q) good ec bc trace"
    by (simp_all add: at_work_def)
qed

lemma init_good_in: "init_good good up \<Longrightarrow> init_good (good_in core good moving) up"
  by (simp add: init_good_def good_in_def)

text \<open>The buckets of a cycle, as the threads find them.\<close>

lemma cycle_prepare_steady:
  assumes "gc_contract env pinned trace" "gc_sound env good ec bc trace" "init_good good (env_up env)"
    and "settled w" "sound good ec bc w"
    and "stop_all_mutators (env_build env) (env_core env) (env_up env)
      (tls_view (env_workers env) :: address \<rightharpoonup> unit gc_thread_tls) tls visitor f w = Inr (f', w1)"
  shows "prepare_steady env pinned (pinned (w_core w)) (gc_mode (env_core env) w)
    (good_in (env_core env) good (gc_mode (env_core env) w)) ec bc w1"
  using cycle_prepare_ready [OF assms(1,2,4,5,6)] init_good_in [OF assms(3)]
  by (simp add: prepare_steady_def prepare_ready_def workers_irrelevant(2))

lemma cycle_closing_steady:
  assumes "gc_contract env pinned trace" "gc_sound env good ec bc trace" "init_good good (env_up env)"
    and "settled w" "sound good ec bc w"
    and "stop_all_mutators (env_build env) (env_core env) (env_up env)
      (tls_view (env_workers env) :: address \<rightharpoonup> unit gc_thread_tls) tls visitor f w = Inr (f', w1)"
    and run: "(prepare_step env)\<^sup>*\<^sup>* w1 w2" "w_buckets w2 Prepare = []" "trace w2 w3"
      "process_weak_refs (env_build env) (env_core env) (env_up env) w3 = Inr (again, w4)"
  shows "closing_steady env pinned (pinned (w_core w)) (good_in (env_core env) good (gc_mode (env_core env) w)) ec bc
    (w_core w3) w4"
proof -
  have "prepare_ready env pinned (pinned (w_core w)) (gc_mode (env_core env) w)
      (good_in (env_core env) good (gc_mode (env_core env) w)) ec bc w2"
    using run(1) cycle_prepare_ready [OF assms(1,2,4,5,6)] by (rule prepare_run_ready)
  from cycle_closing_ready [OF assms(1,2) this run(2-4)] init_good_in [OF assms(3)] show ?thesis
    by (simp add: closing_steady_def closing_ready_def workers_irrelevant(2))
qed

section \<open>Properties\<close>

text \<open>
  C17. GC threads and packets: while the threads of a GC are spawned, begin, quit and store their handles at
  any time, and execute the packets of the Prepare bucket or of the closing bucket in any order, every
  packet that a running thread takes returns; the thread is registered, so that a panic of it would
  abort the process; and it can drain the bucket alone.
\<close>

theorem gc_threads_never_panic:
  assumes c: "gc_contract env pinned trace" "gc_sound env good ec bc trace" "init_good good (env_up env)"
    and w: "settled w" "sound good ec bc w"
    and stop: "stop_all_mutators (env_build env) (env_core env) (env_up env)
      (tls_view (env_workers env) :: address \<rightharpoonup> unit gc_thread_tls) tls visitor f w = Inr (f', w1)"
    and bucket: "st = Prepare \<and> pr_world q0 = w1 \<or>
      st = VMRefClosure \<and> (\<exists>w2 w3 again. (prepare_step env)\<^sup>*\<^sup>* w1 w2 \<and> w_buckets w2 Prepare = [] \<and> trace w2 w3 \<and>
        process_weak_refs (env_build env) (env_core env) (env_up env) w3 = Inr (again, pr_world q0))"
    and q: "process_inv q0" "(process_step env st)\<^sup>*\<^sup>* q0 q"
    and t: "ts_phase (pr_threads q) t = Running p"
  shows "(\<forall>xs packet ys. w_buckets (pr_world q) st = xs @ packet # ys \<longrightarrow>
      (\<exists>w'. do_work (at_work env q) p packet
        ((pr_world q)\<lparr>w_buckets := (w_buckets (pr_world q))(st := xs @ ys)\<rparr>) = Inr w')) \<and>
    is_gc_thread t (ts_statics (pr_threads q)) = Inr True \<and>
    (\<exists>q'. (process_step env st)\<^sup>*\<^sup>* q q' \<and> w_buckets (pr_world q') st = [])"
proof -
  have registered: "is_gc_thread t (ts_statics (pr_threads q)) = Inr True" if "process_inv q"
    using that t by (auto simp: is_gc_thread_def process_inv_def thread_inv_def)
  from bucket show ?thesis
  proof (elim disjE conjE exE)
    assume st: "st = Prepare" and "pr_world q0 = w1"
    with cycle_prepare_steady [OF c w stop]
    have "prepare_steady env pinned (pinned (w_core w)) (gc_mode (env_core env) w)
        (good_in (env_core env) good (gc_mode (env_core env) w)) ec bc (pr_world q0)"
      by simp
    note keeps = threaded_prepare.process_run_keeps [OF q(2) [unfolded st] q(1) this]
    show ?thesis
      using threaded_prepare.packet_returns [OF _ _ t] threaded_prepare.process_drains [OF _ _ t] keeps registered
      unfolding st by blast
  next
    fix w2 w3 again
    assume st: "st = VMRefClosure" and "(prepare_step env)\<^sup>*\<^sup>* w1 w2" "w_buckets w2 Prepare = []" "trace w2 w3"
      "process_weak_refs (env_build env) (env_core env) (env_up env) w3 = Inr (again, pr_world q0)"
    from cycle_closing_steady [OF c w stop this(2-5)]
    have "closing_steady env pinned (pinned (w_core w)) (good_in (env_core env) good (gc_mode (env_core env) w)) ec bc
        (w_core w3) (pr_world q0)" .
    note keeps = threaded_closing.process_run_keeps [OF q(2) [unfolded st] q(1) this]
    show ?thesis
      using threaded_closing.packet_returns [OF _ _ t] threaded_closing.process_drains [OF _ _ t] keeps registered
      unfolding st by blast
  qed
qed

text \<open>A thread that runs while the pinning of \<open>Example\<close>'s PPP waits in the Prepare bucket.\<close>

lemma example_process:
  fixes w :: "(objref set, objref \<rightharpoonup> address) world"
  assumes "gc_thread_join_handles (w_binding w) = gc_thread_join_handles example_binding"
  obtains q :: "(objref set, objref \<rightharpoonup> address) process" where "process_inv q" "pr_world q = w"
    "ts_phase (pr_threads q) = (\<lambda>_. Not_spawned)(7 := Running 4096)" "ts_tls (pr_threads q) = [4096 \<mapsto> for_worker 8192]"
proof -
  obtain s :: "(objref \<rightharpoonup> address, unit) thread_sys" where
    s: "(thread_step ivar_upcalls)\<^sup>*\<^sup>* (thread_start example_statics Map.empty) s"
    "ts_phase s = (\<lambda>_. Not_spawned)(7 := Running 4096)" "ts_tls s = [4096 \<mapsto> for_worker 8192]"
    "BINDING (ts_statics s) = Some example_binding"
    using example_thread_runs [of ivar_upcalls Map.empty] by blast
  have "thread_inv (share w s)"
    using thread_reach_inv [OF s(1) example_statics_ok] s(4) assms by (rule share_inv)
  then show thesis
    using s by (intro that [of "\<lparr>pr_world = w, pr_threads = share w s\<rparr>"]) (simp_all add: process_inv_def)
qed

theorem gc_threads_never_panic_witness:
  "\<exists>q :: (objref set, objref \<rightharpoonup> address) process. ts_phase (pr_threads q) 7 = Running 4096 \<and>
     w_buckets (pr_world q) Prepare = [PinPPPChildren [16]] \<and>
     (\<exists>w'. do_work (at_work example_env q) 4096 (PinPPPChildren [16])
        ((pr_world q)\<lparr>w_buckets := (w_buckets (pr_world q))(Prepare := [])\<rparr>) = Inr w') \<and>
     is_gc_thread 7 (ts_statics (pr_threads q)) = Inr True"
proof -
  let ?w1 = "submit Prepare [PinPPPChildren [16]] example_gc_world"
  have stop: "stop_all_mutators (env_build example_env) (env_core example_env) (env_up example_env)
      (tls_view (env_workers example_env) :: address \<rightharpoonup> unit gc_thread_tls) 4096 (\<lambda>_ f. f) ([] :: address list)
      example_gc_world = Inr ([], ?w1)"
    using example_stop by simp
  obtain q :: "(objref set, objref \<rightharpoonup> address) process" where q: "process_inv q" "pr_world q = ?w1"
    "ts_phase (pr_threads q) = (\<lambda>_. Not_spawned)(7 := Running 4096)"
    by (rule example_process [of ?w1]) (simp_all add: example_gc_world_def put_ppps_def)
  have t: "ts_phase (pr_threads q) 7 = Running 4096"
    using q(3) by simp
  have b: "w_buckets (pr_world q) Prepare = [] @ PinPPPChildren [16] # []"
    by (simp add: q(2) example_gc_world_def put_ppps_def)
  have init: "init_good (\<lambda>_ _. True) (env_up example_env)"
    by (simp add: init_good_def)
  have bucket: "Prepare = Prepare \<and> pr_world q = ?w1 \<or> Prepare = VMRefClosure \<and> (\<exists>w2 w3 again.
      (prepare_step example_env)\<^sup>*\<^sup>* ?w1 w2 \<and> w_buckets w2 Prepare = [] \<and> w2 = w3 \<and>
      process_weak_refs (env_build example_env) (env_core example_env) (env_up example_env) w3 = Inr (again, pr_world q))"
    using q(2) by simp
  from gc_threads_never_panic [OF example_contract example_sound(1) init example_settled example_sound(2) stop bucket
      q(1) rtranclp.rtrancl_refl t]
  have "\<exists>w'. do_work (at_work example_env q) 4096 (PinPPPChildren [16])
      ((pr_world q)\<lparr>w_buckets := (w_buckets (pr_world q))(Prepare := [] @ [])\<rparr>) = Inr w'"
    "is_gc_thread 7 (ts_statics (pr_threads q)) = Inr True"
    using b by blast+
  with t b show ?thesis
    by (intro exI [of _ q]) simp
qed

text \<open>
  C18. Forking: from every state of the threads between two GCs, \<open>mmtk_prepare_to_fork\<close> can be carried to its
  end, where all threads have quit and been joined and none is registered; afterwards a thread can be
  spawned, with which a whole GC can be carried out.
\<close>

theorem fork_and_collect:
  assumes c: "gc_contract env pinned trace" "gc_sound env good ec bc trace" "init_good good (env_up env)"
    and q: "process_inv q" "room (pr_threads q)" "settled (pr_world q)" "sound good ec bc (pr_world q)"
  shows "\<exists>q1 q2 t p w'. (process_step env st)\<^sup>*\<^sup>* q q1 \<and>
    (\<forall>u. ts_phase (pr_threads q1) u = (if ts_phase (pr_threads q) u = Not_spawned then Not_spawned else Quit)) \<and>
    gc_threads (ts_statics (pr_threads q1)) = Inr {} \<and> mutex_data (gc_thread_join_handles (w_binding (pr_world q1))) = [] \<and>
    (process_step env st)\<^sup>*\<^sup>* q1 q2 \<and> ts_phase (pr_threads q) t = Not_spawned \<and> ts_phase (pr_threads q2) t = Running p \<and>
    gc_cycle (at_work env q2) trace (pr_world q2) w'"
proof -
  let ?J = "\<lambda>w. settled w \<and> sound good ec bc w"
  have thread_inv: "thread_inv (pr_threads q)"
    using q(1) by (simp add: process_inv_def)
  obtain s1 s2 t p where s: "(thread_step (env_up env))\<^sup>*\<^sup>* (pr_threads q) s1"
    "\<forall>u. ts_phase s1 u = (if ts_phase (pr_threads q) u = Not_spawned then Not_spawned else Quit)"
    "gc_threads (ts_statics s1) = Inr {}"
    "join_handles (ts_statics s1) = []" "(thread_step (env_up env))\<^sup>*\<^sup>* s1 s2"
    "ts_phase (pr_threads q) t = Not_spawned" "ts_phase s2 t = Running p"
    using threads_can_fork [OF thread_inv q(2)] .
  have init: "?J (w\<lparr>w_vm := up_init_gc_worker_thread (env_up env) p (w_vm w)\<rparr>)" if "?J w" for w p
    using that c(3) by (simp add: settled_def quiescent_def pinned_list_def latches_ok_def latches_hold_bins_def
        wb_view_def sound_def init_good_def)
  have handles: "?J (w\<lparr>w_binding := (w_binding w)\<lparr>gc_thread_join_handles := h\<rparr>\<rparr>)" if "?J w" for w h
    using that by (simp add: settled_def quiescent_def pinned_list_def latches_ok_def latches_hold_bins_def
        wb_view_def registries_free_def)
  obtain q1 where q1: "(process_step env st)\<^sup>*\<^sup>* q q1" "pr_threads q1 = s1" "process_inv q1" "?J (pr_world q1)"
    using process_threads [where J = ?J, OF s(1) q(1) refl _ init handles] q(3,4) by blast
  obtain q2 where q2: "(process_step env st)\<^sup>*\<^sup>* q1 q2" "pr_threads q2 = s2" "process_inv q2" "?J (pr_world q2)"
    using process_threads [where J = ?J, OF s(5) q1(3,2,4) init handles] by blast
  have t: "ts_phase (pr_threads q2) t = Running p"
    using s(7) q2(2) by simp
  obtain ctx where "env_workers (at_work env q2) p = Some ctx"
    using threaded_prepare.worker_known [OF q2(3) t] .
  from gc_cycle_exists [OF at_work_contract [OF q2(3) c(1,2)] _ _ this] q2(4)
  obtain w' where w': "gc_cycle (at_work env q2) trace (pr_world q2) w'"
    by blast
  have "mutex_data (gc_thread_join_handles (w_binding (pr_world q1))) = []"
    using q1(2,3) s(4) by (simp add: process_inv_def join_handles_def)
  with q1 q2 s t w' show ?thesis
    by blast
qed

theorem fork_and_collect_witness:
  "\<exists>(q :: (objref set, objref \<rightharpoonup> address) process) q1 q2 t p w'. ts_phase (pr_threads q) 7 = Running 4096 \<and>
     (process_step example_env Prepare)\<^sup>*\<^sup>* q q1 \<and> ts_phase (pr_threads q1) 7 = Quit \<and>
     (process_step example_env Prepare)\<^sup>*\<^sup>* q1 q2 \<and> ts_phase (pr_threads q2) t = Running p \<and> t \<noteq> 7 \<and>
     gc_cycle (at_work example_env q2) (=) (pr_world q2) w'"
proof -
  obtain q :: "(objref set, objref \<rightharpoonup> address) process" where q: "process_inv q" "pr_world q = example_gc_world"
    "ts_phase (pr_threads q) = (\<lambda>_. Not_spawned)(7 := Running 4096)" "ts_tls (pr_threads q) = [4096 \<mapsto> for_worker 8192]"
    by (rule example_process [of example_gc_world]) (simp_all add: example_gc_world_def put_ppps_def)
  have t: "ts_phase (pr_threads q) 7 = Running 4096"
    using q(3) by simp
  have "{t. ts_phase (pr_threads q) t \<noteq> Not_spawned} = {7}" "{t. ts_phase (pr_threads q) t = Starting} = {}"
    by (auto simp: q(3))
  moreover have "8192 \<in> free_addresses (pr_threads q)"
    by (simp add: free_addresses_def q(4))
  ultimately have room: "room (pr_threads q)"
    by (auto simp: room_def card_gt_0_iff)
  have init: "init_good (\<lambda>_ _. True) (env_up example_env)"
    by (simp add: init_good_def)
  have w: "settled (pr_world q)" "sound (\<lambda>_ _. True) 1024 4096 (pr_world q)"
    using example_settled example_sound(2) by (simp_all add: q(2))
  from fork_and_collect [OF example_contract example_sound(1) init q(1) room w]
  obtain q1 q2 t1 p w' where f: "(process_step example_env Prepare)\<^sup>*\<^sup>* q q1"
    "\<forall>u. ts_phase (pr_threads q1) u = (if ts_phase (pr_threads q) u = Not_spawned then Not_spawned else Quit)"
    "(process_step example_env Prepare)\<^sup>*\<^sup>* q1 q2" "ts_phase (pr_threads q) t1 = Not_spawned"
    "ts_phase (pr_threads q2) t1 = Running p" "gc_cycle (at_work example_env q2) (=) (pr_world q2) w'"
    by blast
  have "ts_phase (pr_threads q1) 7 = Quit" "t1 \<noteq> 7"
    using f(2,4) t by auto
  with t f show ?thesis
    by blast
qed

end
