(* ===== verification/Interleaving.thy ===== *)
theory Interleaving
  imports Prelude
begin

text \<open>
  Code as a sequence of atomic actions on a shared state, so that several threads can be run against
  each other action by action: \<open>code\<close> is what a thread still has to do, \<open>run_code\<close> is its run when no
  other thread interferes, and \<open>works\<close> says that it does its job while others interfere. The locale
  \<open>rely_guarantee\<close> is the contract under which threads that work alone work together.
\<close>

section \<open>Code\<close>

text \<open>
  \<open>Act l t k\<close>: one atomic action that changes the state by \<open>t\<close>; what follows may depend on the state in
  which the action found it. The label \<open>l\<close> has no effect. It says what the thread owes to others at
  this point (for the threads of a latch, how far they are in counting it down).
\<close>

datatype ('l, 'w) code =
    Halt
  | Panics panic
  | Act "'l option" "'w \<Rightarrow> 'w" "'w \<Rightarrow> ('l, 'w) code"

primrec run_code :: "('l, 'w) code \<Rightarrow> 'w \<Rightarrow> 'w res" where
  "run_code Halt = Inr"
| "run_code (Panics e) = (\<lambda>w. Inl e)"
| "run_code (Act l t k) = (\<lambda>w. run_code (k w) (t w))"

primrec duty :: "('l, 'w) code \<Rightarrow> 'l option" where
  "duty Halt = None"
| "duty (Panics e) = None"
| "duty (Act l t k) = l"

text \<open>An action that may panic and hands a value to the code after it.\<close>

definition action :: "'l option \<Rightarrow> ('w \<Rightarrow> ('x \<times> 'w) res) \<Rightarrow> ('x \<Rightarrow> ('l, 'w) code) \<Rightarrow> ('l, 'w) code" where
  "action l f k = Act l (\<lambda>w. case f w of Inl e \<Rightarrow> w | Inr (x, w') \<Rightarrow> w')
     (\<lambda>w. case f w of Inl e \<Rightarrow> Panics e | Inr (x, w') \<Rightarrow> k x)"

lemma bind_res_return: "bind_res m Inr = m"
  by (cases m) simp_all

abbreviation act :: "('w \<Rightarrow> 'w) \<Rightarrow> ('l, 'w) code \<Rightarrow> ('l, 'w) code" where
  "act t c \<equiv> action None (\<lambda>w. Inr ((), t w)) (\<lambda>_. c)"

abbreviation ask :: "('w \<Rightarrow> 'x) \<Rightarrow> ('x \<Rightarrow> ('l, 'w) code) \<Rightarrow> ('l, 'w) code" where
  "ask f k \<equiv> action None (\<lambda>w. Inr (f w, w)) k"

lemma run_action [simp]:
  "run_code (action l f k) w = bind_res (f w) (\<lambda>(x, w'). run_code (k x) w')"
  by (cases "f w") (auto simp: action_def)

lemma duty_action [simp]: "duty (action l f k) = l"
  by (simp add: action_def)

text \<open>What is left of code becomes smaller with every action, in a well-founded order.\<close>

definition rest_of :: "(('l, 'w) code \<times> ('l, 'w) code) set" where
  "rest_of = {(c', c). \<exists>l t k w. c = Act l t k \<and> c' = k w}"

lemma rest_of_Act [simp]: "(k w, Act l t k) \<in> rest_of"
  by (auto simp: rest_of_def)

lemma wf_rest_of: "wf rest_of"
proof (rule wfUNIVI)
  fix P :: "('l, 'w) code \<Rightarrow> bool" and c
  assume step: "\<forall>x. (\<forall>y. (y, x) \<in> rest_of \<longrightarrow> P y) \<longrightarrow> P x"
  show "P c"
    by (induction c) (rule step [rule_format], force simp: rest_of_def)+
qed

text \<open>Of the codes of several threads, one is acting or has halted.\<close>

lemma rest_of_threads:
  "(add_mset (k w) C, add_mset (Act l t k) C) \<in> mult rest_of" "(C, add_mset Halt C) \<in> mult rest_of"
  using one_step_implies_mult [of "{#Act l t k#}" "{#k w#}" rest_of C]
    one_step_implies_mult [of "{#Halt#}" "{#}" rest_of C] by simp_all

section \<open>Code among others\<close>

text \<open>
  \<open>works R G Q c w\<close>: from \<open>w\<close> on, with changes by others within \<open>R\<close> before every action, \<open>c\<close> does not
  panic, changes the state within \<open>G\<close>, and leaves it in \<open>Q\<close>. \<open>G\<close> sees the label of an action and that of
  the next.
\<close>

primrec works ::
  "('w \<Rightarrow> 'w \<Rightarrow> bool) \<Rightarrow> ('l option \<Rightarrow> 'w \<Rightarrow> 'l option \<Rightarrow> 'w \<Rightarrow> bool) \<Rightarrow> ('w \<Rightarrow> bool) \<Rightarrow>
   ('l, 'w) code \<Rightarrow> 'w \<Rightarrow> bool" where
  "works R G Q Halt = (\<lambda>w. \<forall>w1. R w w1 \<longrightarrow> Q w1)"
| "works R G Q (Panics e) = (\<lambda>w. False)"
| "works R G Q (Act l t k) = (\<lambda>w. \<forall>w1. R w w1 \<longrightarrow>
     G l w1 (duty (k w1)) (t w1) \<and> works R G Q (k w1) (t w1))"

lemma works_action:
  "works R G Q (action l f k) w \<longleftrightarrow> (\<forall>w1. R w w1 \<longrightarrow>
     (\<exists>x w'. f w1 = Inr (x, w') \<and> G l w1 (duty (k x)) w' \<and> works R G Q (k x) w'))"
proof -
  have "G l w1 (duty (case f w1 of Inl e \<Rightarrow> Panics e | Inr (x, w') \<Rightarrow> k x))
        (case f w1 of Inl e \<Rightarrow> w1 | Inr (x, w') \<Rightarrow> w') \<and>
      works R G Q (case f w1 of Inl e \<Rightarrow> Panics e | Inr (x, w') \<Rightarrow> k x)
        (case f w1 of Inl e \<Rightarrow> w1 | Inr (x, w') \<Rightarrow> w') \<longleftrightarrow>
      (\<exists>x w'. f w1 = Inr (x, w') \<and> G l w1 (duty (k x)) w' \<and> works R G Q (k x) w')" for w1
    by (cases "f w1") auto
  then show ?thesis
    by (simp add: action_def)
qed

lemma works_stable:
  assumes "works R G Q c w" "R w w1" and "\<And>a b c. R a b \<Longrightarrow> R b c \<Longrightarrow> R a c"
  shows "works R G Q c w1"
  using assms by (cases c) (simp, simp, force)

text \<open>
  Threads with tasks \<open>p\<close>: what each may rely on, what it guarantees, what it has achieved at its end, and
  which tasks can be under way at the same time. \<open>inv\<close> holds throughout.
\<close>

locale rely_guarantee =
  fixes inv :: "'w \<Rightarrow> bool" and rely :: "'p \<Rightarrow> 'w \<Rightarrow> 'w \<Rightarrow> bool"
    and guar :: "'p \<Rightarrow> 'l option \<Rightarrow> 'w \<Rightarrow> 'l option \<Rightarrow> 'w \<Rightarrow> bool"
    and post :: "'p \<Rightarrow> 'w \<Rightarrow> bool" and compatible :: "'p \<Rightarrow> 'p \<Rightarrow> bool"
  assumes rely_refl: "inv w \<Longrightarrow> rely p w w"
    and rely_trans: "rely p w1 w2 \<Longrightarrow> rely p w2 w3 \<Longrightarrow> rely p w1 w3"
    and guar_inv: "guar p l w l' w' \<Longrightarrow> inv w'"
    and non_interference: "guar p l w l' w' \<Longrightarrow> compatible p q \<Longrightarrow> rely q w w'"
begin

definition on_task :: "'p \<Rightarrow> ('l, 'w) code \<Rightarrow> 'w \<Rightarrow> bool" where
  "on_task p = works (rely p) (guar p) (post p)"

definition all_on_task :: "('t \<times> 'p \<times> ('l, 'w) code) multiset \<Rightarrow> 'w \<Rightarrow> bool" where
  "all_on_task J w \<longleftrightarrow> (\<forall>(t, p, c) \<in># J. on_task p c w)"

lemma on_task_stable: "on_task p c w \<Longrightarrow> rely p w w1 \<Longrightarrow> on_task p c w1"
  unfolding on_task_def by (rule works_stable) (auto intro: rely_trans)

lemma on_task_action:
  "on_task p (action l f k) w \<longleftrightarrow> (\<forall>w1. rely p w w1 \<longrightarrow>
     (\<exists>x w'. f w1 = Inr (x, w') \<and> guar p l w1 (duty (k x)) w' \<and> on_task p (k x) w'))"
  by (simp add: on_task_def works_action)

lemma on_task_Halt: "on_task p Halt w \<longleftrightarrow> (\<forall>w1. rely p w w1 \<longrightarrow> post p w1)"
  by (simp add: on_task_def)

lemma on_task_done: "on_task p Halt w \<Longrightarrow> inv w \<Longrightarrow> post p w"
  by (simp add: on_task_def rely_refl)

lemma on_task_panic: "\<not> on_task p (Panics e) w"
  by (simp add: on_task_def)

lemma others_stay_on_task:
  assumes "all_on_task J w" "guar p l w l' w'" "\<And>t q c. (t, q, c) \<in># J \<Longrightarrow> compatible p q"
  shows "all_on_task J w'"
  using assms unfolding all_on_task_def by (fastforce intro: on_task_stable non_interference)

lemma act_on_task:
  assumes "inv w" "all_on_task (add_mset (t, p, Act l f k) J) w"
    and "\<And>t q c. (t, q, c) \<in># J \<Longrightarrow> compatible p q"
  shows "guar p l w (duty (k w)) (f w)" "inv (f w)" "all_on_task (add_mset (t, p, k w) J) (f w)"
proof -
  have "on_task p (Act l f k) w" "all_on_task J w"
    using assms(2) by (auto simp: all_on_task_def)
  then show g: "guar p l w (duty (k w)) (f w)"
    using assms(1) by (simp add: on_task_def rely_refl)
  then show "inv (f w)"
    by (rule guar_inv)
  have "on_task p (k w) (f w)"
    using \<open>on_task p (Act l f k) w\<close> assms(1) by (simp add: on_task_def rely_refl)
  with others_stay_on_task [OF \<open>all_on_task J w\<close> g assms(3)]
  show "all_on_task (add_mset (t, p, k w) J) (f w)"
    by (simp add: all_on_task_def)
qed

end

end
