(* ===== verification/Packet_Code.thy ===== *)
theory Packet_Code
  imports Interleaving Gc_Cycle
begin

text \<open>
  The packets as code of atomic actions. \<open>Gc_Cycle\<close> executes a packet in one step; here every upcall,
  every call of mmtk-core, every lock and unlock and every atomic operation on a latch is an action of
  its own, and other workers may act in between. What a packet computes for itself, and the probes it
  fires about that, go along with the action before. The code of a packet that runs alone is exactly
  \<open>do_work\<close>.
\<close>

text \<open>
  The labels of actions: \<open>At_latch aid pc\<close> with the worker's state of \<open>After_All\<close> while a packet of entries
  has not left its latch behind, \<open>At_bins\<close> where a packet of bins updates its range, and \<open>Owes newly\<close>
  while a pinning packet has pinned objects that are not in the registry yet.
\<close>

datatype packet_duty = At_latch nat "gc_work worker_pc" | At_bins | Owes "objref list"

type_synonym ('m, 'v) packet_code = "(packet_duty, ('m, 'v) world) code"

section \<open>Locks\<close>

text \<open>
  The locks of the registries, by a function that reads the mutex and one that updates it. The guard of
  a lock is released when the packet drops it.
\<close>

definition upd_candidates ::
  "(objref list mutex \<Rightarrow> objref list mutex) \<Rightarrow> ('m, 'v) world \<Rightarrow> ('m, 'v) world" where
  "upd_candidates f w = w\<lparr>w_binding := (w_binding w)\<lparr>weak_proc := (weak_proc (w_binding w))\<lparr>
     obj_free_candidates := f (obj_free_candidates (weak_proc (w_binding w)))\<rparr>\<rparr>\<rparr>"

definition upd_ppps :: "(objref list mutex \<Rightarrow> objref list mutex) \<Rightarrow> ('m, 'v) world \<Rightarrow> ('m, 'v) world" where
  "upd_ppps f w = w\<lparr>w_binding := (w_binding w)\<lparr>ppp_reg := (ppp_reg (w_binding w))\<lparr>
     ppps := f (ppps (ppp_reg (w_binding w)))\<rparr>\<rparr>\<rparr>"

definition upd_wb :: "(objref set mutex \<Rightarrow> objref set mutex) \<Rightarrow> ('m, 'v) world \<Rightarrow> ('m, 'v) world" where
  "upd_wb f w = w\<lparr>w_binding := (w_binding w)\<lparr>wb_unprotected_objects :=
     f (wb_unprotected_objects (w_binding w))\<rparr>\<rparr>"

definition upd_givtbl ::
  "((objref \<rightharpoonup> moved_givtbl_entry) mutex \<Rightarrow> (objref \<rightharpoonup> moved_givtbl_entry) mutex) \<Rightarrow>
   ('m, 'v) world \<Rightarrow> ('m, 'v) world" where
  "upd_givtbl f w = w\<lparr>w_binding := (w_binding w)\<lparr>moved_givtbl := f (moved_givtbl (w_binding w))\<rparr>\<rparr>"

lemmas upd_defs = upd_candidates_def upd_ppps_def upd_wb_def upd_givtbl_def

definition try_lock ::
  "string \<Rightarrow> ('w \<Rightarrow> 'a mutex) \<Rightarrow> (('a mutex \<Rightarrow> 'a mutex) \<Rightarrow> 'w \<Rightarrow> 'w) \<Rightarrow> 'w \<Rightarrow> ('a \<times> 'w) res" where
  "try_lock msg mutex upd w =
     bind_res (try_lock_expect msg (mutex w)) (\<lambda>x. Inr (x, upd (\<lambda>m. m\<lparr>mutex_held := True\<rparr>) w))"

definition unlock :: "(('a mutex \<Rightarrow> 'a mutex) \<Rightarrow> 'w \<Rightarrow> 'w) \<Rightarrow> 'w \<Rightarrow> 'w" where
  "unlock upd = upd (\<lambda>m. m\<lparr>mutex_held := False\<rparr>)"

section \<open>Registries\<close>

fun candidates_loop ::
  "('m, 'v) gc_env \<Rightarrow> nat \<Rightarrow> objref list \<Rightarrow> objref list \<Rightarrow> ('m, 'v) packet_code" where
  "candidates_loop env n new [] =
     act (put_candidates new) (
     act (emit (Probe_process_obj_free_candidates n (length new))) (
     act (unlock upd_candidates) Halt))"
| "candidates_loop env n new (ob # obs) =
     action None
       (\<lambda>w. Inr (if mc_is_reachable (env_core env) ob (w_core w)
                 then (new @ [forward (env_core env) (w_core w) ob], w)
                 else (new, w\<lparr>w_vm := up_call_obj_free (env_up env) ob (w_vm w)\<rparr>)))
       (\<lambda>new. candidates_loop env n new obs)"

definition candidates_code :: "('m, 'v) gc_env \<Rightarrow> ('m, 'v) packet_code" where
  "candidates_code env =
     action None (try_lock ''No mutators should hold this lock at this time.''
         (\<lambda>w. obj_free_candidates (weak_proc (w_binding w))) upd_candidates)
       (\<lambda>cands. candidates_loop env (length cands) [] cands)"

text \<open>The set behind the guard is emptied first; the survivors are inserted one by one.\<close>

fun wb_loop :: "('m, 'v) gc_env \<Rightarrow> nat \<Rightarrow> objref list \<Rightarrow> ('m, 'v) packet_code" where
  "wb_loop env n [] =
     act (\<lambda>w. emit (Probe_update_wb_unprotected_objects_list n
         (card (mutex_data (wb_unprotected_objects (w_binding w))))) w) (
     act (unlock upd_wb) Halt)"
| "wb_loop env n (ob # obs) =
     act (\<lambda>w. if mc_is_reachable (env_core env) ob (w_core w)
              then put_wb_unprotected (insert (forward (env_core env) (w_core w) ob)
                (mutex_data (wb_unprotected_objects (w_binding w)))) w
              else w)
       (wb_loop env n obs)"

definition wb_code :: "('m, 'v) gc_env \<Rightarrow> ('m, 'v) packet_code" where
  "wb_code env =
     action None (try_lock
         ''Someone is holding the lock of wb_unprotected_objects during weak processing phase?''
         (\<lambda>w. wb_unprotected_objects (w_binding w)) upd_wb)
       (\<lambda>old. act (put_wb_unprotected {}) (wb_loop env (card old) (env_set_order env old)))"

fun ppps_loop ::
  "('m, 'v) gc_env \<Rightarrow> nat \<Rightarrow> objref list \<Rightarrow> nat \<Rightarrow> nat \<Rightarrow> objref list \<Rightarrow> ('m, 'v) packet_code" where
  "ppps_loop env n kept no_longer dead [] =
     act (put_ppps kept) (
     act (emit (Probe_remove_dead_ppps n no_longer dead)) (
     act (unlock upd_ppps) Halt))"
| "ppps_loop env n kept no_longer dead (ob # obs) =
     ask (\<lambda>w. if \<not> mc_is_live (env_core env) ob (w_core w) then (kept, no_longer, Suc dead)
              else let new_obj = forward (env_core env) (w_core w) ob
                   in if up_is_no_longer_ppp (env_up env) new_obj (w_vm w)
                      then (kept, Suc no_longer, dead) else (kept @ [new_obj], no_longer, dead))
       (\<lambda>(kept, no_longer, dead). ppps_loop env n kept no_longer dead obs)"

definition ppps_code :: "('m, 'v) gc_env \<Rightarrow> ('m, 'v) packet_code" where
  "ppps_code env =
     action None (try_lock ''PPPRegistry::ppps should not have races during GC.''
         (\<lambda>w. ppps (ppp_reg (w_binding w))) upd_ppps)
       (\<lambda>xs. ppps_loop env (length xs) [] 0 0 xs)"

section \<open>Tables of the VM\<close>

text \<open>
  An upcall under the closure that \<open>GlobalTableProcessingWork::do_work\<close> sets. Of the upcalls of a table
  packet only this one visits objects.
\<close>

definition cleaner_call ::
  "('m, 'v) gc_env \<Rightarrow> unit gc_thread_tls \<Rightarrow> ('v \<Rightarrow> 'v vmcode) \<Rightarrow> ('m, 'v) world \<Rightarrow>
   (unit \<times> ('m, 'v) world) res" where
  "cleaner_call env gc_tls cleaner w =
     bind_res (run_with_closure (env_build env) (object_closure gc_tls)
         (forward_visitor (env_build env) (env_core env) (w_core w)) (cleaner (w_vm w)) ())
       (\<lambda>(v, _). Inr ((), w\<lparr>w_vm := v\<rparr>))"

definition with_tls ::
  "('m, 'v) gc_env \<Rightarrow> vm_worker_thread \<Rightarrow> ('s gc_thread_tls \<Rightarrow> ('m, 'v) packet_code) \<Rightarrow>
   ('m, 'v) packet_code" where
  "with_tls env tls k = (case from_vwt_check (env_build env) (tls_view (env_workers env)) tls of
     Inl e \<Rightarrow> Panics e | Inr gc_tls \<Rightarrow> k gc_tls)"

definition general_update_code ::
  "('m, 'v) gc_env \<Rightarrow> vm_worker_thread \<Rightarrow> ('v \<Rightarrow> address) \<Rightarrow> ('v \<Rightarrow> 'v vmcode) \<Rightarrow> ('m, 'v) packet_code" where
  "general_update_code env tls getter cleaner =
     with_tls env tls (\<lambda>gc_tls.
     ask (\<lambda>w. getter (w_vm w)) (\<lambda>table.
     ask (\<lambda>w. up_st_get_num_entries (env_up env) table (w_vm w)) (\<lambda>old_size.
     action None (cleaner_call env gc_tls cleaner) (\<lambda>_.
     act (\<lambda>w. emit (Probe_weak_table_size_change old_size
         (up_st_get_num_entries (env_up env) table (w_vm w))) w) Halt))))"

definition finalizer_code :: "('m, 'v) gc_env \<Rightarrow> vm_worker_thread \<Rightarrow> ('m, 'v) packet_code" where
  "finalizer_code env tls =
     (let up = env_up env; num = up_st_get_num_entries up
      in with_tls env tls (\<lambda>gc_tls.
         ask (\<lambda>w. (up_get_finalizer_table up (w_vm w), up_get_obj_to_id_table up (w_vm w),
                  up_get_id_to_obj_table up (w_vm w))) (\<lambda>(finalizer_table, obj_to_id_table, id_to_obj_table).
         ask (\<lambda>w. (num finalizer_table (w_vm w), num obj_to_id_table (w_vm w),
                  num id_to_obj_table (w_vm w))) (\<lambda>(old_f, old_o, old_i).
         action None (cleaner_call env gc_tls (up_update_finalizer_and_obj_id_tables up)) (\<lambda>_.
         act (\<lambda>w. emit (Probe_update_finalizer_and_obj_id_tables
             old_f (num finalizer_table (w_vm w)) old_o (num obj_to_id_table (w_vm w))
             old_i (num id_to_obj_table (w_vm w))) w) Halt)))))"

text \<open>The drain of the moved ivar tables is under the lock, the cleanup after it is not.\<close>

fun givtbl_loop ::
  "('m, 'v) gc_env \<Rightarrow> (objref \<times> moved_givtbl_entry) list \<Rightarrow> ('m, 'v) packet_code \<Rightarrow> ('m, 'v) packet_code" where
  "givtbl_loop env [] c = act (put_moved_givtbl Map.empty) (act (unlock upd_givtbl) c)"
| "givtbl_loop env ((new_objref, e) # es) c =
     act (\<lambda>w. w\<lparr>w_vm := up_move_givtbl (env_up env) (old_objref e) new_objref (w_vm w)\<rparr>) (givtbl_loop env es c)"

definition givtbl_code :: "('m, 'v) gc_env \<Rightarrow> vm_worker_thread \<Rightarrow> ('m, 'v) packet_code" where
  "givtbl_code env tls =
     with_tls env tls (\<lambda>gc_tls.
     action None (try_lock ''Should have no race in weak_proc'' (\<lambda>w. moved_givtbl (w_binding w)) upd_givtbl) (\<lambda>moved.
     let entries = env_map_order env moved in givtbl_loop env entries (
     ask (\<lambda>w. up_get_generic_iv_tbl (env_up env) (w_vm w)) (\<lambda>table.
     ask (\<lambda>w. up_st_get_num_entries (env_up env) table (w_vm w)) (\<lambda>old_size.
     action None (cleaner_call env gc_tls (up_cleanup_generic_iv_tbl (env_up env))) (\<lambda>_.
     act (\<lambda>w. emit (Probe_update_generic_iv_tbl (length entries) old_size
         (up_st_get_num_entries (env_up env) table (w_vm w))) w) Halt))))))"

section \<open>Chunked tables\<close>

text \<open>
  The actions of \<open>count_down\<close>: the \<open>fetch_sub\<close>, the take under the borrow, the \<open>bulk_add\<close>.
\<close>

definition put_latch :: "nat \<Rightarrow> gc_work after_all \<Rightarrow> ('m, 'v) world \<Rightarrow> ('m, 'v) world" where
  "put_latch aid aa w = w\<lparr>w_latches := (w_latches w)[aid := aa]\<rparr>"

definition fetch_sub :: "nat \<Rightarrow> ('m, 'v) world \<Rightarrow> (usize \<times> ('m, 'v) world) res" where
  "fetch_sub aid w = (let aa = w_latches w ! aid; old = counter aa
     in Inr (old, put_latch aid (aa\<lparr>counter := old - 1\<rparr>) w))"

definition take_stored :: "nat \<Rightarrow> ('m, 'v) world \<Rightarrow> (gc_work list \<times> ('m, 'v) world) res" where
  "take_stored aid w = (let aa = w_latches w ! aid in Inr (packets aa, put_latch aid (aa\<lparr>packets := []\<rparr>) w))"

definition count_down_code ::
  "nat \<Rightarrow> (bool \<Rightarrow> ('m, 'v) packet_code) \<Rightarrow> ('m, 'v) packet_code" where
  "count_down_code aid k =
     action (Some (At_latch aid Counting)) (fetch_sub aid) (\<lambda>old.
     if old = 1 then
       action (Some (At_latch aid Taking)) (take_stored aid) (\<lambda>ps.
       action (Some (At_latch aid (Adding ps)))
         (\<lambda>w. Inr ((), submit (stage (w_latches w ! aid)) ps w)) (\<lambda>_. k True))
     else k False)"

definition entries_code ::
  "('m, 'v) gc_env \<Rightarrow> string \<Rightarrow> address \<Rightarrow> usize \<Rightarrow> usize \<Rightarrow> bool \<Rightarrow> bool \<Rightarrow> bool \<Rightarrow> nat \<Rightarrow>
   ('m, 'v) packet_code" where
  "entries_code env name table bgn en weak_keys weak_values fwd aid =
     action (Some (At_latch aid Working))
       (\<lambda>w. if length (w_latches w) \<le> aid then Inl (UB ''dangling Arc<AfterAll>'')
            else let (deleted, v) = up_st_update_entries_range (env_up env) table bgn en
                   weak_keys weak_values fwd (w_vm w)
                 in Inr ((), emit (Probe_update_table_entries_parallel bgn en deleted name) (w\<lparr>w_vm := v\<rparr>)))
       (\<lambda>_. count_down_code aid (\<lambda>is_last.
         if is_last then
           act (\<lambda>w. emit (Probe_final_weak_table_stats
               (up_st_get_num_entries (env_up env) table (w_vm w)) name) w) Halt
         else Halt))"

definition bins_code ::
  "('m, 'v) gc_env \<Rightarrow> string \<Rightarrow> address \<Rightarrow> usize \<Rightarrow> usize \<Rightarrow> ('m, 'v) packet_code" where
  "bins_code env name table bgn en =
     action (Some At_bins)
       (\<lambda>w. let (deleted, v) = up_st_update_bins_range (env_up env) table bgn en (w_vm w)
            in Inr ((), emit (Probe_update_table_bins_parallel bgn en deleted name) (w\<lparr>w_vm := v\<rparr>)))
       (\<lambda>_. Halt)"

section \<open>Pinning and unpinning\<close>

text \<open>
  The children the VM reports go into a vector of the packet; \<open>lock\<close> on the shared list is an action
  that can be taken while nobody holds the lock, and the append is over when the guard is dropped.
\<close>

fun pin_mark_loop ::
  "('m, 'v) gc_env \<Rightarrow> objref list gc_thread_tls \<Rightarrow> nat \<Rightarrow> objref list \<Rightarrow> objref list \<Rightarrow>
   (nat \<Rightarrow> objref list \<Rightarrow> ('m, 'v) packet_code) \<Rightarrow> ('m, 'v) packet_code" where
  "pin_mark_loop env gc_tls n children [] k = k n children"
| "pin_mark_loop env gc_tls n children (ob # obs) k =
     action None
       (\<lambda>w. if up_is_no_longer_ppp (env_up env) ob (w_vm w) then Inr ((Suc n, children), w)
            else bind_res (run_with_closure (env_build env) (object_closure gc_tls) pin_visitor
                (up_call_gc_mark_children (env_up env) ob (w_vm w)) children)
              (\<lambda>(v, children). Inr ((n, children), w\<lparr>w_vm := v\<rparr>)))
       (\<lambda>(n, children). pin_mark_loop env gc_tls n children obs k)"

fun pin_loop ::
  "('m, 'v) gc_env \<Rightarrow> objref list \<Rightarrow> objref list \<Rightarrow> (objref list \<Rightarrow> ('m, 'v) packet_code) \<Rightarrow>
   ('m, 'v) packet_code" where
  "pin_loop env newly [] k = k newly"
| "pin_loop env newly (ob # obs) k =
     action (Some (Owes newly))
       (\<lambda>w. let (b, m) = mc_pin_object (env_core env) ob (w_core w)
            in Inr (if b then newly @ [ob] else newly, w\<lparr>w_core := m\<rparr>))
       (\<lambda>newly. pin_loop env newly obs k)"

definition pin_code ::
  "('m, 'v) gc_env \<Rightarrow> vm_worker_thread \<Rightarrow> objref list \<Rightarrow> ('m, 'v) packet_code" where
  "pin_code env tls chunk =
     with_tls env tls (\<lambda>gc_tls.
     pin_mark_loop env gc_tls 0 [] chunk (\<lambda>no_longer children.
     pin_loop env [] children (\<lambda>newly.
     action (Some (Owes newly))
         (\<lambda>w. Inr ((), emit (Probe_pin_ppp_children (length chunk) no_longer (length newly)) w)) (\<lambda>_.
     action (Some (Owes newly)) (\<lambda>w. bind_res (lock_unwrap (pinned_ppp_children (ppp_reg (w_binding w))))
         (\<lambda>pinned. Inr ((), put_pinned (pinned @ newly) w))) (\<lambda>_. Halt)))))"

fun unpin_loop :: "('m, 'v) gc_env \<Rightarrow> objref list \<Rightarrow> ('m, 'v) packet_code" where
  "unpin_loop env [] = Halt"
| "unpin_loop env (ob # obs) =
     action None
       (\<lambda>w. let (unpinned, m) = mc_unpin_object (env_core env) ob (w_core w)
            in bind_res (debug_assert (env_build env) unpinned ''unpinned'') (\<lambda>_. Inr ((), w\<lparr>w_core := m\<rparr>)))
       (\<lambda>_. unpin_loop env obs)"

definition unpin_code :: "('m, 'v) gc_env \<Rightarrow> objref list \<Rightarrow> ('m, 'v) packet_code" where
  "unpin_code env children =
     act (emit (Probe_unpin_ppp_children (length children))) (unpin_loop env children)"

section \<open>All packets\<close>

text \<open>The work of a packet that scans roots is one upcall, under one closure: one action.\<close>

definition packet_code ::
  "('m, 'v) gc_env \<Rightarrow> vm_worker_thread \<Rightarrow> gc_work \<Rightarrow> ('m, 'v) packet_code" where
  "packet_code env tls packet = (let up = env_up env in case packet of
       ProcessObjFreeCandidates \<Rightarrow> candidates_code env
     | UpdateGenericIvTbl \<Rightarrow> givtbl_code env tls
     | UpdateFinalizerAndObjIdTables \<Rightarrow> finalizer_code env tls
     | UpdateOverloadedCmeTable \<Rightarrow>
         general_update_code env tls (up_get_overloaded_cme_table up) (up_update_overloaded_cme_table up)
     | UpdateCiTable \<Rightarrow> general_update_code env tls (up_get_ci_table up) (up_update_ci_table up)
     | UpdateWbUnprotectedObjectsList \<Rightarrow> wb_code env
     | UpdateTableEntriesParallel name tbl b e wk wv fwd aid \<Rightarrow> entries_code env name tbl b e wk wv fwd aid
     | UpdateTableBinsParallel name tbl b e \<Rightarrow> bins_code env name tbl b e
     | PinPPPChildren chunk \<Rightarrow> pin_code env tls chunk
     | RemoveDeadPPPs \<Rightarrow> ppps_code env
     | UnpinPPPChildren children \<Rightarrow> unpin_code env children
     | _ \<Rightarrow> action None (\<lambda>w. bind_res (do_work env tls packet w) (\<lambda>w'. Inr ((), w'))) (\<lambda>_. Halt))"


lemma duty_loops [simp]:
  "duty (candidates_loop env n new obs) = None" "duty (wb_loop env n obs) = None"
  "duty (ppps_loop env n kept no_longer dead obs) = None" "duty (givtbl_loop env es c) = None"
  "duty (unpin_loop env obs) = None" "duty (count_down_code aid k) = Some (At_latch aid Counting)"
  by (cases obs; cases es; auto simp: count_down_code_def)+

lemma duty_with_tls: "(\<And>gc_tls. duty (k gc_tls) = None) \<Longrightarrow> duty (with_tls env tls k) = None"
  by (simp add: with_tls_def split: sum.split)

text \<open>A worker starts without a duty, but for the packets of chunked tables.\<close>

fun first_duty :: "gc_work \<Rightarrow> packet_duty option" where
  "first_duty (UpdateTableEntriesParallel name tbl b e wk wv fwd aid) = Some (At_latch aid Working)"
| "first_duty (UpdateTableBinsParallel name tbl b e) = Some At_bins"
| "first_duty _ = None"

lemma duty_packet_code:
  assumes "\<And>chunk. packet \<noteq> PinPPPChildren chunk"
  shows "duty (packet_code env tls packet) = first_duty packet"
  by (cases packet)
    (simp_all add: assms packet_code_def Let_def candidates_code_def givtbl_code_def finalizer_code_def
      general_update_code_def wb_code_def entries_code_def bins_code_def ppps_code_def
      unpin_code_def duty_with_tls)

text \<open>What a pinning packet has to hand over.\<close>

fun owed :: "packet_duty option \<Rightarrow> objref list" where
  "owed (Some (Owes newly)) = newly"
| "owed _ = []"

lemma duty_pin_code:
  "duty (packet_code env tls (PinPPPChildren chunk)) = None \<or>
   duty (packet_code env tls (PinPPPChildren chunk)) = Some (Owes [])"
proof -
  have l: "duty (pin_loop env [] obs k) = Some (Owes [])" if "duty (k []) = Some (Owes [])" for obs k
    using that by (cases obs) simp_all
  have m: "duty (pin_mark_loop env gc_tls n children obs k) = None \<or>
      duty (pin_mark_loop env gc_tls n children obs k) = Some (Owes [])"
    if "\<And>n obs. duty (k n obs) = Some (Owes [])" for gc_tls n children obs k
    using that by (cases obs) simp_all
  show ?thesis
    by (auto simp: packet_code_def Let_def pin_code_def with_tls_def split: sum.split intro!: m l)
qed

lemma duty_at_start:
  "duty (packet_code env tls packet) = first_duty packet \<or> duty (packet_code env tls packet) = Some (Owes [])"
  using duty_packet_code [of packet env tls] duty_pin_code [of env tls] by (cases packet) auto

section \<open>Code that runs alone\<close>

lemma mutex_relock: "mutex_free m \<Longrightarrow> m\<lparr>mutex_held := False\<rparr> = m"
  by (cases m) (simp add: mutex_free_def)

lemma run_candidates_loop:
  "run_code (candidates_loop env n new obs) w =
     (case process_candidates (env_core env) (env_up env) (w_core w) obs (w_vm w) of (rest, v) \<Rightarrow>
      Inr (unlock upd_candidates (emit (Probe_process_obj_free_candidates n (length (new @ rest)))
        (put_candidates (new @ rest) (w\<lparr>w_vm := v\<rparr>)))))"
  by (induction obs arbitrary: new w) (simp_all split: prod.split)

lemma run_candidates_code:
  "run_code (candidates_code env) w = process_obj_free_candidates_do_work (env_core env) (env_up env) w"
  by (auto simp: candidates_code_def process_obj_free_candidates_do_work_def try_lock_def unlock_def
      run_candidates_loop upd_candidates_def put_candidates_def emit_def mutex_relock try_lock_expect_Inr
      bind_res_assoc intro!: bind_res_cong split: prod.split)

lemma run_wb_loop:
  "run_code (wb_loop env n obs) w =
     (let objects = fold (\<lambda>ob objects. if mc_is_reachable (env_core env) ob (w_core w)
            then insert (forward (env_core env) (w_core w) ob) objects else objects) obs
            (mutex_data (wb_unprotected_objects (w_binding w)))
      in Inr (unlock upd_wb (emit (Probe_update_wb_unprotected_objects_list n (card objects))
           (put_wb_unprotected objects w))))"
proof (induction obs arbitrary: w)
  case Nil
  then show ?case
    by (cases w) (simp add: put_wb_unprotected_def)
next
  case (Cons ob obs)
  then show ?case
    by (simp add: Let_def cong: if_cong) (simp add: put_wb_unprotected_def)
qed

lemma run_wb_code:
  "run_code (wb_code env) w = update_wb_unprotected_objects_list_do_work (env_core env) (env_set_order env) w"
  by (auto simp: wb_code_def update_wb_unprotected_objects_list_do_work_def try_lock_def unlock_def Let_def
      run_wb_loop retain_wb_unprotected_def upd_wb_def put_wb_unprotected_def emit_def mutex_relock
      try_lock_expect_Inr bind_res_assoc intro!: bind_res_cong cong: if_cong)

lemma run_ppps_loop:
  "run_code (ppps_loop env n kept no_longer dead obs) w =
     (case retain_ppps (env_core env) (env_up env) (w_core w) (w_vm w) obs of (kept', no_longer', dead') \<Rightarrow>
      Inr (unlock upd_ppps (emit (Probe_remove_dead_ppps n (no_longer + no_longer') (dead + dead'))
        (put_ppps (kept @ kept') w))))"
  by (induction obs arbitrary: kept no_longer dead) (auto simp: Let_def split: prod.splits)

lemma run_ppps_code: "run_code (ppps_code env) w = remove_dead_ppps_do_work (env_core env) (env_up env) w"
  by (auto simp: ppps_code_def remove_dead_ppps_do_work_def try_lock_def unlock_def run_ppps_loop
      upd_ppps_def put_ppps_def emit_def mutex_relock try_lock_expect_Inr bind_res_assoc
      intro!: bind_res_cong split: prod.split)

text \<open>A table packet: the closure is set around the upcall that visits, and everything else is outside.\<close>

lemma run_with_tls:
  "run_code (with_tls env tls k) w =
     bind_res (from_vwt_check (env_build env) (tls_view (env_workers env)) tls) (\<lambda>gc_tls. run_code (k gc_tls) w)"
  by (simp add: with_tls_def split: sum.split)

lemma global_table_alone:
  assumes g: "from_vwt_check (env_build env) (tls_view (env_workers env)) tls = Inr gc_tls"
    and "process w = vm_bind (cleaner (w_vm u)) (\<lambda>v. VM_done (Inr (f (u\<lparr>w_vm := v\<rparr>))))"
    and "w_core u = w_core w"
  shows "global_table_do_work (env_build env) (env_core env) (tls_view (env_workers env)) tls process w =
    bind_res (cleaner_call env gc_tls cleaner u) (\<lambda>(_, w'). Inr (f w'))"
  using assms from_vwt_check_tls_view [OF g]
  by (auto simp: global_table_do_work_def cleaner_call_def run_with_closure_default run_visitor_vm_bind
      bind_res_assoc intro!: bind_res_cong split: prod.splits)

lemma run_general_update_code:
  "run_code (general_update_code env tls getter cleaner) w =
     global_table_do_work (env_build env) (env_core env) (tls_view (env_workers env)) tls
       (general_update_weak_table (env_up env) getter cleaner) w"
proof (cases "from_vwt_check (env_build env) (tls_view (env_workers env)) tls :: unit gc_thread_tls res")
  case (Inl e)
  then show ?thesis
    by (simp add: general_update_code_def run_with_tls global_table_do_work_def)
next
  case (Inr gc_tls)
  let ?num = "up_st_get_num_entries (env_up env) (getter (w_vm w))"
  show ?thesis
    by (subst global_table_alone [OF Inr, where cleaner = cleaner and u = w and
          f = "\<lambda>w'. emit (Probe_weak_table_size_change (?num (w_vm w)) (?num (w_vm w'))) w'"])
      (simp_all add: general_update_code_def general_update_weak_table_def Let_def run_with_tls Inr)
qed

lemma run_finalizer_code:
  "run_code (finalizer_code env tls) w =
     global_table_do_work (env_build env) (env_core env) (tls_view (env_workers env)) tls
       (update_finalizer_and_obj_id_tables (env_up env)) w"
proof (cases "from_vwt_check (env_build env) (tls_view (env_workers env)) tls :: unit gc_thread_tls res")
  case (Inl e)
  then show ?thesis
    by (simp add: finalizer_code_def run_with_tls global_table_do_work_def Let_def)
next
  case (Inr gc_tls)
  let ?up = "env_up env" and ?v = "w_vm w"
  let ?num = "up_st_get_num_entries ?up"
  let ?f = "?num (up_get_finalizer_table ?up ?v)" and ?o = "?num (up_get_obj_to_id_table ?up ?v)"
    and ?i = "?num (up_get_id_to_obj_table ?up ?v)"
  show ?thesis
    by (subst global_table_alone [OF Inr, where u = w and f = "\<lambda>w'. emit
          (Probe_update_finalizer_and_obj_id_tables (?f ?v) (?f (w_vm w')) (?o ?v) (?o (w_vm w'))
            (?i ?v) (?i (w_vm w'))) w'"])
      (simp_all add: finalizer_code_def update_finalizer_and_obj_id_tables_def Let_def run_with_tls Inr)
qed

lemma run_givtbl_loop:
  "run_code (givtbl_loop env es c) w =
     run_code c (unlock upd_givtbl (put_moved_givtbl Map.empty (w\<lparr>w_vm := move_givtbls (env_up env) es (w_vm w)\<rparr>)))"
  by (induction env es c arbitrary: w rule: givtbl_loop.induct) (simp_all add: move_givtbls_def)

lemma run_givtbl_code:
  "run_code (givtbl_code env tls) w =
     global_table_do_work (env_build env) (env_core env) (tls_view (env_workers env)) tls
       (update_generic_iv_tbl (env_up env) (env_map_order env)) w"
proof (cases "from_vwt_check (env_build env) (tls_view (env_workers env)) tls :: unit gc_thread_tls res")
  case (Inl e)
  then show ?thesis
    by (simp add: givtbl_code_def run_with_tls global_table_do_work_def)
next
  case (Inr gc_tls)
  let ?lock = "try_lock_expect ''Should have no race in weak_proc'' (moved_givtbl (w_binding w))"
  show ?thesis
  proof (cases ?lock)
    case (Inl e)
    with \<open>_ = Inr gc_tls\<close> from_vwt_check_tls_view [OF Inr] show ?thesis
      by (simp add: givtbl_code_def run_with_tls try_lock_def global_table_do_work_def
          update_generic_iv_tbl_def run_with_closure_default)
  next
    case lock: (Inr moved)
    let ?v = "move_givtbls (env_up env) (env_map_order env moved) (w_vm w)"
    let ?w1 = "put_moved_givtbl Map.empty (w\<lparr>w_vm := ?v\<rparr>)"
    let ?num = "up_st_get_num_entries (env_up env) (up_get_generic_iv_tbl (env_up env) ?v)"
    have "unlock upd_givtbl (put_moved_givtbl Map.empty (upd_givtbl (\<lambda>m. m\<lparr>mutex_held := True\<rparr>) w\<lparr>w_vm := ?v\<rparr>)) = ?w1"
      using lock by (auto simp: unlock_def upd_givtbl_def put_moved_givtbl_def mutex_relock try_lock_expect_Inr)
    moreover have "w_vm (upd_givtbl f w) = w_vm w" for f
      by (simp add: upd_givtbl_def)
    ultimately show ?thesis
      by (subst global_table_alone [OF Inr, where u = ?w1 and f = "\<lambda>w'. emit
            (Probe_update_generic_iv_tbl (length (env_map_order env moved)) (?num ?v) (?num (w_vm w'))) w'"])
        (simp_all add: givtbl_code_def update_generic_iv_tbl_def Let_def run_with_tls Inr lock
          try_lock_def run_givtbl_loop)
  qed
qed

lemma run_count_down_code:
  assumes "aid < length (w_latches w)"
  shows "run_code (count_down_code aid k) w =
    (case count_down (w_latches w ! aid) (w_buckets w) of (r, aa, b) \<Rightarrow>
       run_code (k r) (w\<lparr>w_latches := (w_latches w)[aid := aa], w_buckets := b\<rparr>))"
  using assms
  by (simp add: count_down_code_def fetch_sub_def take_stored_def count_down_def Let_def put_latch_def submit_def)

lemma run_entries_code:
  "run_code (entries_code env name tbl b e wk wv fwd aid) w =
     table_entries_do_work (env_up env) name tbl b e wk wv fwd aid w"
  by (auto simp: entries_code_def table_entries_do_work_def Let_def run_count_down_code split: prod.split)

lemma run_bins_code:
  "run_code (bins_code env name tbl b e) w = table_bins_do_work (env_up env) name tbl b e w"
  by (simp add: bins_code_def table_bins_do_work_def case_prod_beta)

lemma run_pin_mark_loop:
  assumes "object_closure gc_tls = object_closure_default"
  shows "run_code (pin_mark_loop env gc_tls n children obs k) w =
    bind_res (run_visitor pin_visitor (pin_body (env_up env) obs n (w_vm w)) children)
      (\<lambda>((n, v), children). run_code (k n children) (w\<lparr>w_vm := v\<rparr>))"
proof (induction obs arbitrary: n children w)
  case (Cons ob obs)
  then show ?case
    using assms
    by (auto simp: run_with_closure_default run_visitor_vm_bind bind_res_assoc case_prod_beta
        intro!: bind_res_cong)
qed simp

lemma run_pin_loop:
  "run_code (pin_loop env newly obs k) w =
     (case pin_children (env_core env) obs (w_core w) of (rest, m) \<Rightarrow>
        run_code (k (newly @ rest)) (w\<lparr>w_core := m\<rparr>))"
  by (induction obs arbitrary: newly w) (auto simp: Let_def split: prod.splits)

lemma run_pin_code:
  "run_code (pin_code env tls chunk) w =
     pin_ppp_children_do_work (env_build env) (env_core env) (env_up env) (tls_view (env_workers env)) tls chunk w"
proof (cases "from_vwt_check (env_build env) (tls_view (env_workers env)) tls :: objref list gc_thread_tls res")
  case (Inl e)
  then show ?thesis
    by (simp add: pin_code_def run_with_tls pin_ppp_children_do_work_def)
next
  case (Inr gc_tls)
  then show ?thesis
    using from_vwt_check_tls_view [OF Inr]
    by (simp add: pin_code_def run_with_tls run_pin_mark_loop pin_ppp_children_do_work_def run_with_closure_default)
      (auto simp: run_pin_loop Let_def bind_res_assoc intro!: bind_res_cong split: prod.splits)
qed

lemma run_unpin_loop:
  "run_code (unpin_loop env obs) w =
     bind_res (unpin_children (env_build env) (env_core env) obs (w_core w)) (\<lambda>m. Inr (w\<lparr>w_core := m\<rparr>))"
  by (induction obs arbitrary: w) (auto simp: Let_def bind_res_assoc intro!: bind_res_cong split: prod.splits)

lemma run_unpin_code:
  "run_code (unpin_code env children) w = unpin_ppp_children_do_work (env_build env) (env_core env) children w"
  by (cases w) (simp add: unpin_code_def run_unpin_loop unpin_ppp_children_do_work_def emit_def)

lemma run_packet_code: "run_code (packet_code env tls packet) w = do_work env tls packet w"
  by (cases packet)
    (simp_all add: packet_code_def Let_def do_work_def [of env tls] run_candidates_code run_givtbl_code run_finalizer_code
      run_general_update_code run_wb_code run_entries_code run_bins_code run_pin_code run_ppps_code run_unpin_code
      update_overloaded_cme_table_def update_ci_table_def bind_res_assoc bind_res_return)

end
