(* ===== verification/Packet_Race.thy ===== *)
theory Packet_Race
  imports Packet_Code Gc_Progress
begin

text \<open>
  The workers in the middle of their packets: the step relation \<open>race_step\<close> interleaves the actions of
  all packets under way, in either bucket. What a packet relies on and what it guarantees are stated for each packet of
  the closing bucket, and the packets are shown to stay on task among each other.
\<close>

section \<open>The workers\<close>

text \<open>A job: the worker's thread, its packet, and what it still has to do. A worker has one at a time.\<close>

type_synonym ('m, 'v) job = "vm_worker_thread \<times> gc_work \<times> ('m, 'v) packet_code"

record ('m, 'v) race =
  race_world :: "('m, 'v) world"
  race_jobs :: "('m, 'v) job multiset"

inductive race_step ::
  "('m, 'v) gc_env \<Rightarrow> work_bucket_stage \<Rightarrow> ('m, 'v) race \<Rightarrow> ('m, 'v) race \<Rightarrow> bool"
  for env st where
  race_take: "w_buckets w st = xs @ packet # ys \<Longrightarrow> env_workers env tls = Some ctx \<Longrightarrow>
     tls \<notin># image_mset fst J \<Longrightarrow>
     race_step env st \<lparr>race_world = w, race_jobs = J\<rparr>
       \<lparr>race_world = w\<lparr>w_buckets := (w_buckets w)(st := xs @ ys)\<rparr>,
        race_jobs = add_mset (tls, packet, packet_code env tls packet) J\<rparr>"
| race_act: "race_step env st \<lparr>race_world = w, race_jobs = add_mset (tls, packet, Act l t k) J\<rparr>
       \<lparr>race_world = t w, race_jobs = add_mset (tls, packet, k w) J\<rparr>"
| race_done: "race_step env st \<lparr>race_world = w, race_jobs = add_mset (tls, packet, Halt) J\<rparr>
       \<lparr>race_world = w, race_jobs = J\<rparr>"

inductive_cases race_stepE: "race_step env st s t"

definition race_start :: "('m, 'v) world \<Rightarrow> ('m, 'v) race" where
  "race_start w = \<lparr>race_world = w, race_jobs = {#}\<rparr>"

definition race_panics :: "('m, 'v) race \<Rightarrow> bool" where
  "race_panics s \<longleftrightarrow> (\<exists>tls packet e. (tls, packet, Panics e) \<in># race_jobs s)"

definition race_over :: "work_bucket_stage \<Rightarrow> ('m, 'v) race \<Rightarrow> bool" where
  "race_over st s \<longleftrightarrow> race_jobs s = {#} \<and> w_buckets (race_world s) st = []"

text \<open>A packet executed in one go is one of the runs.\<close>

lemma code_runs:
  "run_code c w = Inr w' \<Longrightarrow>
   (race_step env st)\<^sup>*\<^sup>* \<lparr>race_world = w, race_jobs = add_mset (tls, packet, c) J\<rparr>
     \<lparr>race_world = w', race_jobs = add_mset (tls, packet, Halt) J\<rparr>"
proof (induction c arbitrary: w)
  case (Act l t k)
  have "race_step env st \<lparr>race_world = w, race_jobs = add_mset (tls, packet, Act l t k) J\<rparr>
      \<lparr>race_world = t w, race_jobs = add_mset (tls, packet, k w) J\<rparr>"
    by (rule race_act)
  with Act show ?case
    by (auto intro: converse_rtranclp_into_rtranclp)
qed simp_all

lemma bucket_step_races:
  assumes "bucket_step env st w w'"
  shows "(race_step env st)\<^sup>*\<^sup>* (race_start w) (race_start w')"
  using assms
proof cases
  case (take_packet xs packet ys tls ctx)
  let ?w = "w\<lparr>w_buckets := (w_buckets w)(st := xs @ ys)\<rparr>"
  have "race_step env st (race_start w) \<lparr>race_world = ?w, race_jobs = add_mset (tls, packet, packet_code env tls packet) {#}\<rparr>"
    unfolding race_start_def using take_packet(1,2) by (rule race_take) simp
  moreover have "(race_step env st)\<^sup>*\<^sup>*
      \<lparr>race_world = ?w, race_jobs = add_mset (tls, packet, packet_code env tls packet) {#}\<rparr>
      \<lparr>race_world = w', race_jobs = add_mset (tls, packet, Halt) {#}\<rparr>"
    using take_packet(3) by (intro code_runs) (simp add: run_packet_code)
  moreover have "race_step env st \<lparr>race_world = w', race_jobs = add_mset (tls, packet, Halt) {#}\<rparr> (race_start w')"
    unfolding race_start_def by (rule race_done)
  ultimately show ?thesis
    by (meson converse_rtranclp_into_rtranclp rtranclp.rtrancl_into_rtrancl)
qed

lemma bucket_run_races:
  "(bucket_step env st)\<^sup>*\<^sup>* w w' \<Longrightarrow> (race_step env st)\<^sup>*\<^sup>* (race_start w) (race_start w')"
  by (induction rule: rtranclp_induct) (auto intro: bucket_step_races rtranclp_trans)


section \<open>Races that end\<close>

text \<open>An invariant under which no packet panics and every step leaves less work in a well-founded order.\<close>

locale terminating_race =
  fixes env :: "('m, 'v) gc_env" and st :: work_bucket_stage and ok :: "('m, 'v) race \<Rightarrow> bool"
    and order :: "(('m, 'v) race \<times> ('m, 'v) race) set"
  assumes step_keeps: "race_step env st s t \<Longrightarrow> ok s \<Longrightarrow> ok t"
    and no_panic: "ok s \<Longrightarrow> \<not> race_panics s"
    and wf_order: "wf order" and step_less: "race_step env st s t \<Longrightarrow> ok s \<Longrightarrow> (t, s) \<in> order"
begin

lemma run_keeps: "(race_step env st)\<^sup>*\<^sup>* s t \<Longrightarrow> ok s \<Longrightarrow> ok t"
  by (induction rule: rtranclp_induct) (auto intro: step_keeps)

lemma runs_end:
  assumes "ok (f 0)" "\<And>i. race_step env st (f i) (f (Suc i))"
  shows False
proof -
  have "ok (f i)" for i
  proof (induction i)
    case (Suc i)
    from step_keeps [OF assms(2) this] show ?case .
  qed (rule assms(1))
  then have "(f (Suc i), f i) \<in> order" for i
    using assms(2) by (intro step_less)
  then have "\<exists>f. \<forall>i. (f (Suc i), f i) \<in> order"
    by blast
  with wf_order show False
    unfolding wf_iff_no_infinite_down_chain by contradiction
qed

text \<open>As long as there is a worker, only the end is without a next step.\<close>

lemma stuck:
  assumes ok: "ok s" and t: "env_workers env tls = Some ctx" and stuck: "\<nexists>u. race_step env st s u"
  shows "race_over st s"
proof -
  obtain w J where s: "s = \<lparr>race_world = w, race_jobs = J\<rparr>"
    by (cases s) simp
  have J: "J = {#}"
  proof (rule ccontr)
    assume "J \<noteq> {#}"
    then obtain t p c K where K: "J = add_mset (t, p, c) K"
      by (metis multiset_cases prod_cases3)
    then show False
    proof (cases c)
      case Halt
      with stuck K s race_done show False
        by blast
    next
      case (Panics e)
      with K s no_panic [OF ok] show False
        by (auto simp: race_panics_def)
    next
      case (Act l f k)
      with stuck K s race_act show False
        by blast
    qed
  qed
  have "w_buckets w st = []"
  proof (rule ccontr)
    assume "w_buckets w st \<noteq> []"
    then obtain packet ys where "w_buckets w st = [] @ packet # ys"
      by (cases "w_buckets w st") auto
    from race_take [OF this t, of J] stuck s J show False
      by auto
  qed
  with J s show ?thesis
    by (simp add: race_over_def)
qed

lemma completes:
  assumes t: "env_workers env tls = Some ctx" and "ok s"
  shows "\<exists>u. (race_step env st)\<^sup>*\<^sup>* s u \<and> race_over st u"
  using assms(2)
proof (induction s rule: wf_induct_rule [OF wf_order])
  case (1 s)
  show ?case
  proof (cases "\<exists>u. race_step env st s u")
    case True
    then obtain u where u: "race_step env st s u"
      by blast
    from 1(1) [OF step_less [OF u 1(2)] step_keeps [OF u 1(2)]] obtain v where
      "(race_step env st)\<^sup>*\<^sup>* u v" "race_over st v"
      by blast
    with converse_rtranclp_into_rtranclp [of "race_step env st", OF u] show ?thesis
      by blast
  next
    case False
    with stuck [OF 1(2) t] show ?thesis
      by blast
  qed
qed

end

section \<open>What packets may rely on\<close>

text \<open>
  The resources of the closing bucket that one packet has for itself. The bits that pin objects are the
  business of \<open>UnpinPPPChildren\<close> alone.
\<close>

datatype resource = Candidate_list | Ppp_list | Wb_set | Moved_tables | Pin_bits

fun resource_of :: "gc_work \<Rightarrow> resource option" where
  "resource_of ProcessObjFreeCandidates = Some Candidate_list"
| "resource_of RemoveDeadPPPs = Some Ppp_list"
| "resource_of UpdateWbUnprotectedObjectsList = Some Wb_set"
| "resource_of UpdateGenericIvTbl = Some Moved_tables"
| "resource_of (UnpinPPPChildren children) = Some Pin_bits"
| "resource_of _ = None"

fun same_resource :: "resource \<Rightarrow> ('m, 'v) world \<Rightarrow> ('m, 'v) world \<Rightarrow> bool" where
  "same_resource Candidate_list w w' = (weak_proc (w_binding w') = weak_proc (w_binding w))"
| "same_resource Ppp_list w w' = (ppps (ppp_reg (w_binding w')) = ppps (ppp_reg (w_binding w)))"
| "same_resource Wb_set w w' = (wb_unprotected_objects (w_binding w') = wb_unprotected_objects (w_binding w))"
| "same_resource Moved_tables w w' = (moved_givtbl (w_binding w') = moved_givtbl (w_binding w))"
| "same_resource Pin_bits w w' = (w_core w' = w_core w)"

text \<open>What no packet of the closing bucket touches.\<close>

definition same_rest :: "('m, 'v) world \<Rightarrow> ('m, 'v) world \<Rightarrow> bool" where
  "same_rest w w' \<longleftrightarrow> w_buckets w' Prepare = w_buckets w Prepare \<and> w_root_work w' = w_root_work w \<and>
     length (w_latches w') = length (w_latches w) \<and> plan_name (w_binding w') = plan_name (w_binding w) \<and>
     pinned_ppp_children (ppp_reg (w_binding w')) = pinned_ppp_children (ppp_reg (w_binding w)) \<and>
     st_entries_chunk_size (w_binding w') = st_entries_chunk_size (w_binding w) \<and>
     st_bins_chunk_size (w_binding w') = st_bins_chunk_size (w_binding w)"

text \<open>The world while the bucket runs: \<open>m\<close> is mmtk-core when tracing ended.\<close>

definition race_inv ::
  "('m, 'v) gc_env \<Rightarrow> ('m \<Rightarrow> 'v \<Rightarrow> bool) \<Rightarrow> 'm \<Rightarrow> ('m, 'v) world \<Rightarrow> bool" where
  "race_inv env good m w \<longleftrightarrow> latches_hold_bins w \<and> same_heap (env_core env) m (w_core w) \<and>
     good (w_core w) (w_vm w)"

definition packet_rely ::
  "('m, 'v) gc_env \<Rightarrow> ('m \<Rightarrow> 'v \<Rightarrow> bool) \<Rightarrow> 'm \<Rightarrow> gc_work \<Rightarrow> ('m, 'v) world \<Rightarrow> ('m, 'v) world \<Rightarrow> bool" where
  "packet_rely env good m packet w w' \<longleftrightarrow> race_inv env good m w' \<and> same_rest w w' \<and>
     (\<forall>r. resource_of packet = Some r \<longrightarrow> same_resource r w w')"

text \<open>
  What an action does to the latches and to the closing bucket, by the labels before and after it, and
  which updates of ranges it reports.
\<close>

fun packet_latch :: "gc_work \<Rightarrow> nat option" where
  "packet_latch (UpdateTableEntriesParallel name tbl b e wk wv fwd aid) = Some aid"
| "packet_latch _ = None"

fun latch_move ::
  "gc_work \<Rightarrow> packet_duty option \<Rightarrow> ('m, 'v) world \<Rightarrow> packet_duty option \<Rightarrow> ('m, 'v) world \<Rightarrow> bool" where
  "latch_move packet (Some (At_latch aid pc)) w l' w' =
     (packet_latch packet = Some aid \<and> aid < length (w_latches w) \<and> (let aa = w_latches w ! aid in case pc of
        Working \<Rightarrow> w_buckets w' = w_buckets w \<and> w_latches w' = w_latches w \<and> l' = Some (At_latch aid Counting)
      | Counting \<Rightarrow> w_buckets w' = w_buckets w \<and>
          w_latches w' = (w_latches w)[aid := aa\<lparr>counter := counter aa - 1\<rparr>] \<and>
          l' = (if counter aa = 1 then Some (At_latch aid Taking) else None)
      | Taking \<Rightarrow> w_buckets w' = w_buckets w \<and> w_latches w' = (w_latches w)[aid := aa\<lparr>packets := []\<rparr>] \<and>
          l' = Some (At_latch aid (Adding (packets aa)))
      | Adding ps \<Rightarrow> w_buckets w' = bulk_add (stage aa) ps (w_buckets w) \<and> w_latches w' = w_latches w \<and> l' = None
      | Finished r \<Rightarrow> False))"
| "latch_move packet (Some At_bins) w l' w' =
     (is_bins_packet packet \<and> w_buckets w' = w_buckets w \<and> w_latches w' = w_latches w \<and> l' = None)"
| "latch_move packet (Some (Owes newly)) w l' w' = False"
| "latch_move packet None w l' w' = (w_buckets w' = w_buckets w \<and> w_latches w' = w_latches w \<and> l' = None)"

fun update_probe :: "probe \<Rightarrow> bool" where
  "update_probe (Probe_update_table_entries_parallel b e n name) = True"
| "update_probe (Probe_update_table_bins_parallel b e n name) = True"
| "update_probe _ = False"

fun updates_reported :: "gc_work \<Rightarrow> packet_duty option \<Rightarrow> probe list \<Rightarrow> bool" where
  "updates_reported (UpdateTableEntriesParallel name tbl b e wk wv fwd aid) (Some (At_latch i Working)) ps =
     (\<exists>n. ps = [Probe_update_table_entries_parallel b e n name])"
| "updates_reported (UpdateTableBinsParallel name tbl b e) (Some At_bins) ps =
     (\<exists>n. ps = [Probe_update_table_bins_parallel b e n name])"
| "updates_reported packet l ps = (ps = [])"

definition update_log :: "('m, 'v) world \<Rightarrow> probe list" where
  "update_log w = filter update_probe (w_probes w)"

definition packet_guar ::
  "('m, 'v) gc_env \<Rightarrow> ('m \<Rightarrow> 'v \<Rightarrow> bool) \<Rightarrow> 'm \<Rightarrow> gc_work \<Rightarrow> packet_duty option \<Rightarrow> ('m, 'v) world \<Rightarrow>
   packet_duty option \<Rightarrow> ('m, 'v) world \<Rightarrow> bool" where
  "packet_guar env good m packet l w l' w' \<longleftrightarrow> race_inv env good m w' \<and> same_rest w w' \<and>
     (\<forall>r. resource_of packet \<noteq> Some r \<longrightarrow> same_resource r w w') \<and> latch_move packet l w l' w' \<and>
     (\<exists>ps. update_log w' = update_log w @ ps \<and> updates_reported packet l ps)"

definition compatible :: "gc_work \<Rightarrow> gc_work \<Rightarrow> bool" where
  "compatible p q \<longleftrightarrow> resource_of p = None \<or> resource_of p \<noteq> resource_of q"

text \<open>
  What a packet has achieved, from the world \<open>w0\<close> in which the bucket was opened. A PPP is judged in the
  state the VM has when the packet gets to it.
\<close>

definition ppps_judged ::
  "'m mmtk_core \<Rightarrow> 'v ruby_upcalls \<Rightarrow> ('m \<Rightarrow> 'v \<Rightarrow> bool) \<Rightarrow> 'm \<Rightarrow> objref list \<Rightarrow> objref list \<Rightarrow> bool" where
  "ppps_judged core up good m xs ys \<longleftrightarrow> (\<exists>vs. length vs = length xs \<and>
     (\<forall>v \<in> set vs. \<exists>m'. same_heap core m m' \<and> good m' v) \<and>
     ys = map (\<lambda>(ob, v). forward core m ob) (filter (\<lambda>(ob, v). ppp_stays core up m v ob) (zip xs vs)))"

fun resource_done ::
  "('m, 'v) gc_env \<Rightarrow> ('m \<Rightarrow> 'v \<Rightarrow> bool) \<Rightarrow> 'm \<Rightarrow> ('m \<Rightarrow> objref set) \<Rightarrow> ('m, 'v) world \<Rightarrow> gc_work \<Rightarrow>
   ('m, 'v) world \<Rightarrow> bool" where
  "resource_done env good m pinned w0 ProcessObjFreeCandidates w =
     (weak_proc (w_binding w) = (weak_proc (w_binding w0))\<lparr>obj_free_candidates :=
        mutex_new (survivors (env_core env) m (candidates (weak_proc (w_binding w0))))\<rparr>)"
| "resource_done env good m pinned w0 RemoveDeadPPPs w =
     (\<exists>ys. ppps (ppp_reg (w_binding w)) = mutex_new ys \<and>
        ppps_judged (env_core env) (env_up env) good m (mutex_data (ppps (ppp_reg (w_binding w0)))) ys)"
| "resource_done env good m pinned w0 UpdateWbUnprotectedObjectsList w =
     (wb_unprotected_objects (w_binding w) = mutex_new (retain_wb_unprotected (env_core env) m
        (env_set_order env (mutex_data (wb_unprotected_objects (w_binding w0))))))"
| "resource_done env good m pinned w0 UpdateGenericIvTbl w = (moved_givtbl (w_binding w) = mutex_new Map.empty)"
| "resource_done env good m pinned w0 (UnpinPPPChildren children) w =
     (pinned (w_core w) = pinned (w_core w0) - set children)"
| "resource_done env good m pinned w0 packet w = True"

lemma all_resources:
  "(\<forall>r. P r) \<longleftrightarrow> P Candidate_list \<and> P Ppp_list \<and> P Wb_set \<and> P Moved_tables \<and> P Pin_bits"
  by (metis resource.exhaust)

lemma same_resource_refl [simp]: "same_resource r w w"
  by (cases r) simp_all

lemma same_resource_trans: "same_resource r a b \<Longrightarrow> same_resource r b c \<Longrightarrow> same_resource r a c"
  by (cases r) simp_all

lemma same_rest_refl [simp]: "same_rest w w"
  by (simp add: same_rest_def)

lemma same_rest_trans: "same_rest a b \<Longrightarrow> same_rest b c \<Longrightarrow> same_rest a c"
  by (simp add: same_rest_def)

lemma resource_done_same:
  "resource_done env good m pinned w0 packet w \<Longrightarrow>
   (\<And>r. resource_of packet = Some r \<Longrightarrow> same_resource r w w') \<Longrightarrow>
   resource_done env good m pinned w0 packet w'"
  by (cases packet) simp_all

interpretation closing_race: rely_guarantee "race_inv env good m" "packet_rely env good m"
    "packet_guar env good m" "resource_done env good m pinned w0" compatible
  for env good m pinned w0
proof
  fix p q l l' and w w' w1 w2 w3 :: "('a, 'b) world"
  show "race_inv env good m w \<Longrightarrow> packet_rely env good m p w w"
    by (simp add: packet_rely_def)
  show "packet_rely env good m p w1 w2 \<Longrightarrow> packet_rely env good m p w2 w3 \<Longrightarrow> packet_rely env good m p w1 w3"
    by (auto simp: packet_rely_def intro: same_rest_trans same_resource_trans)
  show "packet_guar env good m p l w l' w' \<Longrightarrow> race_inv env good m w'"
    by (simp add: packet_guar_def)
  show "packet_guar env good m p l w l' w' \<Longrightarrow> compatible p q \<Longrightarrow> packet_rely env good m q w w'"
    by (fastforce simp: packet_guar_def packet_rely_def compatible_def)
qed

end
