(* ===== verification/Packet_Tasks.thy ===== *)
theory Packet_Tasks
  imports Packet_Race
begin

text \<open>
  Every packet of the closing bucket stays on task: whatever the others do within their guarantees, it
  does not panic, in particular its \<open>try_lock\<close> finds the lock free, it keeps its own guarantee, and at
  its end its registry is what the packet alone would have made of it.
\<close>

section \<open>Actions that are about no latch\<close>

lemma guar_plain:
  assumes "race_inv env good m w" "good (w_core w') (w_vm w')" "same_heap (env_core env) (w_core w) (w_core w')"
    and "same_rest w w'" "w_buckets w' = w_buckets w" "w_latches w' = w_latches w" "update_log w' = update_log w"
    and "\<And>r. resource_of packet \<noteq> Some r \<Longrightarrow> same_resource r w w'"
  shows "packet_guar env good m packet None w None w'"
  using assms
  by (auto simp: packet_guar_def race_inv_def latches_hold_bins_def intro: same_heap_trans)

lemma update_log_upd [simp]:
  "update_log (emit p w) = update_log w @ (if update_probe p then [p] else [])"
  "update_log (w\<lparr>w_vm := v\<rparr>) = update_log w" "update_log (w\<lparr>w_core := c\<rparr>) = update_log w"
  "update_log (w\<lparr>w_buckets := b\<rparr>) = update_log w" "update_log (w\<lparr>w_latches := ls\<rparr>) = update_log w"
  "update_log (w\<lparr>w_binding := bd\<rparr>) = update_log w" "update_log (submit st ps w) = update_log w"
  by (simp_all add: update_log_def emit_def submit_def)

lemma same_rest_upd [simp]:
  "same_rest w (emit p w') = same_rest w w'"
  "same_rest w (w'\<lparr>w_vm := v\<rparr>) = same_rest w w'" "same_rest w (w'\<lparr>w_core := c\<rparr>) = same_rest w w'"
  "same_rest w (put_candidates xs w') = same_rest w w'" "same_rest w (put_ppps xs w') = same_rest w w'"
  "same_rest w (put_wb_unprotected S w') = same_rest w w'" "same_rest w (put_moved_givtbl t w') = same_rest w w'"
  "same_rest w (upd_candidates f w') = same_rest w w'" "same_rest w (upd_ppps g w') = same_rest w w'"
  "same_rest w (upd_wb h w') = same_rest w w'" "same_rest w (upd_givtbl i w') = same_rest w w'"
  by (simp_all add: same_rest_def emit_def world_put_defs upd_defs)

lemma same_resource_upd [simp]:
  "same_resource r w (emit p w') = same_resource r w w'"
  "same_resource r w (w'\<lparr>w_vm := v\<rparr>) = same_resource r w w'"
  "r \<noteq> Pin_bits \<Longrightarrow> same_resource r w (w'\<lparr>w_core := c\<rparr>) = same_resource r w w'"
  "r \<noteq> Candidate_list \<Longrightarrow> same_resource r w (put_candidates xs w') = same_resource r w w'"
  "r \<noteq> Candidate_list \<Longrightarrow> same_resource r w (upd_candidates f w') = same_resource r w w'"
  "r \<noteq> Ppp_list \<Longrightarrow> same_resource r w (put_ppps xs w') = same_resource r w w'"
  "r \<noteq> Ppp_list \<Longrightarrow> same_resource r w (upd_ppps f w') = same_resource r w w'"
  "r \<noteq> Wb_set \<Longrightarrow> same_resource r w (put_wb_unprotected S w') = same_resource r w w'"
  "r \<noteq> Wb_set \<Longrightarrow> same_resource r w (upd_wb g w') = same_resource r w w'"
  "r \<noteq> Moved_tables \<Longrightarrow> same_resource r w (put_moved_givtbl t w') = same_resource r w w'"
  "r \<noteq> Moved_tables \<Longrightarrow> same_resource r w (upd_givtbl h w') = same_resource r w w'"
  by (cases r; simp add: emit_def world_put_defs upd_defs)+

lemmas on_task_simps = closing_race.on_task_action closing_race.on_task_Halt

lemma ask_on_task:
  assumes "\<And>w1. packet_rely env good m packet w w1 \<Longrightarrow> closing_race.on_task env good m pinned w0 packet (k (f w1)) w1"
    and "\<And>x. duty (k x) = None"
  shows "closing_race.on_task env good m pinned w0 packet (ask f k) w"
proof -
  have "packet_guar env good m packet None w1 None w1" if "packet_rely env good m packet w w1" for w1
    using that by (intro guar_plain) (auto simp: packet_rely_def race_inv_def)
  with assms show ?thesis
    by (simp add: closing_race.on_task_action)
qed

text \<open>What a packet relies on, by packet.\<close>

lemma packet_rely_simps:
  "packet_rely env good m ProcessObjFreeCandidates w w' \<longleftrightarrow> race_inv env good m w' \<and> same_rest w w' \<and>
     weak_proc (w_binding w') = weak_proc (w_binding w)"
  "packet_rely env good m RemoveDeadPPPs w w' \<longleftrightarrow> race_inv env good m w' \<and> same_rest w w' \<and>
     ppps (ppp_reg (w_binding w')) = ppps (ppp_reg (w_binding w))"
  "packet_rely env good m UpdateWbUnprotectedObjectsList w w' \<longleftrightarrow> race_inv env good m w' \<and> same_rest w w' \<and>
     wb_unprotected_objects (w_binding w') = wb_unprotected_objects (w_binding w)"
  "packet_rely env good m UpdateGenericIvTbl w w' \<longleftrightarrow> race_inv env good m w' \<and> same_rest w w' \<and>
     moved_givtbl (w_binding w') = moved_givtbl (w_binding w)"
  "packet_rely env good m (UnpinPPPChildren children) w w' \<longleftrightarrow> race_inv env good m w' \<and> same_rest w w' \<and>
     w_core w' = w_core w"
  "resource_of packet = None \<Longrightarrow>
     packet_rely env good m packet w w' \<longleftrightarrow> race_inv env good m w' \<and> same_rest w w'"
  by (auto simp: packet_rely_def)

section \<open>The registries\<close>

lemma race_invD:
  assumes "race_inv env good m w"
  shows "good (w_core w) (w_vm w)" "same_heap (env_core env) m (w_core w)"
    "forward (env_core env) (w_core w) = forward (env_core env) m"
    "mc_is_reachable (env_core env) ob (w_core w) = mc_is_reachable (env_core env) ob m"
    "mc_is_live (env_core env) ob (w_core w) = mc_is_live (env_core env) ob m"
  using assms by (auto simp: race_inv_def same_heapD)

lemma upd_put_simps [simp]:
  "w_core (upd_candidates f w) = w_core w" "w_vm (upd_candidates f w) = w_vm w"
  "w_buckets (upd_candidates f w) = w_buckets w" "w_latches (upd_candidates f w) = w_latches w"
  "update_log (upd_candidates f w) = update_log w"
  "w_core (upd_ppps f w) = w_core w" "w_vm (upd_ppps f w) = w_vm w"
  "w_buckets (upd_ppps f w) = w_buckets w" "w_latches (upd_ppps f w) = w_latches w"
  "update_log (upd_ppps f w) = update_log w"
  "w_core (upd_wb g w) = w_core w" "w_vm (upd_wb g w) = w_vm w"
  "w_buckets (upd_wb g w) = w_buckets w" "w_latches (upd_wb g w) = w_latches w"
  "update_log (upd_wb g w) = update_log w"
  "w_core (upd_givtbl h w) = w_core w" "w_vm (upd_givtbl h w) = w_vm w"
  "w_buckets (upd_givtbl h w) = w_buckets w" "w_latches (upd_givtbl h w) = w_latches w"
  "update_log (upd_givtbl h w) = update_log w"
  "update_log (put_candidates xs w) = update_log w" "update_log (put_ppps xs w) = update_log w"
  "update_log (put_wb_unprotected S w) = update_log w" "update_log (put_moved_givtbl t w) = update_log w"
  "w_latches (put_candidates xs w) = w_latches w" "w_latches (put_ppps xs w) = w_latches w"
  "w_latches (put_wb_unprotected S w) = w_latches w" "w_latches (put_moved_givtbl t w) = w_latches w"
  by (simp_all add: upd_defs world_put_defs update_log_def)

definition locked :: "'a \<Rightarrow> 'a mutex" where
  "locked x = \<lparr>mutex_held = True, mutex_poisoned = False, mutex_data = x\<rparr>"

lemma locked_simps [simp]:
  "(locked x)\<lparr>mutex_data := y\<rparr> = locked y" "(locked x)\<lparr>mutex_held := False\<rparr> = mutex_new x"
  "mutex_data (locked x) = x"
  by (simp_all add: locked_def mutex_new_def)

lemma mutex_lock: "mutex_free M \<Longrightarrow> M\<lparr>mutex_held := True\<rparr> = locked (mutex_data M)"
  by (cases M) (simp add: mutex_free_def locked_def)

lemma resource_upd_simps:
  "weak_proc (w_binding (put_candidates xs w)) = (weak_proc (w_binding w))
     \<lparr>obj_free_candidates := (obj_free_candidates (weak_proc (w_binding w)))\<lparr>mutex_data := xs\<rparr>\<rparr>"
  "weak_proc (w_binding (upd_candidates f w)) = (weak_proc (w_binding w))
     \<lparr>obj_free_candidates := f (obj_free_candidates (weak_proc (w_binding w)))\<rparr>"
  "ppps (ppp_reg (w_binding (put_ppps xs w))) = (ppps (ppp_reg (w_binding w)))\<lparr>mutex_data := xs\<rparr>"
  "ppps (ppp_reg (w_binding (upd_ppps f w))) = f (ppps (ppp_reg (w_binding w)))"
  "wb_unprotected_objects (w_binding (put_wb_unprotected S w)) =
     (wb_unprotected_objects (w_binding w))\<lparr>mutex_data := S\<rparr>"
  "wb_unprotected_objects (w_binding (upd_wb g w)) = g (wb_unprotected_objects (w_binding w))"
  "moved_givtbl (w_binding (put_moved_givtbl t w)) = (moved_givtbl (w_binding w))\<lparr>mutex_data := t\<rparr>"
  "moved_givtbl (w_binding (upd_givtbl h w)) = h (moved_givtbl (w_binding w))"
  by (simp_all add: upd_defs world_put_defs)

lemmas task_simps = on_task_simps packet_rely_simps resource_upd_simps unlock_def

lemma survivors_snoc:
  "survivors core m (xs @ [ob]) =
     (if mc_is_reachable core ob m then survivors core m xs @ [forward core m ob] else survivors core m xs)"
  by (simp add: survivors_def)

lemma candidates_loop_on_task:
  assumes "good_kept (env_core env) (env_up env) good"
    and "weak_proc (w_binding w) = (weak_proc (w_binding w0))\<lparr>obj_free_candidates := locked xs\<rparr>"
    and "candidates (weak_proc (w_binding w0)) = treated @ obs"
  shows "closing_race.on_task env good m pinned w0 ProcessObjFreeCandidates
    (candidates_loop env n (survivors (env_core env) m treated) obs) w"
  using assms(2,3)
proof (induction obs arbitrary: treated w)
  case Nil
  then show ?case
    by (auto simp: task_simps race_invD intro!: guar_plain)
next
  case (Cons ob obs)
  from Cons.IH [of _ "treated @ [ob]"] Cons.prems show ?case
    using good_keptD(2) [OF assms(1)]
    by (auto simp: task_simps survivors_snoc race_invD intro!: guar_plain)
qed


lemma candidates_on_task:
  assumes "good_kept (env_core env) (env_up env) good"
    and "weak_proc (w_binding w) = weak_proc (w_binding w0)" "mutex_free (obj_free_candidates (weak_proc (w_binding w0)))"
  shows "closing_race.on_task env good m pinned w0 ProcessObjFreeCandidates (candidates_code env) w"
proof -
  have "candidates (weak_proc (w_binding w0)) = [] @ mutex_data (obj_free_candidates (weak_proc (w_binding w0)))"
    by (simp add: candidates_def)
  from candidates_loop_on_task [OF assms(1) _ this] assms(2,3) show ?thesis
    by (auto simp: candidates_code_def try_lock_def task_simps race_invD mutex_lock survivors_def intro!: guar_plain)
qed


lemma wb_loop_on_task:
  assumes "wb_unprotected_objects (w_binding w) = locked (retain_wb_unprotected (env_core env) m treated)"
    and "env_set_order env (mutex_data (wb_unprotected_objects (w_binding w0))) = treated @ obs"
  shows "closing_race.on_task env good m pinned w0 UpdateWbUnprotectedObjectsList (wb_loop env n obs) w"
  using assms
proof (induction obs arbitrary: treated w)
  case Nil
  then show ?case
    by (auto simp: task_simps race_invD intro!: guar_plain)
next
  case (Cons ob obs)
  have step: "retain_wb_unprotected core m (treated @ [ob]) = (if mc_is_reachable core ob m
      then insert (forward core m ob) (retain_wb_unprotected core m treated) else retain_wb_unprotected core m treated)"
    for core :: "'a mmtk_core"
    by (auto simp: retain_wb_unprotected_eq)
  from Cons.IH [of _ "treated @ [ob]"] Cons.prems show ?case
    by (auto simp: task_simps step race_invD intro!: guar_plain)
qed

lemma wb_on_task:
  assumes "wb_unprotected_objects (w_binding w) = wb_unprotected_objects (w_binding w0)"
    and "mutex_free (wb_unprotected_objects (w_binding w0))"
  shows "closing_race.on_task env good m pinned w0 UpdateWbUnprotectedObjectsList (wb_code env) w"
proof -
  let ?set = "mutex_data (wb_unprotected_objects (w_binding w0))"
  have "closing_race.on_task env good m pinned w0 UpdateWbUnprotectedObjectsList
      (wb_loop env n (env_set_order env ?set)) u"
    if "wb_unprotected_objects (w_binding u) = locked {}" for n u
    using that by (intro wb_loop_on_task [where treated = "[]"]) (simp_all add: retain_wb_unprotected_def)
  with assms show ?thesis
    by (auto simp: wb_code_def try_lock_def task_simps race_invD mutex_lock intro!: guar_plain)
qed

lemma ppps_judged_snoc:
  assumes "ppps_judged core up good m xs ys" "same_heap core m m'" "good m' v"
  shows "ppps_judged core up good m (xs @ [ob])
    (if ppp_stays core up m v ob then ys @ [forward core m ob] else ys)"
proof -
  obtain vs where "length vs = length xs" "\<forall>v \<in> set vs. \<exists>m'. same_heap core m m' \<and> good m' v"
    "ys = map (\<lambda>(ob, v). forward core m ob) (filter (\<lambda>(ob, v). ppp_stays core up m v ob) (zip xs vs))"
    using assms(1) by (auto simp: ppps_judged_def)
  with assms(2,3) show ?thesis
    unfolding ppps_judged_def by (intro exI [of _ "vs @ [v]"]) auto
qed

lemma ppps_loop_on_task:
  assumes "ppps (ppp_reg (w_binding w)) = locked xs"
    and "ppps_judged (env_core env) (env_up env) good m treated kept"
    and "mutex_data (ppps (ppp_reg (w_binding w0))) = treated @ obs"
  shows "closing_race.on_task env good m pinned w0 RemoveDeadPPPs (ppps_loop env n kept no_longer dead obs) w"
  using assms
proof (induction obs arbitrary: treated kept no_longer dead w)
  case Nil
  then show ?case
    by (auto simp: task_simps race_invD intro!: guar_plain)
next
  case (Cons ob obs)
  have step: "ppps_judged (env_core env) (env_up env) good m (treated @ [ob])
      (if ppp_stays (env_core env) (env_up env) m (w_vm w1) ob
       then kept @ [forward (env_core env) m ob] else kept)" if "race_inv env good m w1" for w1
    using ppps_judged_snoc [OF Cons.prems(2) race_invD(2,1) [OF that]] .
  have next_ppp: "closing_race.on_task env good m pinned w0 RemoveDeadPPPs (ppps_loop env n kept' nl d obs) w1"
    if "race_inv env good m w1" "ppps (ppp_reg (w_binding w1)) = locked xs"
      "kept' = (if ppp_stays (env_core env) (env_up env) m (w_vm w1) ob
         then kept @ [forward (env_core env) m ob] else kept)" for w1 kept' nl d
    using Cons.IH [OF that(2) step [OF that(1)]] Cons.prems(3) that(3) by simp
  from Cons.prems(1) show ?case
    by (auto simp: task_simps race_invD Let_def intro!: guar_plain) (auto simp: ppp_stays_def intro!: next_ppp)
qed

lemma ppps_on_task:
  assumes "ppps (ppp_reg (w_binding w)) = ppps (ppp_reg (w_binding w0))" "mutex_free (ppps (ppp_reg (w_binding w0)))"
  shows "closing_race.on_task env good m pinned w0 RemoveDeadPPPs (ppps_code env) w"
proof -
  have "ppps_judged (env_core env) (env_up env) good m [] []"
    by (simp add: ppps_judged_def)
  from ppps_loop_on_task [OF _ this] assms show ?thesis
    by (auto simp: ppps_code_def try_lock_def task_simps race_invD mutex_lock intro!: guar_plain)
qed


section \<open>The tables of the VM\<close>

lemma cleaner_call_total:
  assumes "object_closure gc_tls = object_closure_default"
    and "vm_wp (report_ok (env_build env) (env_core env) (w_core w)) (good (w_core w)) (cleaner (w_vm w))"
  shows "\<exists>v. cleaner_call env gc_tls cleaner w = Inr ((), w\<lparr>w_vm := v\<rparr>) \<and> good (w_core w) v"
  using run_visitor_total [OF assms(2), of "forward_visitor (env_build env) (env_core env) (w_core w)" "()"] assms(1)
  by (auto simp: cleaner_call_def run_with_closure_default forward_visitor_def report_ok_assert)

lemma table_tls:
  assumes "env_sound env good ec bc" "env_workers env tls = Some ctx"
  obtains gc_tls :: "unit gc_thread_tls" where "object_closure gc_tls = object_closure_default"
    "\<And>k. with_tls env tls k = k gc_tls"
  using idle_from_vwt_check [OF worker_idle [OF assms]] by (metis sum.simps(6) with_tls_def)

lemma cleaner_on_task:
  assumes g: "object_closure gc_tls = object_closure_default"
    and vm: "\<And>m v. good m v \<Longrightarrow> vm_wp (report_ok (env_build env) (env_core env) m) (good m) (cleaner v)"
    and c: "\<And>w1 v. packet_rely env good m packet w w1 \<Longrightarrow> good (w_core w1) v \<Longrightarrow>
      closing_race.on_task env good m pinned w0 packet c (w1\<lparr>w_vm := v\<rparr>)" "duty c = None"
  shows "closing_race.on_task env good m pinned w0 packet (action None (cleaner_call env gc_tls cleaner) (\<lambda>_. c)) w"
proof -
  have "\<exists>v. cleaner_call env gc_tls cleaner w1 = Inr ((), w1\<lparr>w_vm := v\<rparr>) \<and>
      packet_guar env good m packet None w1 None (w1\<lparr>w_vm := v\<rparr>) \<and>
      closing_race.on_task env good m pinned w0 packet c (w1\<lparr>w_vm := v\<rparr>)"
    if r: "packet_rely env good m packet w w1" for w1
  proof -
    have i: "race_inv env good m w1"
      using r by (simp add: packet_rely_def)
    obtain v where "cleaner_call env gc_tls cleaner w1 = Inr ((), w1\<lparr>w_vm := v\<rparr>)" "good (w_core w1) v"
      using cleaner_call_total [where good = good and cleaner = cleaner and w = w1, OF g vm [OF race_invD(1) [OF i]]] by blast
    with i c(1) [OF r] show ?thesis
      by (auto intro!: exI [of _ v] guar_plain)
  qed
  then show ?thesis
    using c(2) by (fastforce simp: closing_race.on_task_action)
qed

lemma general_update_on_task:
  assumes "env_sound env good ec bc" "env_workers env tls = Some ctx" "resource_of packet = None"
    and vm: "\<And>m v. good m v \<Longrightarrow> vm_wp (report_ok (env_build env) (env_core env) m) (good m) (cleaner v)"
    and "\<And>w'. resource_done env good m pinned w0 packet w'"
  shows "closing_race.on_task env good m pinned w0 packet (general_update_code env tls getter cleaner) w"
proof -
  obtain gc_tls :: "unit gc_thread_tls" where g: "object_closure gc_tls = object_closure_default"
    "\<And>k. with_tls env tls k = k gc_tls"
    using table_tls [OF assms(1,2)] by blast
  have "closing_race.on_task env good m pinned w0 packet
      (action None (cleaner_call env gc_tls cleaner) (\<lambda>_. act (\<lambda>w. emit (Probe_weak_table_size_change old
         (up_st_get_num_entries (env_up env) table (w_vm w))) w) Halt)) u" for old table u
    using assms(3,5) by (intro cleaner_on_task [OF g(1) vm]) (auto simp: task_simps race_invD intro!: guar_plain)
  with assms(3) show ?thesis
    by (auto simp: general_update_code_def g(2) task_simps race_invD intro!: guar_plain)
qed

lemma finalizer_on_task:
  assumes "env_sound env good ec bc" "env_workers env tls = Some ctx"
  shows "closing_race.on_task env good m pinned w0 UpdateFinalizerAndObjIdTables (finalizer_code env tls) w"
proof -
  obtain gc_tls :: "unit gc_thread_tls" where g: "object_closure gc_tls = object_closure_default"
    "\<And>k. with_tls env tls k = k gc_tls"
    using table_tls [OF assms(1,2)] by blast
  have vm: "vm_wp (report_ok (env_build env) (env_core env) m) (good m)
      (up_update_finalizer_and_obj_id_tables (env_up env) v)" if "good m v" for m v
    using assms(1) that by (auto simp: env_sound_def vm_reports_objects_def)
  have "closing_race.on_task env good m pinned w0 UpdateFinalizerAndObjIdTables
      (action None (cleaner_call env gc_tls (up_update_finalizer_and_obj_id_tables (env_up env)))
        (\<lambda>_. act (\<lambda>w. emit (Probe_update_finalizer_and_obj_id_tables (a w) (b w) (c w) (d w) (e w) (f w)) w) Halt)) u"
    for u a b c d e f
    by (intro cleaner_on_task [OF g(1) vm]) (auto simp: task_simps race_invD intro!: guar_plain)
  then show ?thesis
    by (auto simp: finalizer_code_def Let_def g(2) task_simps race_invD intro!: guar_plain)
qed

lemma givtbl_on_task:
  assumes e: "env_sound env good ec bc" "env_workers env tls = Some ctx"
    and w: "moved_givtbl (w_binding w) = moved_givtbl (w_binding w0)" "mutex_free (moved_givtbl (w_binding w0))"
  shows "closing_race.on_task env good m pinned w0 UpdateGenericIvTbl (givtbl_code env tls) w"
proof -
  obtain gc_tls :: "unit gc_thread_tls" where g: "object_closure gc_tls = object_closure_default"
    "\<And>k. with_tls env tls k = k gc_tls"
    using table_tls [OF e] by blast
  have vm: "vm_wp (report_ok (env_build env) (env_core env) m) (good m) (up_cleanup_generic_iv_tbl (env_up env) v)"
    if "good m v" for m v
    using e(1) that by (auto simp: env_sound_def vm_reports_objects_def)
  have move: "good m (up_move_givtbl (env_up env) old new v)" if "good m v" for m v old new
    using e(1) that by (auto simp: env_sound_def good_kept_def)
  have clean: "closing_race.on_task env good m pinned w0 UpdateGenericIvTbl
      (action None (cleaner_call env gc_tls (up_cleanup_generic_iv_tbl (env_up env)))
        (\<lambda>_. act (\<lambda>w. emit (Probe_update_generic_iv_tbl a b (c w)) w) Halt)) u"
    if "moved_givtbl (w_binding u) = mutex_new Map.empty" for u a b c
    using that by (intro cleaner_on_task [OF g(1) vm]) (auto simp: task_simps race_invD intro!: guar_plain)
  have rest: "closing_race.on_task env good m pinned w0 UpdateGenericIvTbl
      (ask (\<lambda>w. up_get_generic_iv_tbl (env_up env) (w_vm w)) (\<lambda>table.
       ask (\<lambda>w. up_st_get_num_entries (env_up env) table (w_vm w)) (\<lambda>old_size.
       action None (cleaner_call env gc_tls (up_cleanup_generic_iv_tbl (env_up env))) (\<lambda>_.
       act (\<lambda>w. emit (Probe_update_generic_iv_tbl n old_size
           (up_st_get_num_entries (env_up env) table (w_vm w))) w) Halt)))) u"
    if "moved_givtbl (w_binding u) = mutex_new Map.empty" for u n
    using that by (intro ask_on_task clean) (simp_all add: packet_rely_simps)
  have loop: "closing_race.on_task env good m pinned w0 UpdateGenericIvTbl (givtbl_loop env es c) u"
    if "moved_givtbl (w_binding u) = locked t" "duty c = None"
      "\<And>u. moved_givtbl (w_binding u) = mutex_new Map.empty \<Longrightarrow>
         closing_race.on_task env good m pinned w0 UpdateGenericIvTbl c u" for es c t u
    using that
  proof (induction es arbitrary: u)
    case Nil
    then show ?case
      by (auto simp: task_simps race_invD intro!: guar_plain)
  next
    case (Cons x es)
    then show ?case
      by (cases x) (auto simp: task_simps race_invD move intro!: guar_plain)
  qed
  show ?thesis
    using w by (auto simp: givtbl_code_def g(2) try_lock_def Let_def task_simps race_invD mutex_lock
        intro!: guar_plain loop rest)
qed

section \<open>Chunked tables\<close>

lemma race_inv_upd:
  "race_inv env good m (emit p w) = race_inv env good m w"
  "race_inv env good m w \<Longrightarrow> race_inv env good m (w\<lparr>w_vm := v\<rparr>) = good (w_core w) v"
  "race_inv env good m (submit st ps w) = race_inv env good m w"
  by (simp_all add: race_inv_def latches_hold_bins_def)

lemma race_inv_latch:
  assumes "race_inv env good m w" "aid < length (w_latches w)"
  shows "race_inv env good m (put_latch aid ((w_latches w ! aid)\<lparr>counter := n\<rparr>) w)"
    "race_inv env good m (put_latch aid ((w_latches w ! aid)\<lparr>packets := []\<rparr>) w)"
    "stage (w_latches w ! aid) = VMRefClosure" "\<forall>p \<in> set (packets (w_latches w ! aid)). is_bins_packet p"
proof -
  have "w_latches w ! aid \<in> set (w_latches w)"
    using assms(2) by simp
  then show "stage (w_latches w ! aid) = VMRefClosure" "\<forall>p \<in> set (packets (w_latches w ! aid)). is_bins_packet p"
    using assms(1) by (auto simp: race_inv_def latches_hold_bins_def)
  then show "race_inv env good m (put_latch aid ((w_latches w ! aid)\<lparr>counter := n\<rparr>) w)"
    "race_inv env good m (put_latch aid ((w_latches w ! aid)\<lparr>packets := []\<rparr>) w)"
    using assms(1) by (auto simp: race_inv_def latches_hold_bins_def put_latch_def
        dest!: set_update_subset_insert [THEN subsetD])
qed

lemma put_latch_simps [simp]:
  "w_core (put_latch aid aa w) = w_core w" "w_vm (put_latch aid aa w) = w_vm w"
  "w_root_work (put_latch aid aa w) = w_root_work w"
  "w_binding (put_latch aid aa w) = w_binding w" "w_buckets (put_latch aid aa w) = w_buckets w"
  "w_latches (put_latch aid aa w) = (w_latches w)[aid := aa]" "update_log (put_latch aid aa w) = update_log w"
  "same_rest w' (put_latch aid aa w) = same_rest w' w" "same_resource r w' (put_latch aid aa w) = same_resource r w' w"
  "same_resource r w' (submit st ps w) = same_resource r w' w"
  "st \<noteq> Prepare \<Longrightarrow> same_rest w' (submit st ps w) = same_rest w' w"
  by (simp_all add: put_latch_def same_rest_def update_log_def) (cases r; simp add: put_latch_def)+

lemma bins_on_task:
  assumes "good_kept (env_core env) (env_up env) good"
  shows "closing_race.on_task env good m pinned w0 (UpdateTableBinsParallel name tbl b e)
    (bins_code env name tbl b e) w"
  using good_keptD(5) [OF assms]
  by (auto simp: bins_code_def task_simps packet_guar_def race_inv_upd race_invD case_prod_beta)

lemma entries_on_task:
  assumes k: "good_kept (env_core env) (env_up env) good" and "aid < length (w_latches w)"
  shows "closing_race.on_task env good m pinned w0 (UpdateTableEntriesParallel name tbl b e wk wv fwd aid)
    (entries_code env name tbl b e wk wv fwd aid) w"
  using good_keptD(4) [OF k] assms(2)
  by (auto simp: entries_code_def count_down_code_def fetch_sub_def take_stored_def task_simps packet_guar_def
      Let_def race_inv_upd race_inv_latch race_invD case_prod_beta same_rest_def)


section \<open>Unpinning\<close>

lemma race_inv_core: "race_inv env good m w \<Longrightarrow> w_core w = c \<Longrightarrow> good c (w_vm w)"
  by (auto simp: race_inv_def)

lemma unpin_loop_on_task:
  assumes c: "pin_contract (env_core env) pinned" "pins_keep_heap (env_core env)"
      "good_kept (env_core env) (env_up env) good"
    and "children = treated @ obs" "distinct obs" "set obs \<subseteq> pinned (w_core w)"
      "pinned (w_core w) = pinned (w_core w0) - set treated"
  shows "closing_race.on_task env good m pinned w0 (UnpinPPPChildren children) (unpin_loop env obs) w"
  using assms(4-)
proof (induction obs arbitrary: treated w)
  case Nil
  then show ?case
    by (auto simp: task_simps)
next
  case (Cons ob obs)
  let ?unpin = "mc_unpin_object (env_core env) ob (w_core w)"
  have u: "fst ?unpin" "pinned (snd ?unpin) = pinned (w_core w) - {ob}"
    using pin_contractD(3,4) [OF c(1), of ob "w_core w"] Cons.prems(3) by simp_all
  have h: "same_heap (env_core env) (w_core w) (snd ?unpin)"
    using c(2) by (simp add: pins_keep_heap_def)
  have good: "good (snd ?unpin) (w_vm w1)" if "race_inv env good m w1" "w_core w1 = w_core w" for w1
    using good_keptD(7) [OF c(3) race_inv_core [OF that]] .
  have next_child: "closing_race.on_task env good m pinned w0 (UnpinPPPChildren children) (unpin_loop env obs) w'"
    if "w_core w' = snd ?unpin" for w'
    using Cons.prems u(2) that by (intro Cons.IH [of "treated @ [ob]"]) auto
  show ?case
    using u(1) h
    by (auto simp: task_simps case_prod_beta intro!: guar_plain next_child good)
qed

lemma unpin_on_task:
  assumes "pin_contract (env_core env) pinned" "pins_keep_heap (env_core env)"
      "good_kept (env_core env) (env_up env) good"
    and "distinct children" "set children \<subseteq> pinned (w_core w0)" "w_core w = w_core w0"
  shows "closing_race.on_task env good m pinned w0 (UnpinPPPChildren children) (unpin_code env children) w"
proof -
  have "closing_race.on_task env good m pinned w0 (UnpinPPPChildren children) (unpin_loop env children) u"
    if "w_core u = w_core w0" for u
    using assms that by (intro unpin_loop_on_task [where treated = "[]"]) simp_all
  with assms(6) show ?thesis
    by (auto simp: unpin_code_def task_simps intro!: guar_plain intro: race_inv_core)
qed

section \<open>All packets of the closing bucket\<close>

fun closing_packet :: "gc_work \<Rightarrow> bool" where
  "closing_packet (PinPPPChildren chunk) = False"
| "closing_packet (ScanWbUnprotectedRoots objects) = False"
| "closing_packet packet = (packet \<notin> set global_root_scanners)"

text \<open>The worlds in which the closing bucket is opened.\<close>

definition race_opens ::
  "('m, 'v) gc_env \<Rightarrow> ('m \<Rightarrow> 'v \<Rightarrow> bool) \<Rightarrow> usize \<Rightarrow> usize \<Rightarrow> 'm \<Rightarrow> ('m \<Rightarrow> objref set) \<Rightarrow> ('m, 'v) world \<Rightarrow> bool" where
  "race_opens env good ec bc m pinned w0 \<longleftrightarrow> env_sound env good ec bc \<and> pins_keep_heap (env_core env) \<and>
     pin_contract (env_core env) pinned \<and> race_inv env good m w0 \<and> mutexes_free (w_binding w0)"

lemma packet_on_task:
  assumes o: "race_opens env good ec bc m pinned w0" and t: "env_workers env tls = Some ctx"
    and p: "closing_packet packet" "latch_known (length (w_latches w)) packet"
      "\<And>children. packet = UnpinPPPChildren children \<Longrightarrow> distinct children \<and> set children \<subseteq> pinned (w_core w0)"
    and same: "\<And>r. resource_of packet = Some r \<Longrightarrow> same_resource r w0 w"
  shows "closing_race.on_task env good m pinned w0 packet (packet_code env tls packet) w"
proof -
  have e: "env_sound env good ec bc" and k: "good_kept (env_core env) (env_up env) good"
    and r: "vm_reports_objects (env_build env) (env_core env) (env_up env) good"
    using o by (simp_all add: race_opens_def env_sound_def)
  have free: "mutex_free (obj_free_candidates (weak_proc (w_binding w0)))" "mutex_free (ppps (ppp_reg (w_binding w0)))"
    "mutex_free (wb_unprotected_objects (w_binding w0))" "mutex_free (moved_givtbl (w_binding w0))"
    using o by (simp_all add: race_opens_def mutexes_free_def registries_free_def)
  show ?thesis
  proof (cases packet)
    case ProcessObjFreeCandidates
    with candidates_on_task [OF k _ free(1)] same show ?thesis
      by (simp add: packet_code_def)
  next
    case UpdateGenericIvTbl
    with givtbl_on_task [OF e t _ free(4)] same show ?thesis
      by (simp add: packet_code_def)
  next
    case UpdateFinalizerAndObjIdTables
    with finalizer_on_task [OF e t] show ?thesis
      by (simp add: packet_code_def)
  next
    case UpdateOverloadedCmeTable
    with general_update_on_task [OF e t, of packet "up_update_overloaded_cme_table (env_up env)"]
    show ?thesis
      using vm_reports_objectsD(7) [OF r] by (simp add: packet_code_def Let_def)
  next
    case UpdateCiTable
    with general_update_on_task [OF e t, of packet "up_update_ci_table (env_up env)"]
    show ?thesis
      using vm_reports_objectsD(8) [OF r] by (simp add: packet_code_def Let_def)
  next
    case UpdateWbUnprotectedObjectsList
    with wb_on_task [OF _ free(3)] same show ?thesis
      by (simp add: packet_code_def)
  next
    case (UpdateTableEntriesParallel name tbl b e wk wv fwd aid)
    with entries_on_task [OF k] p(2) show ?thesis
      by (simp add: packet_code_def)
  next
    case (UpdateTableBinsParallel name tbl b e)
    with bins_on_task [OF k] show ?thesis
      by (simp add: packet_code_def)
  next
    case RemoveDeadPPPs
    with ppps_on_task [OF _ free(2)] same show ?thesis
      by (simp add: packet_code_def)
  next
    case (UnpinPPPChildren children)
    with o k p(3) same show ?thesis
      by (simp add: packet_code_def) (auto simp: race_opens_def intro!: unpin_on_task)
  qed (use p(1) in \<open>auto simp: global_root_scanners_def\<close>)
qed

end
