(* ===== verification/Closing_Race.thy ===== *)
theory Closing_Race
  imports Packet_Tasks
begin

text \<open>
  The closing bucket with all its packets interleaved, action by action. The invariant \<open>race_ok\<close> collects
  what the packets on task need of each other: each resource has at most one packet, which waits, is
  under way, or is done. Nothing panics, runs end, and at the end the registries are updated.
\<close>

section \<open>Owners of resources\<close>

definition owners :: "gc_work multiset \<Rightarrow> gc_work multiset" where
  "owners M = filter_mset (\<lambda>p. resource_of p \<noteq> None) M"

definition one_owner :: "gc_work multiset \<Rightarrow> bool" where
  "one_owner M \<longleftrightarrow> (\<forall>r. size (filter_mset (\<lambda>p. resource_of p = Some r) M) \<le> 1)"

lemma owners_simps [simp]:
  "owners {#} = {#}" "owners (M + N) = owners M + owners N"
  "owners (add_mset p M) = (if resource_of p = None then owners M else add_mset p (owners M))"
  by (auto simp: owners_def)

lemma owners_bins:
  assumes "\<forall>p \<in> set ps. is_bins_packet p"
  shows "owners (mset ps) = {#}"
proof -
  have "resource_of p = None" if "is_bins_packet p" for p
    using that by (cases p) simp_all
  with assms show ?thesis
    by (auto simp: owners_def intro!: multiset_eqI)
qed

lemma filter_owners:
  "filter_mset (\<lambda>p. resource_of p = Some r) (owners M) = filter_mset (\<lambda>p. resource_of p = Some r) M"
  by (rule multiset_eqI) (simp add: owners_def)

text \<open>Two packets at once are compatible.\<close>

lemma one_owner_compatible:
  assumes "one_owner A" "owners A = owners (add_mset p (add_mset q X))"
  shows "compatible p q"
proof (rule ccontr)
  assume "\<not> compatible p q"
  then have q: "resource_of p \<noteq> None" "resource_of q = resource_of p"
    unfolding compatible_def by argo+
  then obtain r where "resource_of p = Some r"
    by blast
  with q(2) have r: "resource_of p = Some r" "resource_of q = Some r"
    by simp_all
  have "filter_mset (\<lambda>p. resource_of p = Some r) A = filter_mset (\<lambda>p. resource_of p = Some r) (add_mset p (add_mset q X))"
    using assms(2) filter_owners by metis
  then have "2 \<le> size (filter_mset (\<lambda>p. resource_of p = Some r) A)"
    using r by simp
  with assms(1) show False
    by (metis Suc_1 not_less_eq_eq one_owner_def)
qed

section \<open>The invariant\<close>

definition job_packets :: "('m, 'v) job multiset \<Rightarrow> gc_work multiset" where
  "job_packets J = image_mset (\<lambda>(tls, packet, c). packet) J"

lemma job_packets_simps [simp]:
  "job_packets {#} = {#}" "job_packets (add_mset (tls, packet, c) J) = add_mset packet (job_packets J)"
  by (simp_all add: job_packets_def)

lemma job_packets_mem: "(tls, packet, c) \<in># J \<Longrightarrow> \<exists>X. job_packets J = add_mset packet X"
  by (metis insert_DiffM job_packets_simps(2))

fun duty_holds_bins :: "packet_duty option \<Rightarrow> bool" where
  "duty_holds_bins (Some (At_latch aid (Adding ps))) = (\<forall>p \<in> set ps. is_bins_packet p)"
| "duty_holds_bins _ = True"

definition packet_waits ::
  "('m \<Rightarrow> objref set) \<Rightarrow> ('m, 'v) world \<Rightarrow> ('m, 'v) world \<Rightarrow> gc_work \<Rightarrow> bool" where
  "packet_waits pinned w0 w packet \<longleftrightarrow> closing_packet packet \<and> latch_known (length (w_latches w0)) packet \<and>
     (\<forall>children. packet = UnpinPPPChildren children \<longrightarrow> distinct children \<and> set children \<subseteq> pinned (w_core w0)) \<and>
     (\<forall>r. resource_of packet = Some r \<longrightarrow> same_resource r w0 w)"

definition race_ok ::
  "('m, 'v) gc_env \<Rightarrow> ('m \<Rightarrow> 'v \<Rightarrow> bool) \<Rightarrow> usize \<Rightarrow> usize \<Rightarrow> 'm \<Rightarrow> ('m \<Rightarrow> objref set) \<Rightarrow> ('m, 'v) world \<Rightarrow>
   ('m, 'v) race \<Rightarrow> bool" where
  "race_ok env good ec bc m pinned w0 s \<longleftrightarrow>
     race_opens env good ec bc m pinned w0 \<and> one_owner (mset (w_buckets w0 VMRefClosure)) \<and>
     race_inv env good m (race_world s) \<and> same_rest w0 (race_world s) \<and>
     closing_race.all_on_task env good m pinned w0 (race_jobs s) (race_world s) \<and>
     (\<forall>(tls, packet, c) \<in># race_jobs s. duty_holds_bins (duty c)) \<and>
     (\<forall>packet \<in> set (w_buckets (race_world s) VMRefClosure). packet_waits pinned w0 (race_world s) packet) \<and>
     (\<forall>r. (\<forall>p \<in> set (w_buckets w0 VMRefClosure). resource_of p \<noteq> Some r) \<longrightarrow> same_resource r w0 (race_world s)) \<and>
     (\<exists>F. owners (mset (w_buckets w0 VMRefClosure)) = owners (mset (w_buckets (race_world s) VMRefClosure)) +
          owners (job_packets (race_jobs s)) + F \<and>
        (\<forall>p \<in># F. resource_done env good m pinned w0 p (race_world s)))"

lemma race_okD:
  assumes "race_ok env good ec bc m pinned w0 s"
  shows "race_opens env good ec bc m pinned w0" "one_owner (mset (w_buckets w0 VMRefClosure))"
    "race_inv env good m (race_world s)" "same_rest w0 (race_world s)"
    "closing_race.all_on_task env good m pinned w0 (race_jobs s) (race_world s)"
    "\<forall>(tls, packet, c) \<in># race_jobs s. duty_holds_bins (duty c)"
    "\<forall>packet \<in> set (w_buckets (race_world s) VMRefClosure). packet_waits pinned w0 (race_world s) packet"
    "\<forall>r. (\<forall>p \<in> set (w_buckets w0 VMRefClosure). resource_of p \<noteq> Some r) \<longrightarrow> same_resource r w0 (race_world s)"
  using assms by (simp_all add: race_ok_def)

lemma packet_waits_same:
  assumes "packet_waits pinned w0 w packet" "\<And>r. resource_of packet = Some r \<Longrightarrow> same_resource r w w'"
  shows "packet_waits pinned w0 w' packet"
  using assms by (auto simp: packet_waits_def intro: same_resource_trans)

lemma bins_packet_waits: "is_bins_packet packet \<Longrightarrow> packet_waits pinned w0 w packet"
  by (cases packet) (simp_all add: packet_waits_def global_root_scanners_def)

text \<open>What an action does to the closing bucket: it adds packets of bins at most.\<close>

lemma guar_bucket:
  assumes g: "packet_guar env good m packet l w l' w'" and i: "race_inv env good m w" and l: "duty_holds_bins l"
  obtains bins where "\<forall>p \<in> set bins. is_bins_packet p"
    "w_buckets w' VMRefClosure = w_buckets w VMRefClosure @ bins" "duty_holds_bins l'"
proof -
  have move: "latch_move packet l w l' w'"
    using g by (simp add: packet_guar_def)
  show thesis
  proof (cases l)
    case None
    with move show thesis
      by (intro that [of "[]"]) simp_all
  next
    case (Some d)
    show thesis
    proof (cases d)
      case At_bins
      with move Some show thesis
        by (intro that [of "[]"]) simp_all
    next
      case (At_latch aid pc)
      with move Some have aid: "aid < length (w_latches w)"
        by simp
      note bins = race_inv_latch(3,4) [OF i aid]
      show thesis
      proof (cases pc)
        case (Adding ps)
        with move Some At_latch bins l show thesis
          by (intro that [of ps]) (simp_all add: Let_def)
      qed (use move Some At_latch bins in \<open>auto simp: Let_def intro!: that [of "[]"]\<close>)
    qed (use move Some in simp)
  qed
qed

text \<open>The parts of the invariant about one acting packet.\<close>

lemma race_ok_act:
  assumes ok: "race_ok env good ec bc m pinned w0
    \<lparr>race_world = w, race_jobs = add_mset (tls, packet, Act l t k) J\<rparr>"
  shows "race_ok env good ec bc m pinned w0 \<lparr>race_world = t w, race_jobs = add_mset (tls, packet, k w) J\<rparr>"
    "packet_guar env good m packet l w (duty (k w)) (t w)"
proof -
  let ?B = "mset (w_buckets w0 VMRefClosure)"
  note d = race_okD [OF ok, simplified]
  obtain F where F: "owners ?B = owners (mset (w_buckets w VMRefClosure)) +
      owners (add_mset packet (job_packets J)) + F" "\<forall>p \<in># F. resource_done env good m pinned w0 p w"
    using ok by (auto simp: race_ok_def)
  have "set_mset F \<subseteq> set_mset (owners ?B)"
    unfolding F(1) by simp
  then have FF: "owners F = F"
    unfolding owners_def by (intro filter_mset_eq_conv [THEN iffD2]) auto
  have apart: "compatible packet q" if "q \<in># mset (w_buckets w VMRefClosure) + job_packets J + F" for q
  proof -
    from that obtain X where X: "mset (w_buckets w VMRefClosure) + job_packets J + F = add_mset q X"
      by (metis insert_DiffM)
    have "owners ?B = owners (add_mset packet (mset (w_buckets w VMRefClosure) + job_packets J + F))"
      using F(1) FF by (simp add: ac_simps)
    then show ?thesis
      unfolding X by (rule one_owner_compatible [OF d(2)])
  qed
  have "compatible packet q" if "(t', q, c) \<in># J" for t' q c
    using apart job_packets_mem [OF that] by auto
  note acted = closing_race.act_on_task [OF d(3,5), OF this]
  show g: "packet_guar env good m packet l w (duty (k w)) (t w)"
    by (rule acted(1))
  have keeps: "same_resource r w (t w)"
    if "q \<in># mset (w_buckets w VMRefClosure) + job_packets J + F" "resource_of q = Some r" for q r
    using g apart [OF that(1)] that(2) by (auto simp: packet_guar_def compatible_def)
  have l: "duty_holds_bins l" "\<forall>(tls, packet, c) \<in># J. duty_holds_bins (duty c)"
    using d(6) by auto
  obtain bins where bins: "\<forall>p \<in> set bins. is_bins_packet p"
      "w_buckets (t w) VMRefClosure = w_buckets w VMRefClosure @ bins" "duty_holds_bins (duty (k w))"
    using g d(3) l(1) by (rule guar_bucket)
  have rest: "same_rest w0 (t w)"
    using same_rest_trans [OF d(4)] g by (simp add: packet_guar_def)
  have "packet_waits pinned w0 (t w) q" if q: "q \<in> set (w_buckets w VMRefClosure)" for q
  proof (rule packet_waits_same)
    show "packet_waits pinned w0 w q"
      using d(7) q by blast
    show "same_resource r w (t w)" if "resource_of q = Some r" for r
      using _ that by (rule keeps) (simp add: q)
  qed
  then have waits: "\<forall>q \<in> set (w_buckets (t w) VMRefClosure). packet_waits pinned w0 (t w) q"
    using bins(1,2) bins_packet_waits [of _ pinned w0 "t w"] by auto
  have orphan: "same_resource r w0 (t w)" if r: "\<forall>p \<in> set (w_buckets w0 VMRefClosure). resource_of p \<noteq> Some r" for r
  proof -
    have "resource_of packet \<noteq> Some r"
    proof
      assume p: "resource_of packet = Some r"
      then have "packet \<in># owners ?B"
        using F(1) by simp
      then have "packet \<in> set (w_buckets w0 VMRefClosure)"
        by (simp add: owners_def)
      with p r show False
        by blast
    qed
    then have acted: "same_resource r w (t w)"
      using g by (simp add: packet_guar_def)
    have "same_resource r w0 w"
      using d(8) r by blast
    then show ?thesis
      using acted by (rule same_resource_trans)
  qed
  have "resource_done env good m pinned w0 p (t w)" if p: "p \<in># F" for p
  proof (rule resource_done_same)
    show "resource_done env good m pinned w0 p w"
      using F(2) p by blast
    show "same_resource r w (t w)" if "resource_of p = Some r" for r
      using _ that by (rule keeps) (simp add: p)
  qed
  then have "\<forall>p \<in># F. resource_done env good m pinned w0 p (t w)"
    by blast
  moreover have "owners ?B = owners (mset (w_buckets (t w) VMRefClosure)) + owners (add_mset packet (job_packets J)) + F"
    using F(1) owners_bins [OF bins(1)] bins(2) by simp
  moreover have "\<forall>(tls, packet, c) \<in># add_mset (tls, packet, k w) J. duty_holds_bins (duty c)"
    using l(2) bins(3) by simp
  moreover have "\<forall>r. (\<forall>p \<in> set (w_buckets w0 VMRefClosure). resource_of p \<noteq> Some r) \<longrightarrow> same_resource r w0 (t w)"
    using orphan by blast
  ultimately show "race_ok env good ec bc m pinned w0
      \<lparr>race_world = t w, race_jobs = add_mset (tls, packet, k w) J\<rparr>"
    unfolding race_ok_def race.select_convs job_packets_simps using d(1,2) acted(2,3) rest waits
    by (intro conjI exI [of _ F])
qed


lemma race_ok_take:
  assumes ok: "race_ok env good ec bc m pinned w0 \<lparr>race_world = w, race_jobs = J\<rparr>"
    and b: "w_buckets w VMRefClosure = xs @ packet # ys" and t: "env_workers env tls = Some ctx"
  shows "race_ok env good ec bc m pinned w0
    \<lparr>race_world = w\<lparr>w_buckets := (w_buckets w)(VMRefClosure := xs @ ys)\<rparr>,
     race_jobs = add_mset (tls, packet, packet_code env tls packet) J\<rparr>"
proof -
  let ?w = "w\<lparr>w_buckets := (w_buckets w)(VMRefClosure := xs @ ys)\<rparr>"
  note d = race_okD [OF ok, simplified]
  obtain F where F: "owners (mset (w_buckets w0 VMRefClosure)) = owners (mset (w_buckets w VMRefClosure)) +
      owners (job_packets J) + F" "\<forall>p \<in># F. resource_done env good m pinned w0 p w"
    using ok by (auto simp: race_ok_def)
  have same: "same_resource r w' ?w = same_resource r w' w" for r w'
    by (cases r) simp_all
  have i: "race_inv env good m ?w" and r: "same_rest w ?w" "same_rest w0 ?w"
    using d(3,4) by (simp_all add: race_inv_def latches_hold_bins_def same_rest_def)
  have "packet_rely env good m q w ?w" for q
    using i r(1) by (simp add: packet_rely_def same)
  then have "closing_race.all_on_task env good m pinned w0 J ?w"
    using d(5) closing_race.on_task_stable unfolding closing_race.all_on_task_def by fastforce
  moreover have p: "packet_waits pinned w0 w packet"
    using d(7) b by simp
  then have "closing_race.on_task env good m pinned w0 packet (packet_code env tls packet) ?w"
    using d(4) by (intro packet_on_task [OF d(1) t]) (auto simp: packet_waits_def same same_rest_def)
  ultimately have "closing_race.all_on_task env good m pinned w0
      (add_mset (tls, packet, packet_code env tls packet) J) ?w"
    by (simp add: closing_race.all_on_task_def)
  moreover have "duty_holds_bins (duty (packet_code env tls packet))"
    using duty_at_start [of env tls packet] by (cases packet) auto
  then have "\<forall>(tls, packet, c) \<in># add_mset (tls, packet, packet_code env tls packet) J. duty_holds_bins (duty c)"
    using d(6) by simp
  moreover have "\<forall>q \<in> set (w_buckets ?w VMRefClosure). packet_waits pinned w0 ?w q"
    using d(7) b by (auto simp: packet_waits_def same)
  moreover have "\<forall>r. (\<forall>p \<in> set (w_buckets w0 VMRefClosure). resource_of p \<noteq> Some r) \<longrightarrow> same_resource r w0 ?w"
    using d(8) by (simp add: same)
  moreover have "owners (mset (w_buckets w0 VMRefClosure)) = owners (mset (w_buckets ?w VMRefClosure)) +
      owners (job_packets (add_mset (tls, packet, packet_code env tls packet) J)) + F"
    using F(1) b by simp
  moreover have "resource_done env good m pinned w0 p ?w" if "p \<in># F" for p
  proof (rule resource_done_same)
    show "resource_done env good m pinned w0 p w"
      using F(2) that by blast
  qed (simp add: same)
  then have "\<forall>p \<in># F. resource_done env good m pinned w0 p ?w"
    by blast
  ultimately show ?thesis
    unfolding race_ok_def race.select_convs using d(1,2) i r(2) by (intro conjI exI [of _ F])
qed

lemma race_ok_done:
  assumes ok: "race_ok env good ec bc m pinned w0
    \<lparr>race_world = w, race_jobs = add_mset (tls, packet, Halt) J\<rparr>"
  shows "race_ok env good ec bc m pinned w0 \<lparr>race_world = w, race_jobs = J\<rparr>"
proof -
  note d = race_okD [OF ok, simplified]
  obtain F where F: "owners (mset (w_buckets w0 VMRefClosure)) = owners (mset (w_buckets w VMRefClosure)) +
      owners (add_mset packet (job_packets J)) + F" "\<forall>p \<in># F. resource_done env good m pinned w0 p w"
    using ok by (auto simp: race_ok_def)
  have "closing_race.on_task env good m pinned w0 packet Halt w"
    and rest: "closing_race.all_on_task env good m pinned w0 J w"
    using d(5) by (auto simp: closing_race.all_on_task_def)
  then have "resource_done env good m pinned w0 packet w"
    using d(3) by (blast intro: closing_race.on_task_done)
  then have "\<forall>p \<in># owners {#packet#} + F. resource_done env good m pinned w0 p w"
    using F(2) by auto
  moreover have "owners (mset (w_buckets w0 VMRefClosure)) = owners (mset (w_buckets w VMRefClosure)) +
      owners (job_packets J) + (owners {#packet#} + F)"
    using F(1) by simp
  moreover have "\<forall>(tls, packet, c) \<in># J. duty_holds_bins (duty c)"
    using d(6) by simp
  ultimately show ?thesis
    unfolding race_ok_def race.select_convs using d(1-4,7,8) rest
    by (intro conjI exI [of _ "owners {#packet#} + F"])
qed

lemma race_ok_step:
  "race_step env VMRefClosure s t \<Longrightarrow> race_ok env good ec bc m pinned w0 s \<Longrightarrow>
   race_ok env good ec bc m pinned w0 t"
  by (erule race_stepE) (auto intro: race_ok_take race_ok_act race_ok_done)

lemma race_ok_no_panic:
  assumes "race_ok env good ec bc m pinned w0 s"
  shows "\<not> race_panics s"
proof
  assume "race_panics s"
  then obtain tls packet e where "(tls, packet, Panics e) \<in># race_jobs s"
    by (auto simp: race_panics_def)
  with race_okD(5) [OF assms] closing_race.on_task_panic show False
    by (fastforce simp: closing_race.all_on_task_def)
qed

section \<open>The end\<close>

text \<open>
  Work that is left: packets in the bucket, in latches, and on their way from a latch to the bucket.
  Taking a packet makes it less; an action keeps it and leaves less of a job to do.
\<close>

fun in_transit :: "packet_duty option \<Rightarrow> nat" where
  "in_transit (Some (At_latch aid (Adding ps))) = length ps"
| "in_transit _ = 0"

definition race_work :: "('m, 'v) race \<Rightarrow> nat" where
  "race_work s = packets_left VMRefClosure (race_world s) +
     sum_mset (image_mset (\<lambda>(tls, packet, c). in_transit (duty c)) (race_jobs s))"

definition race_order :: "(('m, 'v) race \<times> ('m, 'v) race) set" where
  "race_order = inv_image (less_than <*lex*> mult rest_of)
     (\<lambda>s. (race_work s, image_mset (\<lambda>(tls, packet, c). c) (race_jobs s)))"

lemma wf_race_order: "wf race_order"
  unfolding race_order_def by (intro wf_inv_image wf_lex_prod wf_less_than wf_mult wf_rest_of)

lemma guar_work:
  assumes g: "packet_guar env good m packet l w l' w'" and i: "race_inv env good m w"
  shows "packets_left VMRefClosure w' + in_transit l' = packets_left VMRefClosure w + in_transit l"
proof -
  have move: "latch_move packet l w l' w'"
    using g by (simp add: packet_guar_def)
  have plain: ?thesis if "w_buckets w' = w_buckets w" "w_latches w' = w_latches w" "in_transit l' = 0" "in_transit l = 0"
    using that by (simp add: packets_left_def stored_packets_def)
  show ?thesis
  proof (cases l)
    case None
    with move show ?thesis
      by (intro plain) simp_all
  next
    case (Some d)
    show ?thesis
    proof (cases d)
      case At_bins
      with move Some show ?thesis
        by (intro plain) simp_all
    next
      case (At_latch aid pc)
      with move Some have aid: "aid < length (w_latches w)"
        by simp
      note stored = sum_list_map_update [OF aid, of "\<lambda>aa. length (packets aa)"]
      show ?thesis
      proof (cases pc)
        case Counting
        with stored [of "(w_latches w ! aid)\<lparr>counter := counter (w_latches w ! aid) - 1\<rparr>"] move Some At_latch
        show ?thesis
          by (simp add: packets_left_def stored_packets_def Let_def)
      next
        case Taking
        with stored [of "(w_latches w ! aid)\<lparr>packets := []\<rparr>"] move Some At_latch show ?thesis
          by (simp add: packets_left_def stored_packets_def Let_def)
      next
        case (Adding ps)
        with move Some At_latch race_inv_latch(3) [OF i aid] show ?thesis
          by (simp add: packets_left_def stored_packets_def Let_def)
      qed (use move Some At_latch in \<open>simp_all add: packets_left_def stored_packets_def Let_def\<close>)
    qed (use move Some in simp)
  qed
qed

lemma race_step_order:
  assumes "race_step env VMRefClosure s t" and ok: "race_ok env good ec bc m pinned w0 s"
  shows "(t, s) \<in> race_order"
  using assms(1)
proof cases
  case (race_take w xs packet ys tls ctx J)
  have "in_transit (duty (packet_code env tls packet)) = 0"
    using duty_at_start [of env tls packet] by (cases packet) auto
  with race_take show ?thesis
    by (simp add: race_order_def race_work_def packets_left_def stored_packets_def)
next
  case (race_act w tls packet l f k J)
  note g = race_ok_act(2) [OF ok [unfolded race_act(1)]] and i = race_okD(3) [OF ok]
  have "race_work t = race_work s"
    using guar_work [OF g] i race_act by (simp add: race_work_def)
  with race_act show ?thesis
    by (simp add: race_order_def rest_of_threads)
next
  case (race_done w tls packet J)
  then show ?thesis
    by (simp add: race_order_def race_work_def rest_of_threads)
qed

interpretation closing_run: terminating_race env VMRefClosure "race_ok env good ec bc m pinned w0" race_order
  for env good ec bc m pinned w0
  by unfold_locales (fact race_ok_step race_ok_no_panic wf_race_order race_step_order)+

text \<open>What is achieved at the end.\<close>

lemma race_over_done:
  assumes ok: "race_ok env good ec bc m pinned w0 s" and over: "race_over VMRefClosure s"
    and "packet \<in> set (w_buckets w0 VMRefClosure)"
  shows "resource_done env good m pinned w0 packet (race_world s)"
proof (cases "resource_of packet")
  case None
  then show ?thesis
    by (cases packet) simp_all
next
  case (Some r)
  obtain F where F: "owners (mset (w_buckets w0 VMRefClosure)) = F"
    "\<forall>p \<in># F. resource_done env good m pinned w0 p (race_world s)"
    using ok over by (auto simp: race_ok_def race_over_def)
  have "packet \<in># F"
    using assms(3) Some by (simp add: owners_def flip: F(1))
  with F(2) show ?thesis
    by blast
qed

end
