(* ===== verification/Table_Race.thy ===== *)
theory Table_Race
  imports Closing_Race Weak_Cycle
begin

text \<open>
  The chunked tables while all packets interleave. A packet of entries that has updated its range may be
  overtaken before it counts its latch down, and the last one before it adds the packets of bins; still
  the bins of a table are updated after all its entries, each range once.
\<close>

section \<open>The jobs of a table\<close>

definition table_updates :: "string \<Rightarrow> ('m, 'v) world \<Rightarrow> probe list" where
  "table_updates name w = filter (about_table name) (update_log w)"

definition duties :: "('m, 'v) job multiset \<Rightarrow> (gc_work \<times> packet_duty option) multiset" where
  "duties J = image_mset (\<lambda>(tls, packet, c). (packet, duty c)) J"

definition table_jobs :: "string \<Rightarrow> ('m, 'v) job multiset \<Rightarrow> (gc_work \<times> packet_duty option) multiset" where
  "table_jobs name J = filter_mset (\<lambda>(packet, d). of_table name packet) (duties J)"

definition jobs_at ::
  "packet_duty option \<Rightarrow> (gc_work \<times> packet_duty option) multiset \<Rightarrow> gc_work multiset" where
  "jobs_at d T = image_mset fst (filter_mset (\<lambda>(packet, d'). d' = d) T)"

lemma jobs_simps [simp]:
  "duties {#} = {#}" "duties (add_mset (tls, packet, c) J) = add_mset (packet, duty c) (duties J)"
  "table_jobs name {#} = {#}"
  "table_jobs name (add_mset (tls, packet, c) J) =
     (if of_table name packet then add_mset (packet, duty c) (table_jobs name J) else table_jobs name J)"
  "jobs_at d {#} = {#}"
  "jobs_at d (add_mset (packet, d') T) = (if d' = d then add_mset packet (jobs_at d T) else jobs_at d T)"
  by (simp_all add: duties_def table_jobs_def jobs_at_def)

section \<open>The phases of a table\<close>

text \<open>
  Before the latch is at zero: \<open>us\<close> is done, \<open>todo\<close> waits or is about to be updated, and as many packets as
  the latch counts have not counted it down.
\<close>

definition entries_phase ::
  "string \<Rightarrow> address \<Rightarrow> (usize \<times> usize \<Rightarrow> gc_work) \<Rightarrow> nat \<Rightarrow> (usize \<times> usize) list \<Rightarrow> (usize \<times> usize) list \<Rightarrow>
   probe list \<Rightarrow> ('m, 'v) world \<Rightarrow> (gc_work \<times> packet_duty option) multiset \<Rightarrow> bool" where
  "entries_phase name table packet aid entries bins before w T \<longleftrightarrow>
     (\<exists>us todo. table_updates name w = before @ entries_probes name us \<and>
        mset entries = mset (map fst us) + mset todo \<and>
        mset (table_queue name w) + jobs_at (Some (At_latch aid Working)) T = mset (map packet todo) \<and>
        (let k = size (jobs_at (Some (At_latch aid Counting)) T)
         in k \<le> length us \<and> (us = [] \<or> 0 < length todo + k) \<and>
            counter (w_latches w ! aid) = of_nat (length todo + k)) \<and>
        packets (w_latches w ! aid) = map (bins_packet name table) bins \<and>
        (\<forall>(p, d) \<in># T. d = None \<or> d = Some (At_latch aid Working) \<or> d = Some (At_latch aid Counting)))"

text \<open>One worker has seen the counter at one, and has the packets of bins on its way.\<close>

definition release_phase ::
  "string \<Rightarrow> address \<Rightarrow> nat \<Rightarrow> (usize \<times> usize) list \<Rightarrow> (usize \<times> usize) list \<Rightarrow> probe list \<Rightarrow>
   ('m, 'v) world \<Rightarrow> (gc_work \<times> packet_duty option) multiset \<Rightarrow> bool" where
  "release_phase name table aid entries bins before w T \<longleftrightarrow>
     (\<exists>us p pc. table_updates name w = before @ entries_probes name us \<and>
        mset entries = mset (map fst us) \<and> table_queue name w = [] \<and>
        filter_mset (\<lambda>(p, d). d \<noteq> None) T = {#(p, Some (At_latch aid pc))#} \<and>
        (pc = Taking \<and> packets (w_latches w ! aid) = map (bins_packet name table) bins \<or>
         pc = Adding (map (bins_packet name table) bins)))"

text \<open>The bins \<open>rs\<close> are done and \<open>todo\<close> waits or is about to be updated.\<close>

definition bins_phase ::
  "string \<Rightarrow> address \<Rightarrow> (usize \<times> usize) list \<Rightarrow> (usize \<times> usize) list \<Rightarrow> probe list \<Rightarrow>
   ('m, 'v) world \<Rightarrow> (gc_work \<times> packet_duty option) multiset \<Rightarrow> bool" where
  "bins_phase name table entries bins before w T \<longleftrightarrow>
     (\<exists>us rs todo. table_updates name w = before @ entries_probes name us @ bins_probes name rs \<and>
        mset entries = mset (map fst us) \<and> mset bins = mset (map fst rs) + mset todo \<and>
        mset (table_queue name w) + jobs_at (Some At_bins) T = mset (map (bins_packet name table) todo) \<and>
        (\<forall>(p, d) \<in># T. d = None \<or> d = Some At_bins))"

text \<open>The jobs of other tables count down other latches and carry packets of other tables.\<close>

fun carries_apart :: "string \<Rightarrow> gc_work \<times> packet_duty option \<Rightarrow> bool" where
  "carries_apart name (packet, Some (At_latch i (Adding ps))) =
     (\<not> of_table name packet \<longrightarrow> (\<forall>p \<in> set ps. \<not> of_table name p))"
| "carries_apart name (packet, d) = True"

definition table_race ::
  "string \<Rightarrow> address \<Rightarrow> bool \<Rightarrow> bool \<Rightarrow> bool \<Rightarrow> nat \<Rightarrow> (usize \<times> usize) list \<Rightarrow> (usize \<times> usize) list \<Rightarrow>
   probe list \<Rightarrow> ('m, 'v) race \<Rightarrow> bool" where
  "table_race name table wk wv fwd aid entries bins before s \<longleftrightarrow>
     length entries < 2 ^ 64 \<and> tables_apart name aid (race_world s) \<and>
     (\<forall>(p, d) \<in># duties (race_jobs s). keeps_apart name aid (w_latches (race_world s)) p \<and> carries_apart name (p, d)) \<and>
     (entries_phase name table (entries_packet name table wk wv fwd aid) aid entries bins before
        (race_world s) (table_jobs name (race_jobs s)) \<or>
      release_phase name table aid entries bins before (race_world s) (table_jobs name (race_jobs s)) \<or>
      bins_phase name table entries bins before (race_world s) (table_jobs name (race_jobs s)))"

section \<open>Taking and finishing packets\<close>

lemma entries_packet_simps [simp]:
  "of_table nm (entries_packet name table wk wv fwd aid r) = (name = nm)"
  "first_duty (entries_packet name table wk wv fwd aid r) = Some (At_latch aid Working)"
  "of_table nm (bins_packet name table r) = (name = nm)"
  "first_duty (bins_packet name table r) = Some At_bins"
  by (simp_all add: entries_packet_def bins_packet_def)

lemma table_race_take:
  assumes r: "table_race name table wk wv fwd aid entries bins before \<lparr>race_world = w, race_jobs = J\<rparr>"
    and b: "w_buckets w VMRefClosure = xs @ packet # ys"
  shows "table_race name table wk wv fwd aid entries bins before
    \<lparr>race_world = w\<lparr>w_buckets := (w_buckets w)(VMRefClosure := xs @ ys)\<rparr>,
     race_jobs = add_mset (tls, packet, packet_code env tls packet) J\<rparr>"
proof -
  let ?w = "w\<lparr>w_buckets := (w_buckets w)(VMRefClosure := xs @ ys)\<rparr>" and ?d = "first_duty packet"
  let ?E = "entries_packet name table wk wv fwd aid"
  have a: "tables_apart name aid ?w" "keeps_apart name aid (w_latches w) packet"
    using r b by (auto simp: table_race_def tables_apart_def latches_hold_bins_def)
  have d: "carries_apart name (packet, duty (packet_code env tls packet))"
    using duty_at_start [of env tls packet] by (cases packet) auto
  have start: "duty (packet_code env tls packet) = ?d" if "of_table name packet"
    using that by (intro duty_packet_code) auto
  have u: "table_updates name ?w = table_updates name w"
    by (simp add: table_updates_def)
  let ?T = "table_jobs name J"
  let ?T' = "if of_table name packet then add_mset (packet, ?d) ?T else ?T"
  have q: "mset (table_queue name w) =
      (if of_table name packet then add_mset packet (mset (table_queue name ?w)) else mset (table_queue name ?w))"
    using b by (simp add: table_queue_def)
  have phases: "entries_phase name table ?E aid entries bins before ?w ?T'"
    if p: "entries_phase name table ?E aid entries bins before w ?T"
  proof (cases "of_table name packet")
    case False
    with p q u show ?thesis
      by (auto simp: entries_phase_def)
  next
    case True
    obtain us todo where t: "table_updates name w = before @ entries_probes name us"
      "mset entries = mset (map fst us) + mset todo"
      "mset (table_queue name w) + jobs_at (Some (At_latch aid Working)) ?T = mset (map ?E todo)"
      and k: "let k = size (jobs_at (Some (At_latch aid Counting)) ?T)
         in k \<le> length us \<and> (us = [] \<or> 0 < length todo + k) \<and>
            counter (w_latches w ! aid) = of_nat (length todo + k)"
      and c: "packets (w_latches w ! aid) = map (bins_packet name table) bins"
        "\<forall>(p, d) \<in># ?T. d = None \<or> d = Some (At_latch aid Working) \<or> d = Some (At_latch aid Counting)"
      using p by (auto simp: entries_phase_def)
    have "packet \<in># mset (map ?E todo)"
      unfolding t(3) [symmetric] using q True by simp
    then obtain e where "packet = ?E e"
      by auto
    then have "?d = Some (At_latch aid Working)"
      by simp
    then show ?thesis
      unfolding entries_phase_def using True t k c q u by (intro exI [of _ us] exI [of _ todo]) simp
  qed
  moreover have "release_phase name table aid entries bins before ?w ?T'"
    if "release_phase name table aid entries bins before w ?T"
  proof -
    have "table_queue name w = []"
      using that by (auto simp: release_phase_def)
    with q have "\<not> of_table name packet" "table_queue name ?w = []"
      by (auto split: if_splits)
    with that u show ?thesis
      by (auto simp: release_phase_def)
  qed
  moreover have "bins_phase name table entries bins before ?w ?T'"
    if p: "bins_phase name table entries bins before w ?T"
  proof (cases "of_table name packet")
    case False
    with p q u show ?thesis
      by (auto simp: bins_phase_def)
  next
    case True
    obtain us rs todo where t: "table_updates name w = before @ entries_probes name us @ bins_probes name rs"
      "mset entries = mset (map fst us)" "mset bins = mset (map fst rs) + mset todo"
      "mset (table_queue name w) + jobs_at (Some At_bins) ?T = mset (map (bins_packet name table) todo)"
      "\<forall>(p, d) \<in># ?T. d = None \<or> d = Some At_bins"
      using p by (auto simp: bins_phase_def)
    have "packet \<in># mset (map (bins_packet name table) todo)"
      unfolding t(4) [symmetric] using q True by simp
    then obtain e where "packet = bins_packet name table e"
      by auto
    then have "?d = Some At_bins"
      by simp
    then show ?thesis
      unfolding bins_phase_def using True t q u by (intro exI [of _ us] exI [of _ rs] exI [of _ todo]) simp
  qed
  ultimately show ?thesis
    using r a d unfolding table_race_def by (auto simp: start)
qed

lemma table_race_done:
  assumes r: "table_race name table wk wv fwd aid entries bins before
    \<lparr>race_world = w, race_jobs = add_mset (tls, packet, Halt) J\<rparr>"
  shows "table_race name table wk wv fwd aid entries bins before \<lparr>race_world = w, race_jobs = J\<rparr>"
  using r by (auto simp: table_race_def entries_phase_def release_phase_def bins_phase_def split: if_splits)


section \<open>Actions\<close>

lemma latch_move_latches:
  assumes "latch_move packet l w l' w'"
  obtains (same) "w_latches w' = w_latches w"
  | (one) i aa where "packet_latch packet = Some i" "i < length (w_latches w)" "w_latches w' = (w_latches w)[i := aa]"
      "set (packets aa) \<subseteq> set (packets (w_latches w ! i))"
proof (cases l)
  case None
  with assms same show thesis
    by simp
next
  case (Some d)
  show thesis
  proof (cases d)
    case At_bins
    with Some assms same show thesis
      by simp
  next
    case (At_latch i pc)
    show thesis
    proof (cases pc)
      case Counting
      with Some At_latch assms show thesis
        by (intro one [of i "(w_latches w ! i)\<lparr>counter := counter (w_latches w ! i) - 1\<rparr>"]) (simp_all add: Let_def)
    next
      case Taking
      with Some At_latch assms show thesis
        by (intro one [of i "(w_latches w ! i)\<lparr>packets := []\<rparr>"]) (simp_all add: Let_def)
    qed (use Some At_latch assms same in \<open>simp_all add: Let_def\<close>)
  next
    case (Owes newly)
    with Some assms show thesis
      by simp
  qed
qed

lemma keeps_apart_latch:
  "keeps_apart name aid ls packet \<Longrightarrow> packet_latch packet = Some i \<Longrightarrow> \<not> of_table name packet \<Longrightarrow>
   i \<noteq> aid \<and> (\<forall>p \<in> set (packets (ls ! i)). \<not> of_table name p)"
  by (cases packet) auto

text \<open>What all actions keep.\<close>

lemma table_act_apart:
  assumes a: "tables_apart name aid w"
    and J: "\<forall>(p, d) \<in># add_mset (packet, l) D. keeps_apart name aid (w_latches w) p \<and> carries_apart name (p, d)"
    and g: "packet_guar env good m packet l w l' w'" and i: "race_inv env good m w" "duty_holds_bins l"
  shows "tables_apart name aid w'"
    "\<forall>(p, d) \<in># add_mset (packet, l') D. keeps_apart name aid (w_latches w') p \<and> carries_apart name (p, d)"
proof -
  have move: "latch_move packet l w l' w'" and holds: "latches_hold_bins w'"
    and len: "length (w_latches w') = length (w_latches w)"
    using g by (simp_all add: packet_guar_def race_inv_def same_rest_def)
  have packet: "keeps_apart name aid (w_latches w) packet"
    using J by simp
  have apart: "keeps_apart name aid (w_latches w') p" if "keeps_apart name aid (w_latches w) p" for p
    using move
  proof (cases rule: latch_move_latches)
    case same
    with that show ?thesis
      by simp
  next
    case (one j aa)
    with that show ?thesis
      by (auto intro: keeps_apart_update)
  qed
  obtain bins where "\<forall>p \<in> set bins. is_bins_packet p"
    "w_buckets w' VMRefClosure = w_buckets w VMRefClosure @ bins"
    using g i by (rule guar_bucket)
  then show "tables_apart name aid w'"
    using a holds len apart keeps_apart_bins by (auto simp: tables_apart_def)
  have "carries_apart name (packet, l')"
  proof (cases "\<exists>j. l = Some (At_latch j Taking)")
    case True
    with move packet show ?thesis
      by (auto simp: Let_def dest: keeps_apart_latch)
  next
    case False
    with move show ?thesis
      by (cases "(packet, l, w, l', w')" rule: latch_move.cases)
        (auto simp: Let_def split: worker_pc.splits if_splits)
  qed
  with J apart show "\<forall>(p, d) \<in># add_mset (packet, l') D. keeps_apart name aid (w_latches w') p \<and> carries_apart name (p, d)"
    by auto
qed

text \<open>A job of another table leaves this one alone.\<close>

lemma updates_reported_other:
  "updates_reported packet l ps \<Longrightarrow> \<not> of_table name packet \<Longrightarrow> filter (about_table name) ps = []"
  by (cases "(packet, l, ps)" rule: updates_reported.cases) auto

lemma other_table_act:
  assumes "keeps_apart name aid (w_latches w) packet" "carries_apart name (packet, l)" "\<not> of_table name packet"
    and g: "packet_guar env good m packet l w l' w'"
  shows "table_updates name w' = table_updates name w" "table_queue name w' = table_queue name w"
    "w_latches w' ! aid = w_latches w ! aid"
proof -
  have move: "latch_move packet l w l' w'"
    using g by (simp add: packet_guar_def)
  obtain ps where "update_log w' = update_log w @ ps" "updates_reported packet l ps"
    using g by (auto simp: packet_guar_def)
  with assms(3) show "table_updates name w' = table_updates name w"
    by (simp add: table_updates_def updates_reported_other)
  show "w_latches w' ! aid = w_latches w ! aid"
    using move
  proof (cases rule: latch_move_latches)
    case (one j aa)
    with keeps_apart_latch [OF assms(1) _ assms(3)] show ?thesis
      by simp
  qed simp
  show "table_queue name w' = table_queue name w"
  proof (cases "\<exists>j ps. l = Some (At_latch j (Adding ps))")
    case True
    then obtain j ps where l: "l = Some (At_latch j (Adding ps))"
      by blast
    then have "filter (of_table name) ps = []"
      using assms(2,3) by (auto simp: filter_empty_conv)
    with move l show ?thesis
      by (cases "stage (w_latches w ! j) = VMRefClosure") (auto simp: table_queue_def Let_def)
  next
    case False
    then have "w_buckets w' = w_buckets w"
      using move by (cases "(packet, l, w, l', w')" rule: latch_move.cases) (auto simp: Let_def split: worker_pc.splits)
    then show ?thesis
      by (simp add: table_queue_def)
  qed
qed

text \<open>The jobs of the table itself, phase by phase.\<close>

lemma updates_reported_silent:
  "updates_reported packet l ps \<Longrightarrow> l \<noteq> Some At_bins \<Longrightarrow> (\<And>i. l \<noteq> Some (At_latch i Working)) \<Longrightarrow> ps = []"
  by (cases "(packet, l, ps)" rule: updates_reported.cases) auto

lemma guar_update_log:
  assumes "packet_guar env good m packet l w l' w'"
  obtains ps where "updates_reported packet l ps" "table_updates name w' = table_updates name w @ filter (about_table name) ps"
  using assms by (auto simp: packet_guar_def table_updates_def)

lemma idle_act:
  assumes "packet_guar env good m packet None w l' w'"
  shows "l' = None" "table_updates name w' = table_updates name w" "table_queue name w' = table_queue name w"
    "w_latches w' = w_latches w"
proof -
  have move: "latch_move packet None w l' w'"
    using assms by (simp add: packet_guar_def)
  then show "l' = None" "table_queue name w' = table_queue name w" "w_latches w' = w_latches w"
    by (simp_all add: table_queue_def)
  obtain ps where "updates_reported packet None ps"
    "table_updates name w' = table_updates name w @ filter (about_table name) ps"
    using assms by (rule guar_update_log)
  then show "table_updates name w' = table_updates name w"
    by (auto dest: updates_reported_silent)
qed

lemma entries_phase_act:
  assumes p: "entries_phase name table (entries_packet name table wk wv fwd aid) aid entries bins before w
      (add_mset (packet, l) T)"
    and small: "length entries < 2 ^ 64" and g: "packet_guar env good m packet l w l' w'"
  shows "entries_phase name table (entries_packet name table wk wv fwd aid) aid entries bins before w'
      (add_mset (packet, l') T) \<or>
    release_phase name table aid entries bins before w' (add_mset (packet, l') T)"
proof -
  let ?E = "entries_packet name table wk wv fwd aid" and ?T = "add_mset (packet, l) T"
  let ?k = "size (jobs_at (Some (At_latch aid Counting)) ?T)"
  obtain us todo where t: "table_updates name w = before @ entries_probes name us"
      "mset entries = mset (map fst us) + mset todo"
      "mset (table_queue name w) + jobs_at (Some (At_latch aid Working)) ?T = mset (map ?E todo)"
    and k: "?k \<le> length us" "us = [] \<or> 0 < length todo + ?k"
      "counter (w_latches w ! aid) = of_nat (length todo + ?k)"
    and c: "packets (w_latches w ! aid) = map (bins_packet name table) bins"
      "\<forall>(p, d) \<in># ?T. d = None \<or> d = Some (At_latch aid Working) \<or> d = Some (At_latch aid Counting)"
    using p by (auto simp: entries_phase_def Let_def)
  have move: "latch_move packet l w l' w'"
    using g by (simp add: packet_guar_def)
  have len: "length us + length todo = length entries"
    using arg_cong [OF t(2), of size] by simp
  consider (idle) "l = None" | (work) "l = Some (At_latch aid Working)" | (count) "l = Some (At_latch aid Counting)"
    using c(2) by auto
  then show ?thesis
  proof cases
    case idle
    with idle_act [OF g [unfolded idle]] p show ?thesis
      by (simp add: entries_phase_def)
  next
    case work
    have "add_mset packet (mset (table_queue name w) + jobs_at (Some (At_latch aid Working)) T) = mset (map ?E todo)"
      using t(3) work by simp
    then obtain r rest where r: "packet = ?E r" "mset todo = add_mset r (mset rest)"
      "mset (table_queue name w) + jobs_at (Some (At_latch aid Working)) T = mset (map ?E rest)"
      by (rule mset_map_take)
    have todo: "length todo = Suc (length rest)"
      using arg_cong [OF r(2), of size] by simp
    obtain ps where ps: "updates_reported packet l ps"
      "table_updates name w' = table_updates name w @ filter (about_table name) ps"
      using g by (rule guar_update_log)
    from ps work r(1) obtain n where n: "table_updates name w' = table_updates name w @
        [Probe_update_table_entries_parallel (fst r) (snd r) n name]"
      by (auto simp: entries_packet_def)
    have m: "w_buckets w' = w_buckets w" "w_latches w' = w_latches w" "l' = Some (At_latch aid Counting)"
      using move work by (simp_all add: Let_def)
    have "entries_phase name table ?E aid entries bins before w' (add_mset (packet, l') T)"
      unfolding entries_phase_def using t(1,2) k c r(2,3) n m todo work
      by (intro exI [of _ "us @ [(r, n)]"] exI [of _ rest])
        (simp add: entries_probes_def case_prod_beta table_queue_def Let_def)
    then show ?thesis ..
  next
    case count
    obtain ps where ps: "updates_reported packet l ps"
      "table_updates name w' = table_updates name w @ filter (about_table name) ps"
      using g by (rule guar_update_log)
    have n: "table_updates name w' = table_updates name w"
      using ps count by (auto dest!: updates_reported_silent)
    have m: "w_buckets w' = w_buckets w" "aid < length (w_latches w)"
      "w_latches w' = (w_latches w)[aid := (w_latches w ! aid)\<lparr>counter := counter (w_latches w ! aid) - 1\<rparr>]"
      "l' = (if counter (w_latches w ! aid) = 1 then Some (At_latch aid Taking) else None)"
      using move count by (simp_all add: Let_def)
    show ?thesis
    proof (cases "length todo + ?k = 1")
      case True
      then have e: "todo = []" "jobs_at (Some (At_latch aid Counting)) T = {#}"
        using count by auto
      then have "jobs_at (Some (At_latch aid Working)) T = {#}" "table_queue name w = []"
        using t(3) count by simp_all
      with e c(2) have "filter_mset (\<lambda>(p, d). d \<noteq> None) T = {#}"
        by (fastforce simp: jobs_at_def)
      moreover have "counter (w_latches w ! aid) = 1"
        unfolding k(3) True by simp
      ultimately have "release_phase name table aid entries bins before w' (add_mset (packet, l') T)"
        unfolding release_phase_def using t(1,2) n m e(1) c(1) \<open>table_queue name w = []\<close>
        by (intro exI [of _ us] exI [of _ packet] exI [of _ Taking]) (simp add: table_queue_def)
      then show ?thesis ..
    next
      case False
      have "length todo + ?k < 2 ^ 64"
        using len k(1) small by simp
      then have "counter (w_latches w ! aid) \<noteq> 1"
        using k(3) False by (simp add: usize_simps word_unat_eq_iff)
      then have "l' = None"
        using m(4) by simp
      then have "entries_phase name table ?E aid entries bins before w' (add_mset (packet, l') T)"
        unfolding entries_phase_def using t k c n m(1-3) \<open>l' = None\<close> count False
        by (intro exI [of _ us] exI [of _ todo]) (simp add: table_queue_def Let_def nonempty_has_size [symmetric])
      then show ?thesis ..
    qed
  qed
qed

lemma release_phase_act:
  assumes p: "release_phase name table aid entries bins before w (add_mset (packet, l) T)"
    and holds: "latches_hold_bins w" and g: "packet_guar env good m packet l w l' w'"
  shows "release_phase name table aid entries bins before w' (add_mset (packet, l') T) \<or>
    bins_phase name table entries bins before w' (add_mset (packet, l') T)"
proof (cases l)
  case None
  with idle_act [OF g [unfolded None]] p show ?thesis
    by (simp add: release_phase_def)
next
  case (Some d)
  obtain us q pc where t: "table_updates name w = before @ entries_probes name us"
      "mset entries = mset (map fst us)" "table_queue name w = []"
      "filter_mset (\<lambda>(p, d). d \<noteq> None) (add_mset (packet, l) T) = {#(q, Some (At_latch aid pc))#}"
    and pc: "pc = Taking \<and> packets (w_latches w ! aid) = map (bins_packet name table) bins \<or>
      pc = Adding (map (bins_packet name table) bins)"
    using p by (auto simp: release_phase_def)
  have T: "filter_mset (\<lambda>(p, d). d \<noteq> None) T = {#}" and l: "l = Some (At_latch aid pc)"
    using t(4) Some by simp_all
  have move: "latch_move packet l w l' w'"
    using g by (simp add: packet_guar_def)
  obtain ps where ps: "updates_reported packet l ps"
    "table_updates name w' = table_updates name w @ filter (about_table name) ps"
    using g by (rule guar_update_log)
  have n: "table_updates name w' = table_updates name w"
    using ps l pc by (auto dest!: updates_reported_silent)
  from pc show ?thesis
  proof
    assume pc: "pc = Taking \<and> packets (w_latches w ! aid) = map (bins_packet name table) bins"
    with move l have "release_phase name table aid entries bins before w' (add_mset (packet, l') T)"
      unfolding release_phase_def using t(1-3) n T
      by (intro exI [of _ us] exI [of _ packet] exI [of _ "Adding (map (bins_packet name table) bins)"])
        (simp add: Let_def table_queue_def)
    then show ?thesis ..
  next
    assume pc: "pc = Adding (map (bins_packet name table) bins)"
    then have m: "w_buckets w' = bulk_add VMRefClosure (map (bins_packet name table) bins) (w_buckets w)" "l' = None"
      using move l holds by (simp_all add: Let_def latches_hold_bins_def)
    have q: "table_queue name w' = map (bins_packet name table) bins"
      using m(1) t(3) by (simp add: table_queue_def filter_id_conv)
    have "\<forall>(p, d) \<in># T. d = None"
      using T by auto
    moreover from this have "jobs_at (Some At_bins) T = {#}"
      by (auto simp: jobs_at_def)
    ultimately have "bins_phase name table entries bins before w' (add_mset (packet, l') T)"
      unfolding bins_phase_def using t(1,2) n m(2) q
      by (intro exI [of _ us] exI [of _ "[]"] exI [of _ bins]) (auto simp: bins_probes_def)
    then show ?thesis ..
  qed
qed

lemma bins_phase_act:
  assumes p: "bins_phase name table entries bins before w (add_mset (packet, l) T)"
    and g: "packet_guar env good m packet l w l' w'"
  shows "bins_phase name table entries bins before w' (add_mset (packet, l') T)"
proof (cases l)
  case None
  with idle_act [OF g [unfolded None]] p show ?thesis
    by (simp add: bins_phase_def)
next
  case (Some d)
  obtain us rs todo where t: "table_updates name w = before @ entries_probes name us @ bins_probes name rs"
    "mset entries = mset (map fst us)" "mset bins = mset (map fst rs) + mset todo"
    "mset (table_queue name w) + jobs_at (Some At_bins) (add_mset (packet, l) T) = mset (map (bins_packet name table) todo)"
    "\<forall>(p, d) \<in># add_mset (packet, l) T. d = None \<or> d = Some At_bins"
    using p unfolding bins_phase_def by blast
  have l: "l = Some At_bins"
    using t(5) Some by auto
  have "add_mset packet (mset (table_queue name w) + jobs_at (Some At_bins) T) = mset (map (bins_packet name table) todo)"
    using t(4) l by simp
  then obtain r rest where r: "packet = bins_packet name table r" "mset todo = add_mset r (mset rest)"
    "mset (table_queue name w) + jobs_at (Some At_bins) T = mset (map (bins_packet name table) rest)"
    by (rule mset_map_take)
  obtain ps where ps: "updates_reported packet l ps"
    "table_updates name w' = table_updates name w @ filter (about_table name) ps"
    using g by (rule guar_update_log)
  from ps l r(1) obtain n where n: "table_updates name w' = table_updates name w @
      [Probe_update_table_bins_parallel (fst r) (snd r) n name]"
    by (auto simp: bins_packet_def)
  have m: "w_buckets w' = w_buckets w" "l' = None"
    using g l by (simp_all add: packet_guar_def)
  show ?thesis
    unfolding bins_phase_def using t r n m
    by (intro exI [of _ us] exI [of _ "rs @ [(r, n)]"] exI [of _ rest])
      (auto simp: table_queue_def bins_probes_def case_prod_beta)
qed

lemma table_race_act:
  assumes r: "table_race name table wk wv fwd aid entries bins before
      \<lparr>race_world = w, race_jobs = add_mset (tls, packet, Act l t k) J\<rparr>"
    and g: "packet_guar env good m packet l w (duty (k w)) (t w)" and i: "race_inv env good m w" "duty_holds_bins l"
  shows "table_race name table wk wv fwd aid entries bins before
    \<lparr>race_world = t w, race_jobs = add_mset (tls, packet, k w) J\<rparr>"
proof -
  let ?E = "entries_packet name table wk wv fwd aid" and ?D = "duties J" and ?T = "table_jobs name J"
  have small: "length entries < 2 ^ 64" and a: "tables_apart name aid w"
    and J: "\<forall>(p, d) \<in># add_mset (packet, l) ?D. keeps_apart name aid (w_latches w) p \<and> carries_apart name (p, d)"
    using r by (simp_all add: table_race_def)
  note apart = table_act_apart [OF a J g i]
  let ?phases = "\<lambda>w T. entries_phase name table ?E aid entries bins before w T \<or>
    release_phase name table aid entries bins before w T \<or> bins_phase name table entries bins before w T"
  have "?phases (t w) (table_jobs name (add_mset (tls, packet, k w) J))"
  proof (cases "of_table name packet")
    case True
    then have "?phases w (add_mset (packet, l) ?T)"
      using r by (simp add: table_race_def)
    then have "?phases (t w) (add_mset (packet, duty (k w)) ?T)"
    proof (elim disjE)
      assume "release_phase name table aid entries bins before w (add_mset (packet, l) ?T)"
      moreover have "latches_hold_bins w"
        using a by (simp add: tables_apart_def)
      ultimately show ?thesis
        using release_phase_act [OF _ _ g] by blast
    qed (use entries_phase_act [OF _ small g] bins_phase_act [OF _ g] in blast)+
    with True show ?thesis
      by simp
  next
    case False
    have "keeps_apart name aid (w_latches w) packet" "carries_apart name (packet, l)"
      using J by simp_all
    from other_table_act [OF this False g] have "?phases (t w) ?T \<longleftrightarrow> ?phases w ?T"
      by (simp add: entries_phase_def release_phase_def bins_phase_def)
    with r False show ?thesis
      by (simp add: table_race_def)
  qed
  with small apart show ?thesis
    by (simp add: table_race_def)
qed

lemma table_race_run:
  assumes "(race_step env VMRefClosure)\<^sup>*\<^sup>* s s'" "race_ok env good ec bc m pinned w0 s"
    and "table_race name table wk wv fwd aid entries bins before s"
  shows "table_race name table wk wv fwd aid entries bins before s'"
  using assms(1)
proof (induction rule: rtranclp_induct)
  case base
  show ?case
    by (rule assms(3))
next
  case (step a b)
  have ok: "race_ok env good ec bc m pinned w0 a"
    using step(1) assms(2) by (rule closing_run.run_keeps)
  from step(2) show ?case
  proof cases
    case (race_take w xs packet ys tls ctx J)
    with step(3) show ?thesis
      by (simp add: table_race_take)
  next
    case (race_act w tls packet l t k J)
    note ok' = ok [unfolded race_act(1)]
    have "race_inv env good m w" "duty_holds_bins l"
      using race_okD(3,6) [OF ok'] by simp_all
    with step(3) race_ok_act(2) [OF ok'] show ?thesis
      unfolding race_act by (intro table_race_act)
  next
    case (race_done w tls packet J)
    with step(3) show ?thesis
      by (simp add: table_race_done)
  qed
qed

section \<open>From the start to the end\<close>

lemma update_log_probes:
  "filter update_probe (entries_probes name us) = entries_probes name us"
  "filter update_probe (bins_probes name us) = bins_probes name us"
  by (simp_all add: entries_probes_def bins_probes_def filter_map o_def case_prod_beta)

lemma table_updates_log: "table_updates name w = filter update_probe (table_log name w)"
  by (simp add: table_updates_def update_log_def table_log_def conj_commute)

lemma table_progress_race:
  assumes "table_progress name table wk wv fwd aid entries bins before w"
  shows "table_race name table wk wv fwd aid entries bins (filter update_probe before) (race_start w)"
proof -
  let ?E = "entries_packet name table wk wv fwd aid" and ?b = "filter update_probe before"
  have "entries_phase name table ?E aid entries bins ?b w {#}" if "entries_left name table ?E aid entries bins before w"
    using that by (auto simp: entries_left_def entries_phase_def table_updates_log update_log_probes)
  moreover have "bins_phase name table entries bins ?b w {#}" if "bins_left name table entries bins before w"
    using that unfolding bins_left_def bins_phase_def
    by (force simp: table_updates_log update_log_probes)
  ultimately show ?thesis
    using assms by (auto simp: table_progress_def table_race_def race_start_def)
qed

text \<open>What the reports of updates say at any moment, and at the end.\<close>

definition updates_story :: "string \<Rightarrow> (usize \<times> usize) list \<Rightarrow> (usize \<times> usize) list \<Rightarrow> probe list \<Rightarrow> bool" where
  "updates_story name entries bins log \<longleftrightarrow>
     (\<exists>us rs. log = entries_probes name us @ bins_probes name rs \<and> mset (map fst us) \<subseteq># mset entries \<and>
        mset (map fst rs) \<subseteq># mset bins \<and> (rs \<noteq> [] \<longrightarrow> mset (map fst us) = mset entries))"

definition updates_finished :: "string \<Rightarrow> (usize \<times> usize) list \<Rightarrow> (usize \<times> usize) list \<Rightarrow> probe list \<Rightarrow> bool" where
  "updates_finished name entries bins log \<longleftrightarrow>
     (\<exists>us rs. log = entries_probes name us @ bins_probes name rs \<and> mset (map fst us) = mset entries \<and>
        mset (map fst rs) = mset bins)"

lemma entries_story:
  "mset entries = mset (map fst us) + M \<Longrightarrow> updates_story name entries bins (entries_probes name us)"
  unfolding updates_story_def by (intro exI [of _ us] exI [of _ "[]"]) (simp add: bins_probes_def)

lemma table_race_story:
  assumes "table_race name table wk wv fwd aid entries bins before s"
  obtains log where "table_updates name (race_world s) = before @ log" "updates_story name entries bins log"
    "race_over VMRefClosure s \<and> entries \<noteq> [] \<longrightarrow> updates_finished name entries bins log"
proof -
  let ?w = "race_world s" and ?T = "table_jobs name (race_jobs s)" and ?E = "entries_packet name table wk wv fwd aid"
  consider (entries) "entries_phase name table ?E aid entries bins before ?w ?T"
    | (release) "release_phase name table aid entries bins before ?w ?T"
    | (bins) "bins_phase name table entries bins before ?w ?T"
    using assms by (auto simp: table_race_def)
  then show thesis
  proof cases
    case entries
    then obtain us todo where t: "table_updates name ?w = before @ entries_probes name us"
      "mset entries = mset (map fst us) + mset todo"
      "mset (table_queue name ?w) + jobs_at (Some (At_latch aid Working)) ?T = mset (map ?E todo)"
      "us = [] \<or> 0 < length todo + size (jobs_at (Some (At_latch aid Counting)) ?T)"
      by (auto simp: entries_phase_def Let_def)
    have "\<not> (race_over VMRefClosure s \<and> entries \<noteq> [])"
      using t(2-4) by (auto simp: race_over_def table_queue_def)
    with t(1,2) show thesis
      by (intro that [of "entries_probes name us"]) (auto intro: entries_story)
  next
    case release
    then obtain us p d where t: "table_updates name ?w = before @ entries_probes name us"
      "mset entries = mset (map fst us)" "filter_mset (\<lambda>(p, d). d \<noteq> None) ?T = {#(p, d)#}"
      by (auto simp: release_phase_def)
    have "\<not> race_over VMRefClosure s"
      using t(3) by (auto simp: race_over_def)
    with t(1,2) show thesis
      by (intro that [of "entries_probes name us"]) (auto intro: entries_story)
  next
    case bins
    then obtain us rs todo where t: "table_updates name ?w = before @ entries_probes name us @ bins_probes name rs"
      "mset entries = mset (map fst us)" "mset bins = mset (map fst rs) + mset todo"
      "mset (table_queue name ?w) + jobs_at (Some At_bins) ?T = mset (map (bins_packet name table) todo)"
      by (auto simp: bins_phase_def)
    have finished: "race_over VMRefClosure s \<Longrightarrow> todo = []"
      using t(4) by (auto simp: race_over_def table_queue_def)
    show thesis
    proof (rule that)
      show "table_updates name ?w = before @ entries_probes name us @ bins_probes name rs"
        by (rule t(1))
      show "updates_story name entries bins (entries_probes name us @ bins_probes name rs)"
        unfolding updates_story_def using t(2,3) by (intro exI [of _ us] exI [of _ rs]) simp
      show "race_over VMRefClosure s \<and> entries \<noteq> [] \<longrightarrow>
          updates_finished name entries bins (entries_probes name us @ bins_probes name rs)"
        unfolding updates_finished_def using t(2,3) finished by (intro impI exI [of _ us] exI [of _ rs]) simp
    qed
  qed
qed

end
