(* ===== verification/Opening_Race.thy ===== *)
theory Opening_Race
  imports Closing_Race
begin

text \<open>
  The Prepare bucket with all its packets interleaved, while workers scan roots: several packets pin at the
  same time, maybe the same child, and append what they pinned to the one list of the registry. At every
  moment an object is pinned by the application, or it is in the list, or exactly one packet under way
  owes it to the list.
\<close>

section \<open>The steps\<close>

text \<open>A root scanning callback is one step of a worker that is in no packet.\<close>

inductive opening_step ::
  "('m, 'v) gc_env \<Rightarrow> ('m, 'v) race \<Rightarrow> ('m, 'v) race \<Rightarrow> bool" for env where
  opening_packet: "race_step env Prepare s t \<Longrightarrow> opening_step env s t"
| opening_vm_roots: "scan_vm_specific_roots (env_build env) (env_core env) (env_set_order env)
     (tls_view (env_workers env)) tls w = Inr w' \<Longrightarrow> tls \<notin># image_mset fst J \<Longrightarrow>
     opening_step env \<lparr>race_world = w, race_jobs = J\<rparr> \<lparr>race_world = w', race_jobs = J\<rparr>"
| opening_mutator: "scan_roots_in_mutator_thread (env_build env) (env_core env) (env_up env)
     (tls_view (env_workers env)) tls mutator_tls w = Inr w' \<Longrightarrow> tls \<notin># image_mset fst J \<Longrightarrow>
     opening_step env \<lparr>race_world = w, race_jobs = J\<rparr> \<lparr>race_world = w', race_jobs = J\<rparr>"

lemma prepare_step_races:
  assumes "prepare_step env w w'"
  shows "(opening_step env)\<^sup>*\<^sup>* (race_start w) (race_start w')"
  using assms
proof cases
  case prepare_packet
  have "race_step env Prepare \<le> opening_step env"
    by (auto intro: opening_packet)
  with bucket_step_races [OF prepare_packet] show ?thesis
    using rtranclp_mono by blast
next
  case (prepare_vm_roots tls)
  with opening_vm_roots [OF this, of "{#}"] show ?thesis
    by (simp add: race_start_def)
next
  case (prepare_mutator tls mutator_tls)
  with opening_mutator [OF this, of "{#}"] show ?thesis
    by (simp add: race_start_def)
qed

lemma prepare_run_races:
  "(prepare_step env)\<^sup>*\<^sup>* w w' \<Longrightarrow> (opening_step env)\<^sup>*\<^sup>* (race_start w) (race_start w')"
  by (induction rule: rtranclp_induct) (auto intro: prepare_step_races rtranclp_trans)

section \<open>What packets may rely on\<close>

text \<open>A packet that does not pin leaves pins and list alone; one that does pins an object, or hands over.\<close>

definition pin_move ::
  "('m \<Rightarrow> objref set) \<Rightarrow> gc_work \<Rightarrow> packet_duty option \<Rightarrow> ('m, 'v) world \<Rightarrow> packet_duty option \<Rightarrow>
   ('m, 'v) world \<Rightarrow> bool" where
  "pin_move pinned packet l w l' w' \<longleftrightarrow>
     (pinned (w_core w') = pinned (w_core w) \<and> pinned_list w' = pinned_list w \<and> owed l' = owed l) \<or>
     is_pin_packet packet \<and>
       ((\<exists>ob. ob \<notin> pinned (w_core w) \<and> pinned (w_core w') = insert ob (pinned (w_core w)) \<and>
           pinned_list w' = pinned_list w \<and> owed l' = owed l @ [ob]) \<or>
        (pinned (w_core w') = pinned (w_core w) \<and> pinned_list w' = pinned_list w @ owed l \<and> owed l' = []))"

definition opening_inv :: "('m \<Rightarrow> 'v \<Rightarrow> bool) \<Rightarrow> usize \<Rightarrow> usize \<Rightarrow> ('m, 'v) world \<Rightarrow> bool" where
  "opening_inv good ec bc w \<longleftrightarrow> sound good ec bc w \<and> latches_hold_bins w"

definition opening_rely ::
  "('m \<Rightarrow> 'v \<Rightarrow> bool) \<Rightarrow> usize \<Rightarrow> usize \<Rightarrow> ('m \<Rightarrow> objref set) \<Rightarrow> gc_work \<Rightarrow> ('m, 'v) world \<Rightarrow> ('m, 'v) world \<Rightarrow> bool" where
  "opening_rely good ec bc pinned packet w w' \<longleftrightarrow> opening_inv good ec bc w' \<and> pinned (w_core w) \<subseteq> pinned (w_core w')"

definition opening_guar ::
  "('m \<Rightarrow> 'v \<Rightarrow> bool) \<Rightarrow> usize \<Rightarrow> usize \<Rightarrow> ('m \<Rightarrow> objref set) \<Rightarrow> gc_work \<Rightarrow> packet_duty option \<Rightarrow>
   ('m, 'v) world \<Rightarrow> packet_duty option \<Rightarrow> ('m, 'v) world \<Rightarrow> bool" where
  "opening_guar good ec bc pinned packet l w l' w' \<longleftrightarrow> opening_inv good ec bc w' \<and> same_registries w w' \<and>
     w_buckets w' = w_buckets w \<and> w_latches w' = w_latches w \<and> pin_move pinned packet l w l' w'"

fun children_done :: "('m \<Rightarrow> objref set) \<Rightarrow> (objref \<Rightarrow> objref set) \<Rightarrow> gc_work \<Rightarrow> ('m, 'v) world \<Rightarrow> bool" where
  "children_done pinned kids (PinPPPChildren chunk) w = (\<forall>ob \<in> set chunk. kids ob \<subseteq> pinned (w_core w))"
| "children_done pinned kids packet w = True"

lemma pin_move_grows: "pin_move pinned packet l w l' w' \<Longrightarrow> pinned (w_core w) \<subseteq> pinned (w_core w')"
  by (auto simp: pin_move_def)

lemma children_done_mono:
  "children_done pinned kids packet w \<Longrightarrow> pinned (w_core w) \<subseteq> pinned (w_core w') \<Longrightarrow> children_done pinned kids packet w'"
  by (cases packet) auto

interpretation opening_race: rely_guarantee "opening_inv good ec bc" "opening_rely good ec bc pinned"
    "opening_guar good ec bc pinned" "children_done pinned kids" "\<lambda>_ _. True"
  for good ec bc pinned kids
  by unfold_locales (auto simp: opening_rely_def opening_guar_def dest: pin_move_grows)

section \<open>The packets are on task\<close>

text \<open>The children of a PPP, as far as the VM reports them whatever its state.\<close>

definition kids_reported :: "'v ruby_upcalls \<Rightarrow> (objref \<Rightarrow> objref set) \<Rightarrow> bool" where
  "kids_reported up kids \<longleftrightarrow> (\<forall>ob v. kids ob \<subseteq>
     (if up_is_no_longer_ppp up ob v then {}
      else set (map fst (filter snd (visits (up_call_gc_mark_children up ob v))))))"

lemma steady_kids_reported:
  assumes "steady_kids up kids"
  shows "kids_reported up kids"
proof -
  have "kids ob = set (map fst (filter snd (visits (pin_body up [ob] 0 v))))" for ob v
    using assms [unfolded steady_kids_def, rule_format, of "[ob]" v] by (simp add: reported_children_def)
  note k = this
  have "kids ob \<subseteq> (if up_is_no_longer_ppp up ob v then {}
      else set (map fst (filter snd (visits (up_call_gc_mark_children up ob v)))))" for ob v
    by (subst k [of ob v]) simp
  then show ?thesis
    by (simp add: kids_reported_def)
qed

lemma no_kids_reported: "kids_reported up (\<lambda>_. {})"
  by (simp add: kids_reported_def)

lemma opening_relyD: "opening_rely good ec bc pinned packet w w' \<Longrightarrow> opening_inv good ec bc w'"
  by (simp add: opening_rely_def)

lemma opening_guar_plain:
  assumes "opening_inv good ec bc w" "sound good ec bc w'" "same_registries w w'" "w_buckets w' = w_buckets w"
    and "w_latches w' = w_latches w" "w_core w' = w_core w" "pinned_list w' = pinned_list w" "owed l' = owed l"
  shows "opening_guar good ec bc pinned packet l w l' w'"
  using assms by (simp add: opening_guar_def pin_move_def opening_inv_def latches_hold_bins_def)

lemma root_packet_on_task:
  assumes e: "env_sound env good ec bc" and t: "env_workers env tls = Some ctx"
    and p: "scan_roots (env_up env) packet \<noteq> None \<or> (\<exists>objects. packet = ScanWbUnprotectedRoots objects)"
  shows "opening_race.on_task good ec bc pinned kids packet (packet_code env tls packet) w"
proof -
  have ok: "prepare_packet_ok packet" "\<not> is_pin_packet packet"
    using p by (cases packet; simp add: global_root_scanners_def)+
  have code: "packet_code env tls packet =
      action None (\<lambda>w. bind_res (do_work env tls packet w) (\<lambda>w'. Inr ((), w'))) (\<lambda>_. Halt)"
    using p by (cases packet) (auto simp: packet_code_def Let_def)
  have "\<exists>w'. do_work env tls packet w1 = Inr w' \<and> opening_guar good ec bc pinned packet None w1 None w'"
    if i: "opening_inv good ec bc w1" for w1
  proof -
    obtain w' where w': "do_work env tls packet w1 = Inr w'" "sound good ec bc w'"
      using root_packet_total [OF e t _ p] i by (auto simp: opening_inv_def)
    have "same_pin_state w1 w'"
      using w'(1) ok by (rule prepare_packet_keeps)
    moreover have "same_registries w1 w'"
      using prepare_packet_registries [OF w'(1) ok(1)] i by (simp add: opening_inv_def)
    ultimately show ?thesis
      using w' i same_pin_state_lists by (auto intro!: opening_guar_plain)
  qed
  moreover have "children_done pinned kids packet w'" for w' :: "('a, 'b) world"
    using ok(2) by (cases packet) simp_all
  ultimately show ?thesis
    unfolding code opening_race.on_task_action opening_race.on_task_Halt by (fastforce simp: opening_rely_def)
qed

text \<open>Pinning: first the VM is asked, then each child is pinned, then the newly pinned ones are handed over.\<close>

lemma pin_list_upd [simp]:
  "pinned_list (emit p w) = pinned_list w" "pinned_list (w\<lparr>w_vm := v\<rparr>) = pinned_list w"
  "pinned_list (w\<lparr>w_core := m\<rparr>) = pinned_list w" "pinned_list (put_pinned xs w) = xs"
  by (simp_all add: pinned_list_def emit_def put_pinned_def)

lemma vm_wp_result: "vm_wp P Q c \<Longrightarrow> Q (vm_result c)"
  by (induction c) auto

lemma pin_mark_loop_on_task:
  assumes e: "env_sound env good ec bc" and kids: "kids_reported (env_up env) kids"
    and g: "object_closure gc_tls = object_closure_default"
    and k: "\<And>n children u. opening_inv good ec bc u \<Longrightarrow> (\<forall>ob \<in> set chunk. kids ob \<subseteq> set children) \<Longrightarrow>
      opening_race.on_task good ec bc pinned kids' packet (k n children) u"
      "\<And>n children. owed (duty (k n children)) = []"
    and "opening_inv good ec bc w" "chunk = treated @ obs" "\<forall>ob \<in> set treated. kids ob \<subseteq> set children"
  shows "opening_race.on_task good ec bc pinned kids' packet (pin_mark_loop env gc_tls n children obs k) w"
  using assms(6-)
proof (induction obs arbitrary: treated children n w)
  case Nil
  then show ?case
    using k(1) by simp
next
  case (Cons ob obs)
  have owe: "owed (duty (pin_mark_loop env gc_tls n children obs k)) = []" for n children
    using k(2) by (cases obs) simp_all
  let ?up = "env_up env"
  have "\<exists>x w'. (if up_is_no_longer_ppp ?up ob (w_vm w1) then Inr ((Suc n, children), w1)
            else bind_res (run_with_closure (env_build env) (object_closure gc_tls) pin_visitor
                (up_call_gc_mark_children ?up ob (w_vm w1)) children)
              (\<lambda>(v, children). Inr ((n, children), w1\<lparr>w_vm := v\<rparr>))) = Inr (x, w') \<and>
        opening_guar good ec bc pinned packet None w1 (duty (case x of (n, children) \<Rightarrow> pin_mark_loop env gc_tls n children obs k)) w' \<and>
        opening_race.on_task good ec bc pinned kids' packet
          (case x of (n, children) \<Rightarrow> pin_mark_loop env gc_tls n children obs k) w'"
    if i: "opening_inv good ec bc w1" for w1
  proof (cases "up_is_no_longer_ppp ?up ob (w_vm w1)")
    case True
    have "kids ob = {}"
      using kids True by (auto simp: kids_reported_def split: if_splits)
    with Cons.prems(2,3) have "opening_race.on_task good ec bc pinned kids' packet
        (pin_mark_loop env gc_tls (Suc n) children obs k) w1"
      by (intro Cons.IH [OF i, of "treated @ [ob]"]) auto
    with True i owe show ?thesis
      by (auto simp: opening_inv_def intro!: opening_guar_plain)
  next
    case False
    let ?c = "up_call_gc_mark_children ?up ob (w_vm w1)"
    let ?children = "children @ map fst (filter snd (visits ?c))"
    have s: "sound good ec bc w1"
      using i by (simp add: opening_inv_def)
    have "good (w_core w1) (vm_result ?c)"
      using vm_reports_objectsD(4) [OF env_soundD(2) [OF e s] soundD(1) [OF s]] by (rule vm_wp_result)
    then have s': "sound good ec bc (w1\<lparr>w_vm := vm_result ?c\<rparr>)"
      using s by (simp add: sound_states)
    then have i': "opening_inv good ec bc (w1\<lparr>w_vm := vm_result ?c\<rparr>)"
      using i by (simp add: opening_inv_def latches_hold_bins_def)
    have "kids ob \<subseteq> set ?children"
      using kids [unfolded kids_reported_def, rule_format, of ob "w_vm w1"] False by auto
    with Cons.prems(2,3) have "opening_race.on_task good ec bc pinned kids' packet
        (pin_mark_loop env gc_tls n ?children obs k) (w1\<lparr>w_vm := vm_result ?c\<rparr>)"
      by (intro Cons.IH [OF i', of "treated @ [ob]"]) auto
    with False g i s' owe show ?thesis
      by (auto simp: run_pin_visitor intro!: opening_guar_plain)
  qed
  note step = this
  show ?case
    unfolding pin_mark_loop.simps opening_race.on_task_action
    by (intro allI impI, rule step, erule opening_relyD)
qed

lemma pin_loop_owed:
  "(\<And>newly. owed (duty (k newly)) = newly) \<Longrightarrow> owed (duty (pin_loop env newly obs k)) = newly"
  by (cases obs) simp_all

lemma pin_loop_on_task:
  assumes c: "pin_contract (env_core env) pinned" and e: "env_sound env good ec bc" and p: "is_pin_packet packet"
    and k: "\<And>newly u. opening_inv good ec bc u \<Longrightarrow> set children \<subseteq> pinned (w_core u) \<Longrightarrow>
      opening_race.on_task good ec bc pinned kids packet (k newly) u" "\<And>newly. owed (duty (k newly)) = newly"
    and "opening_inv good ec bc w" "set children \<subseteq> pinned (w_core w) \<union> set obs"
  shows "opening_race.on_task good ec bc pinned kids packet (pin_loop env newly obs k) w"
  using assms(6-)
proof (induction obs arbitrary: newly w)
  case Nil
  then show ?case
    using k(1) by simp
next
  case (Cons ob obs)
  have owe: "owed (duty (pin_loop env newly obs k)) = newly" for newly
    using k(2) by (rule pin_loop_owed)
  have "opening_guar good ec bc pinned packet (Some (Owes newly)) w1
          (duty (pin_loop env (if b then newly @ [ob] else newly) obs k)) (w1\<lparr>w_core := m\<rparr>) \<and>
        opening_race.on_task good ec bc pinned kids packet
          (pin_loop env (if b then newly @ [ob] else newly) obs k) (w1\<lparr>w_core := m\<rparr>)"
    if r: "opening_rely good ec bc pinned packet w w1" and m: "mc_pin_object (env_core env) ob (w_core w1) = (b, m)" for w1 b m
  proof -
    have i: "opening_inv good ec bc w1" and g: "pinned (w_core w) \<subseteq> pinned (w_core w1)"
      using r by (simp_all add: opening_rely_def)
    have s: "sound good ec bc w1"
      using i by (simp add: opening_inv_def)
    have pin: "b = (ob \<notin> pinned (w_core w1))" "pinned m = insert ob (pinned (w_core w1))"
      using pin_contractD(1,2) [OF c, of ob "w_core w1"] m by simp_all
    have "good m (w_vm w1)"
      using good_keptD(6) [OF env_soundD(3) [OF e s] soundD(1) [OF s], of ob] m by simp
    then have i': "opening_inv good ec bc (w1\<lparr>w_core := m\<rparr>)"
      using i s by (simp add: opening_inv_def latches_hold_bins_def sound_states)
    have "pin_move pinned packet (Some (Owes newly)) w1
        (duty (pin_loop env (if b then newly @ [ob] else newly) obs k)) (w1\<lparr>w_core := m\<rparr>)"
      using pin p by (auto simp: pin_move_def owe)
    with i' have "opening_guar good ec bc pinned packet (Some (Owes newly)) w1
        (duty (pin_loop env (if b then newly @ [ob] else newly) obs k)) (w1\<lparr>w_core := m\<rparr>)"
      by (simp add: opening_guar_def same_registries_def cand_view_def ppp_view_def wb_view_def)
    moreover have "set children \<subseteq> pinned m \<union> set obs"
      using Cons.prems(2) g pin(2) by auto
    ultimately show ?thesis
      using Cons.IH [OF i'] by simp
  qed
  then show ?case
    by (auto simp: opening_race.on_task_action split: prod.splits)
qed

lemma pin_packet_on_task:
  assumes c: "pin_contract (env_core env) pinned" and e: "env_sound env good ec bc" and t: "env_workers env tls = Some ctx"
    and kids: "kids_reported (env_up env) kids" and i: "opening_inv good ec bc w"
  shows "opening_race.on_task good ec bc pinned kids (PinPPPChildren chunk) (packet_code env tls (PinPPPChildren chunk)) w"
proof -
  let ?p = "PinPPPChildren chunk"
  obtain gc_tls :: "objref list gc_thread_tls" where g: "object_closure gc_tls = object_closure_default"
    "\<And>k. with_tls env tls k = k gc_tls"
    using idle_from_vwt_check [OF worker_idle [OF e t]] by (metis sum.simps(6) with_tls_def)
  let ?hand = "\<lambda>newly. action (Some (Owes newly)) (\<lambda>w. bind_res (lock_unwrap (pinned_ppp_children (ppp_reg (w_binding w))))
         (\<lambda>pinned. Inr ((), put_pinned (pinned @ newly) w))) (\<lambda>_. Halt)"
  have hand: "opening_race.on_task good ec bc pinned kids ?p (?hand newly) u"
    if "\<forall>ob \<in> set chunk. kids ob \<subseteq> pinned (w_core u)" for newly u
  proof -
    have "\<exists>w'. bind_res (lock_unwrap (pinned_ppp_children (ppp_reg (w_binding w1)))) (\<lambda>pinned. Inr ((), put_pinned (pinned @ newly) w1)) =
          Inr ((), w') \<and> opening_guar good ec bc pinned ?p (Some (Owes newly)) w1 None w' \<and>
          opening_race.on_task good ec bc pinned kids ?p Halt w'"
      if r: "opening_rely good ec bc pinned ?p u w1" for w1
    proof -
      have i: "opening_inv good ec bc w1" and "pinned (w_core u) \<subseteq> pinned (w_core w1)"
        using r by (simp_all add: opening_rely_def)
      then have d: "\<forall>ob \<in> set chunk. kids ob \<subseteq> pinned (w_core w1)"
        using \<open>\<forall>ob \<in> set chunk. kids ob \<subseteq> pinned (w_core u)\<close> by blast
      let ?w = "put_pinned (pinned_list w1 @ newly) w1"
      have "opening_guar good ec bc pinned ?p (Some (Owes newly)) w1 None ?w"
        using i by (simp add: opening_guar_def opening_inv_def latches_hold_bins_def pin_move_def)
      moreover have "lock_unwrap (pinned_ppp_children (ppp_reg (w_binding w1))) = Inr (pinned_list w1)"
        using i by (simp add: opening_inv_def sound_def mutexes_free_def lock_unwrap_def mutex_free_def pinned_list_def)
      moreover have "opening_race.on_task good ec bc pinned kids ?p Halt ?w"
        using d by (auto simp: opening_race.on_task_Halt opening_rely_def)
      ultimately show ?thesis
        by simp
    qed
    then show ?thesis
      by (fastforce simp: opening_race.on_task_action)
  qed
  have "opening_race.on_task good ec bc pinned kids ?p (pin_loop env [] children (\<lambda>newly.
      action (Some (Owes newly)) (\<lambda>w. Inr ((), emit (Probe_pin_ppp_children (length chunk) n (length newly)) w)) (\<lambda>_. ?hand newly))) u"
    if "opening_inv good ec bc u" "\<forall>ob \<in> set chunk. kids ob \<subseteq> set children" for n children u
  proof (rule pin_loop_on_task [OF c e])
    show "opening_race.on_task good ec bc pinned kids ?p
      (action (Some (Owes newly)) (\<lambda>w. Inr ((), emit (Probe_pin_ppp_children (length chunk) n (length newly)) w)) (\<lambda>_. ?hand newly)) u'"
      if "opening_inv good ec bc u'" "set children \<subseteq> pinned (w_core u')" for newly u'
    proof -
      have "\<forall>ob \<in> set chunk. kids ob \<subseteq> pinned (w_core u')"
        using that(2) \<open>\<forall>ob \<in> set chunk. kids ob \<subseteq> set children\<close> by blast
      then show ?thesis
        by (subst opening_race.on_task_action)
          (auto simp: opening_rely_def opening_inv_def intro!: opening_guar_plain hand, blast)
    qed
  qed (use that(1) in auto)
  then show ?thesis
    unfolding packet_code_def Let_def gc_work.case pin_code_def g(2)
    by (intro pin_mark_loop_on_task [OF e kids g(1) _ _ i, where treated = "[]"]) (auto intro: pin_loop_owed)
qed

lemma prepare_packet_on_task:
  assumes "pin_contract (env_core env) pinned" "env_sound env good ec bc" "env_workers env tls = Some ctx"
    and "kids_reported (env_up env) kids" "opening_inv good ec bc w" "prepare_packet_ok packet"
  shows "opening_race.on_task good ec bc pinned kids packet (packet_code env tls packet) w"
proof (cases "is_pin_packet packet")
  case True
  then obtain chunk where "packet = PinPPPChildren chunk"
    by (cases packet) auto
  with pin_packet_on_task [OF assms(1-5)] show ?thesis
    by blast
next
  case False
  with assms(6) show ?thesis
    by (intro root_packet_on_task [OF assms(2,3)]) (cases packet; simp add: global_root_scanners_def)
qed

section \<open>The invariant\<close>

definition owes :: "('m, 'v) job multiset \<Rightarrow> objref multiset" where
  "owes J = (\<Sum>(tls, packet, c) \<in># J. mset (owed (duty c)))"

lemma owes_simps [simp]:
  "owes {#} = {#}" "owes (add_mset (tls, packet, c) J) = mset (owed (duty c)) + owes J"
  by (simp_all add: owes_def)

text \<open>\<open>P\<close> is what was pinned before; what this GC has pinned is in the list or owed, once.\<close>

definition pins_accounted ::
  "('m \<Rightarrow> objref set) \<Rightarrow> objref set \<Rightarrow> ('m, 'v) world \<Rightarrow> objref multiset \<Rightarrow> bool" where
  "pins_accounted pinned P w D \<longleftrightarrow> (\<forall>x. count (mset (pinned_list w) + D) x \<le> 1) \<and>
     set_mset (mset (pinned_list w) + D) \<inter> P = {} \<and>
     pinned (w_core w) = P \<union> set_mset (mset (pinned_list w) + D)"

definition opening_packets :: "bool \<Rightarrow> gc_work multiset \<Rightarrow> bool" where
  "opening_packets moving M \<longleftrightarrow> (\<forall>p \<in># M. prepare_packet_ok p \<and> (is_pin_packet p \<longrightarrow> moving))"

text \<open>A registered object that still has to be asked for its children is in a packet.\<close>

definition children_coming ::
  "('m \<Rightarrow> objref set) \<Rightarrow> (objref \<Rightarrow> objref set) \<Rightarrow> objref set \<Rightarrow> ('m, 'v) world \<Rightarrow> gc_work multiset \<Rightarrow> bool" where
  "children_coming pinned kids regs w M \<longleftrightarrow>
     (\<forall>ob \<in> regs. kids ob \<subseteq> pinned (w_core w) \<or> (\<exists>chunk. PinPPPChildren chunk \<in># M \<and> ob \<in> set chunk))"

definition all_packets :: "('m, 'v) world \<Rightarrow> ('m, 'v) job multiset \<Rightarrow> gc_work multiset" where
  "all_packets w J = mset (w_buckets w Prepare) + job_packets J"

definition opening_ok ::
  "('m, 'v) gc_env \<Rightarrow> ('m \<Rightarrow> objref set) \<Rightarrow> objref set \<Rightarrow> bool \<Rightarrow> ('m \<Rightarrow> 'v \<Rightarrow> bool) \<Rightarrow> usize \<Rightarrow> usize \<Rightarrow>
   (objref \<Rightarrow> objref set) \<Rightarrow> objref set \<Rightarrow> ('m, 'v) world \<Rightarrow> ('m, 'v) race \<Rightarrow> bool" where
  "opening_ok env pinned P moving good ec bc kids regs w1 s \<longleftrightarrow> (let w = race_world s; J = race_jobs s in
     env_sound env good ec bc \<and> pin_contract (env_core env) pinned \<and> kids_reported (env_up env) kids \<and>
     opening_inv good ec bc w \<and> same_registries w1 w \<and> w_buckets w VMRefClosure = [] \<and>
     opening_packets moving (all_packets w J) \<and>
     (\<forall>(tls, p, c) \<in># J. \<not> is_pin_packet p \<longrightarrow> owed (duty c) = []) \<and>
     opening_race.all_on_task good ec bc pinned kids J w \<and>
     pins_accounted pinned P w (owes J) \<and> (\<not> moving \<longrightarrow> pinned_list w = []) \<and>
     children_coming pinned kids regs w (all_packets w J))"

lemma opening_okD:
  assumes "opening_ok env pinned P moving good ec bc kids regs w1 \<lparr>race_world = w, race_jobs = J\<rparr>"
  shows "env_sound env good ec bc" "pin_contract (env_core env) pinned" "kids_reported (env_up env) kids"
    "opening_inv good ec bc w" "same_registries w1 w" "w_buckets w VMRefClosure = []"
    "opening_packets moving (all_packets w J)" "\<forall>(tls, p, c) \<in># J. \<not> is_pin_packet p \<longrightarrow> owed (duty c) = []"
    "opening_race.all_on_task good ec bc pinned kids J w" "pins_accounted pinned P w (owes J)"
    "\<not> moving \<longrightarrow> pinned_list w = []" "children_coming pinned kids regs w (all_packets w J)"
  using assms by (simp_all add: opening_ok_def Let_def)

lemma opening_okI:
  assumes "env_sound env good ec bc" "pin_contract (env_core env) pinned" "kids_reported (env_up env) kids"
    and "opening_inv good ec bc w" "same_registries w1 w" "w_buckets w VMRefClosure = []"
    and "opening_packets moving (all_packets w J)" "\<forall>(tls, p, c) \<in># J. \<not> is_pin_packet p \<longrightarrow> owed (duty c) = []"
    and "opening_race.all_on_task good ec bc pinned kids J w" "pins_accounted pinned P w (owes J)"
    and "\<not> moving \<longrightarrow> pinned_list w = []" "children_coming pinned kids regs w (all_packets w J)"
  shows "opening_ok env pinned P moving good ec bc kids regs w1 \<lparr>race_world = w, race_jobs = J\<rparr>"
  using assms by (simp add: opening_ok_def Let_def)

lemma opening_world_upd:
  "opening_inv good ec bc (w\<lparr>w_buckets := b\<rparr>) = opening_inv good ec bc w"
  "pinned_list (w\<lparr>w_buckets := b\<rparr>) = pinned_list w"
  "pins_accounted pinned P (w\<lparr>w_buckets := b\<rparr>) D = pins_accounted pinned P w D"
  "children_coming pinned kids regs (w\<lparr>w_buckets := b\<rparr>) M = children_coming pinned kids regs w M"
  by (simp_all add: opening_inv_def latches_hold_bins_def pinned_list_def pins_accounted_def children_coming_def)

lemma opening_ok_take:
  assumes ok: "opening_ok env pinned P moving good ec bc kids regs w1 \<lparr>race_world = w, race_jobs = J\<rparr>"
    and b: "w_buckets w Prepare = xs @ packet # ys" and t: "env_workers env tls = Some ctx"
  shows "opening_ok env pinned P moving good ec bc kids regs w1
    \<lparr>race_world = w\<lparr>w_buckets := (w_buckets w)(Prepare := xs @ ys)\<rparr>,
     race_jobs = add_mset (tls, packet, packet_code env tls packet) J\<rparr>"
proof -
  let ?w = "w\<lparr>w_buckets := (w_buckets w)(Prepare := xs @ ys)\<rparr>"
  let ?J = "add_mset (tls, packet, packet_code env tls packet) J"
  note d = opening_okD [OF ok]
  have M: "all_packets ?w ?J = all_packets w J"
    using b by (simp add: all_packets_def)
  have "packet \<in># all_packets w J"
    using b by (simp add: all_packets_def)
  then have p: "prepare_packet_ok packet"
    using d(7) by (simp add: opening_packets_def)
  then have o: "owed (duty (packet_code env tls packet)) = []"
    using duty_at_start [of env tls packet] by (cases packet) auto
  show ?thesis
  proof (rule opening_okI [OF d(1-3)])
    have "opening_rely good ec bc pinned q w ?w" for q
      using d(4) by (simp add: opening_rely_def opening_world_upd)
    then have "opening_race.all_on_task good ec bc pinned kids J ?w"
      using d(9) opening_race.on_task_stable unfolding opening_race.all_on_task_def by fastforce
    moreover have "opening_race.on_task good ec bc pinned kids packet (packet_code env tls packet) ?w"
      using d(4) by (intro prepare_packet_on_task [OF d(2,1) t d(3) _ p]) (simp add: opening_world_upd)
    ultimately show "opening_race.all_on_task good ec bc pinned kids ?J ?w"
      by (simp add: opening_race.all_on_task_def)
  qed (use d(4-8,10-12) o in \<open>simp_all add: opening_world_upd M\<close>)
qed

lemma opening_ok_done:
  assumes ok: "opening_ok env pinned P moving good ec bc kids regs w1
    \<lparr>race_world = w, race_jobs = add_mset (tls, packet, Halt) J\<rparr>"
  shows "opening_ok env pinned P moving good ec bc kids regs w1 \<lparr>race_world = w, race_jobs = J\<rparr>"
proof -
  note d = opening_okD [OF ok]
  have M: "all_packets w (add_mset (tls, packet, Halt) J) = add_mset packet (all_packets w J)"
    by (simp add: all_packets_def)
  have "opening_race.on_task good ec bc pinned kids packet Halt w"
    and rest: "opening_race.all_on_task good ec bc pinned kids J w"
    using d(9) by (auto simp: opening_race.all_on_task_def)
  then have finished: "children_done pinned kids packet w"
    using d(4) by (blast intro: opening_race.on_task_done)
  have "children_coming pinned kids regs w (all_packets w J)"
    unfolding children_coming_def
  proof
    fix ob assume "ob \<in> regs"
    with d(12) [unfolded M children_coming_def]
    consider "kids ob \<subseteq> pinned (w_core w)" | chunk where "packet = PinPPPChildren chunk" "ob \<in> set chunk"
      | chunk where "PinPPPChildren chunk \<in># all_packets w J" "ob \<in> set chunk"
      by auto
    then show "kids ob \<subseteq> pinned (w_core w) \<or> (\<exists>chunk. PinPPPChildren chunk \<in># all_packets w J \<and> ob \<in> set chunk)"
      using finished by cases auto
  qed
  with rest show ?thesis
    using d M by (intro opening_okI [OF d(1-6)]) (simp_all add: opening_packets_def)
qed

lemma opening_ok_act:
  assumes ok: "opening_ok env pinned P moving good ec bc kids regs w1
    \<lparr>race_world = w, race_jobs = add_mset (tls, packet, Act l t k) J\<rparr>"
  shows "opening_ok env pinned P moving good ec bc kids regs w1
      \<lparr>race_world = t w, race_jobs = add_mset (tls, packet, k w) J\<rparr>"
    "w_buckets (t w) = w_buckets w"
proof -
  note d = opening_okD [OF ok]
  note acted = opening_race.act_on_task [OF d(4,9) TrueI]
  let ?l' = "duty (k w)"
  have g: "opening_inv good ec bc (t w)" "same_registries w (t w)" "w_buckets (t w) = w_buckets w"
    "w_latches (t w) = w_latches w" "pin_move pinned packet l w ?l' (t w)"
    using acted(1) by (simp_all add: opening_guar_def)
  show "w_buckets (t w) = w_buckets w"
    by (rule g(3))
  have M: "all_packets (t w) (add_mset (tls, packet, k w) J) = all_packets w (add_mset (tls, packet, Act l t k) J)"
    using g(3) by (simp add: all_packets_def)
  have pin: "is_pin_packet packet \<longrightarrow> moving"
    using d(7) by (simp add: opening_packets_def all_packets_def)
  have grows: "pinned (w_core w) \<subseteq> pinned (w_core (t w))"
    using g(5) by (rule pin_move_grows)
  have acc: "pins_accounted pinned P w (mset (owed l) + owes J)"
    using d(10) by simp
  have "pins_accounted pinned P (t w) (mset (owed ?l') + owes J)"
    using g(5) unfolding pin_move_def
  proof (elim disjE conjE exE)
    assume "pinned (w_core (t w)) = pinned (w_core w)" "pinned_list (t w) = pinned_list w" "owed ?l' = owed l"
    with acc show ?thesis
      by (simp add: pins_accounted_def)
  next
    fix ob
    assume ob: "ob \<notin> pinned (w_core w)" "pinned (w_core (t w)) = insert ob (pinned (w_core w))"
      "pinned_list (t w) = pinned_list w" "owed ?l' = owed l @ [ob]"
    with acc have "ob \<notin># mset (pinned_list w) + (mset (owed l) + owes J)" "ob \<notin> P"
      by (auto simp: pins_accounted_def)
    with acc ob show ?thesis
      by (auto simp: pins_accounted_def not_in_iff)
  next
    assume "pinned (w_core (t w)) = pinned (w_core w)" "pinned_list (t w) = pinned_list w @ owed l" "owed ?l' = []"
    with acc show ?thesis
      by (simp add: pins_accounted_def ac_simps)
  qed
  moreover have "\<not> moving \<longrightarrow> pinned_list (t w) = []"
    using d(11) g(5) pin by (auto simp: pin_move_def)
  moreover have "\<forall>(tls, p, c) \<in># add_mset (tls, packet, k w) J. \<not> is_pin_packet p \<longrightarrow> owed (duty c) = []"
    using d(8) g(5) by (auto simp: pin_move_def)
  moreover have "children_coming pinned kids regs (t w) (all_packets (t w) (add_mset (tls, packet, k w) J))"
    using d(12) grows unfolding M children_coming_def by (meson order_trans)
  ultimately show "opening_ok env pinned P moving good ec bc kids regs w1
      \<lparr>race_world = t w, race_jobs = add_mset (tls, packet, k w) J\<rparr>"
    using d(5-7) g(1-3) acted(3) by (intro opening_okI [OF d(1-3)]) (simp_all add: M same_registries_trans [of w1 w])
qed

text \<open>Root scanning changes no pin and submits no packet that pins.\<close>

lemma opening_ok_roots:
  assumes ok: "opening_ok env pinned P moving good ec bc kids regs w1 \<lparr>race_world = w, race_jobs = J\<rparr>"
    and w': "opening_inv good ec bc w'" "same_registries w w'" "w_core w' = w_core w" "pinned_list w' = pinned_list w"
    and b: "w_buckets w' = bulk_add Prepare ps (w_buckets w)" "\<forall>p \<in> set ps. prepare_packet_ok p \<and> \<not> is_pin_packet p"
  shows "opening_ok env pinned P moving good ec bc kids regs w1 \<lparr>race_world = w', race_jobs = J\<rparr>"
proof -
  note d = opening_okD [OF ok]
  have M: "all_packets w' J = all_packets w J + mset ps"
    using b(1) by (simp add: all_packets_def ac_simps)
  show ?thesis
  proof (rule opening_okI [OF d(1-3) w'(1) same_registries_trans [OF d(5) w'(2)]])
    have "opening_rely good ec bc pinned q w w'" for q
      using w'(1,3) by (simp add: opening_rely_def)
    then show "opening_race.all_on_task good ec bc pinned kids J w'"
      using d(9) opening_race.on_task_stable unfolding opening_race.all_on_task_def by fastforce
    show "opening_packets moving (all_packets w' J)"
      using d(7) b(2) by (auto simp: M opening_packets_def)
    show "children_coming pinned kids regs w' (all_packets w' J)"
      using d(12) w'(3) by (auto simp: M children_coming_def)
  qed (use d(6,8,10,11) w' b(1) in \<open>simp_all add: pins_accounted_def\<close>)
qed

lemma opening_ok_step:
  assumes "opening_step env s t" and ok: "opening_ok env pinned P moving good ec bc kids regs w1 s"
  shows "opening_ok env pinned P moving good ec bc kids regs w1 t"
  using assms(1)
proof cases
  case opening_packet
  then show ?thesis
    using ok by cases (auto intro: opening_ok_take opening_ok_act opening_ok_done)
next
  case (opening_vm_roots tls w w' J)
  note d = opening_okD [OF ok [unfolded opening_vm_roots(1)]]
  obtain ps where ps: "w' = submit Prepare ps w" "\<forall>p \<in> set ps. prepare_packet_ok p \<and> \<not> is_pin_packet p"
  proof -
    have g: "\<forall>p \<in> set global_root_scanners. prepare_packet_ok p \<and> \<not> is_pin_packet p"
      by (auto simp: global_root_scanners_def)
    consider "w' = submit Prepare global_root_scanners w"
      | obs where "w' = submit Prepare (map ScanWbUnprotectedRoots obs) (submit Prepare global_root_scanners w)"
      using opening_vm_roots(3) by (auto simp: scan_vm_specific_roots_def bind_res_eq_Inr Let_def split: if_splits)
    then show thesis
    proof cases
      case 1
      with g that show thesis
        by blast
    next
      case (2 obs)
      with g show thesis
        by (intro that [of "global_root_scanners @ map ScanWbUnprotectedRoots obs"])
          (auto simp: submit_def bulk_add_bulk_add)
    qed
  qed
  show ?thesis
    unfolding opening_vm_roots(2)
    by (rule opening_ok_roots [OF ok [unfolded opening_vm_roots(1)], of w' ps])
      (use d(4) ps in \<open>simp_all add: opening_inv_def latches_hold_bins_def pinned_list_def\<close>)
next
  case (opening_mutator tls mutator_tls w w' J)
  note d = opening_okD [OF ok [unfolded opening_mutator(1)]]
  have k: "same_pin_state w w'"
    using opening_mutator(3) by (auto simp: scan_roots_in_mutator_thread_def bind_res_eq_Inr intro: collect_object_roots_keeps)
  obtain gc_tls where g: "from_vwt_check (env_build env) (tls_view (env_workers env)) tls =
      Inr (gc_tls :: root_env gc_thread_tls)"
    using opening_mutator(3) by (auto simp: scan_roots_in_mutator_thread_def bind_res_eq_Inr)
  have s: "sound good ec bc w"
    using d(4) by (simp add: opening_inv_def)
  have "sound good ec bc w'"
    using mutator_roots_total [OF d(1) s g, of mutator_tls] opening_mutator(3) by auto
  moreover have "latches_hold_bins w'"
    using d(4) k by (simp add: opening_inv_def latches_hold_bins_def same_pin_state_def)
  moreover have "same_registries w w'"
    using opening_mutator(3) by (auto simp: scan_roots_in_mutator_thread_def bind_res_eq_Inr
        dest!: collect_object_roots_result)
  ultimately show ?thesis
    unfolding opening_mutator(2) using same_pin_state_lists [OF k]
    by (intro opening_ok_roots [OF ok [unfolded opening_mutator(1)], of w' "[]"]) (simp_all add: opening_inv_def)
qed

lemma opening_ok_run:
  "(opening_step env)\<^sup>*\<^sup>* s t \<Longrightarrow> opening_ok env pinned P moving good ec bc kids regs w1 s \<Longrightarrow>
   opening_ok env pinned P moving good ec bc kids regs w1 t"
  by (induction rule: rtranclp_induct) (auto intro: opening_ok_step)

lemma opening_ok_no_panic:
  assumes "opening_ok env pinned P moving good ec bc kids regs w1 s"
  shows "\<not> race_panics s"
proof
  assume "race_panics s"
  then obtain tls packet e where "(tls, packet, Panics e) \<in># race_jobs s"
    by (auto simp: race_panics_def)
  with assms opening_race.on_task_panic show False
    by (fastforce simp: opening_race.all_on_task_def opening_ok_def Let_def)
qed

section \<open>Every run of the bucket ends\<close>

definition opening_order :: "(('m, 'v) race \<times> ('m, 'v) race) set" where
  "opening_order = inv_image (less_than <*lex*> mult rest_of)
     (\<lambda>s. (length (w_buckets (race_world s) Prepare), image_mset (\<lambda>(tls, packet, c). c) (race_jobs s)))"

lemma wf_opening_order: "wf opening_order"
  unfolding opening_order_def by (intro wf_inv_image wf_lex_prod wf_less_than wf_mult wf_rest_of)

lemma opening_step_order:
  assumes "race_step env Prepare s t" and ok: "opening_ok env pinned P moving good ec bc kids regs w1 s"
  shows "(t, s) \<in> opening_order"
  using assms(1)
proof cases
  case (race_take w xs packet ys tls ctx J)
  then show ?thesis
    by (simp add: opening_order_def)
next
  case (race_act w tls packet l t k J)
  with opening_ok_act(2) [OF ok [unfolded race_act(1)]] show ?thesis
    by (simp add: opening_order_def rest_of_threads)
next
  case (race_done w tls packet J)
  then show ?thesis
    by (simp add: opening_order_def rest_of_threads)
qed

interpretation opening_run: terminating_race env Prepare "opening_ok env pinned P moving good ec bc kids regs w1" opening_order
  for env pinned P moving good ec bc kids regs w1
proof
  show "opening_ok env pinned P moving good ec bc kids regs w1 t"
    if "race_step env Prepare s t" "opening_ok env pinned P moving good ec bc kids regs w1 s" for s t
    using opening_packet [OF that(1)] that(2) by (rule opening_ok_step)
qed (fact opening_ok_no_panic wf_opening_order opening_step_order)+

section \<open>From the start to the end\<close>

lemma distinct_count_le: "distinct xs \<longleftrightarrow> (\<forall>x. count (mset xs) x \<le> 1)"
proof (induction xs)
  case (Cons a xs)
  have "(\<forall>x. count (mset (a # xs)) x \<le> 1) \<longleftrightarrow> a \<notin> set xs \<and> (\<forall>x. count (mset xs) x \<le> 1)"
    by (auto simp: count_eq_zero_iff le_Suc_eq split: if_splits)
  with Cons show ?case
    by simp
qed simp

lemma latches_hold_bins_ok: "latches_hold_bins w \<Longrightarrow> latches_ok w"
proof -
  have "\<not> is_pin_packet p \<and> \<not> is_unpin_packet p" if "is_bins_packet p" for p
    using that by (cases p) simp_all
  then show "latches_hold_bins w \<Longrightarrow> latches_ok w"
    by (auto simp: latches_hold_bins_def latches_ok_def)
qed

lemma opening_ok_start:
  assumes "prepare_ready env pinned P moving good ec bc w" "kids_reported (env_up env) kids"
    and "children_coming pinned kids regs w (mset (w_buckets w Prepare))"
  shows "opening_ok env pinned P moving good ec bc kids regs w (race_start w)"
proof -
  have i: "env_sound env good ec bc" "pin_contract (env_core env) pinned" "opening_inv good ec bc w"
    "prepare_inv pinned P moving w"
    using assms(1) by (simp_all add: prepare_ready_def opening_inv_def)
  have "count (mset (pinned_list w)) x \<le> 1" for x
    using i(4) by (simp add: prepare_inv_def distinct_count_le)
  with i(4) have acc: "pins_accounted pinned P w (owes {#})"
    by (simp add: prepare_inv_def pins_accounted_def)
  have M: "all_packets w {#} = mset (w_buckets w Prepare)"
    by (simp add: all_packets_def)
  have "opening_packets moving (mset (w_buckets w Prepare))" "w_buckets w VMRefClosure = []" "\<not> moving \<longrightarrow> pinned_list w = []"
    using i(4) by (simp_all add: prepare_inv_def opening_packets_def)
  then show ?thesis
    unfolding race_start_def using assms(3) acc
    by (intro opening_okI [OF i(1,2) assms(2) i(3)]) (simp_all add: M opening_race.all_on_task_def)
qed

lemma opening_ok_end:
  assumes ok: "opening_ok env pinned P moving good ec bc kids regs w1 s" and over: "race_over Prepare s"
  shows "prepare_ready env pinned P moving good ec bc (race_world s)" "same_registries w1 (race_world s)"
    "\<forall>ob \<in> regs. kids ob \<subseteq> pinned (w_core (race_world s))"
proof -
  obtain w where s: "s = \<lparr>race_world = w, race_jobs = {#}\<rparr>" and b: "w_buckets w Prepare = []"
    using over by (cases s) (simp add: race_over_def)
  note d = opening_okD [OF ok [unfolded s]]
  have "distinct (pinned_list w)"
    using d(10) by (simp add: pins_accounted_def distinct_count_le)
  moreover have "latches_ok w"
    using d(4) by (simp add: opening_inv_def latches_hold_bins_ok)
  ultimately show "prepare_ready env pinned P moving good ec bc (race_world s)"
    using d b by (auto simp: s prepare_ready_def prepare_inv_def opening_inv_def pins_accounted_def)
  show "same_registries w1 (race_world s)"
    using d(5) by (simp add: s)
  show "\<forall>ob \<in> regs. kids ob \<subseteq> pinned (w_core (race_world s))"
    using d(12) b by (simp add: s children_coming_def all_packets_def)
qed

end
