(* ===== verification/Cycle_Race.thy ===== *)
theory Cycle_Race
  imports Table_Race Opening_Race
begin

text \<open>
  GC cycles whose buckets are executed action by action: the workers stop anywhere in the middle of
  their packets, at every lock, upcall and counter. A cycle still does all it has to do, so that programs
  can be run on such cycles.
\<close>

section \<open>A cycle\<close>

text \<open>
  A GC from \<open>w0\<close> has stopped the mutators in \<open>w1\<close> and has got to \<open>s\<close> in the Prepare bucket; it has traced
  the heap from \<open>w2\<close> to \<open>w3\<close> and opened the closing bucket in \<open>w4\<close>.
\<close>

inductive opening_reached ::
  "('m, 'v) gc_env \<Rightarrow> ('m, 'v) world \<Rightarrow> ('m, 'v) world \<Rightarrow> ('m, 'v) race \<Rightarrow> bool" for env where
  reached: "stop_all_mutators (env_build env) (env_core env) (env_up env)
      (tls_view (env_workers env) :: address \<rightharpoonup> unit gc_thread_tls) tls visitor (f :: address list) w0 =
      Inr (f', w1) \<Longrightarrow>
    (opening_step env)\<^sup>*\<^sup>* (race_start w1) s \<Longrightarrow> opening_reached env w0 w1 s"

inductive closing_opened ::
  "('m, 'v) gc_env \<Rightarrow> (('m, 'v) world \<Rightarrow> ('m, 'v) world \<Rightarrow> bool) \<Rightarrow>
   ('m, 'v) world \<Rightarrow> ('m, 'v) world \<Rightarrow> ('m, 'v) world \<Rightarrow> ('m, 'v) world \<Rightarrow> bool" for env trace where
  opened: "opening_reached env w0 w1 s \<Longrightarrow> race_over Prepare s \<Longrightarrow> trace (race_world s) w3 \<Longrightarrow>
    gc_mode (env_core env) w3 = gc_mode (env_core env) w0 \<Longrightarrow>
    process_weak_refs (env_build env) (env_core env) (env_up env) w3 = Inr (again, w4) \<Longrightarrow>
    closing_opened env trace w0 (race_world s) w3 w4"

inductive race_cycle ::
  "('m, 'v) gc_env \<Rightarrow> (('m, 'v) world \<Rightarrow> ('m, 'v) world \<Rightarrow> bool) \<Rightarrow>
   ('m, 'v) world \<Rightarrow> ('m, 'v) world \<Rightarrow> bool" for env trace where
  race_cycle: "closing_opened env trace w0 w2 w3 w4 \<Longrightarrow> (race_step env VMRefClosure)\<^sup>*\<^sup>* (race_start w4) s \<Longrightarrow>
    race_over VMRefClosure s \<Longrightarrow> race_cycle env trace w0 (race_world s)"

lemma gc_cycle_opens:
  assumes "gc_cycle env trace w w5"
  obtains w2 w3 w4 where "closing_opened env trace w w2 w3 w4" "(bucket_step env VMRefClosure)\<^sup>*\<^sup>* w4 w5"
    "w_buckets w5 VMRefClosure = []"
  using assms
proof cases
  case (cycle tls visitor f f' w1 w2 w3 again w4)
  have "opening_reached env w w1 (race_start w2)"
    using cycle(1) prepare_run_races [OF cycle(2)] by (rule reached)
  then have "closing_opened env trace w (race_world (race_start w2)) w3 w4"
    by (rule opened) (use cycle in \<open>simp_all add: race_start_def race_over_def\<close>)
  then show thesis
    using cycle(7,8) by (rule that)
qed

lemma gc_cycle_races: "gc_cycle env trace w w' \<Longrightarrow> race_cycle env trace w w'"
proof (erule gc_cycle_opens)
  fix w2 w3 w4
  assume "closing_opened env trace w w2 w3 w4" "(bucket_step env VMRefClosure)\<^sup>*\<^sup>* w4 w'"
    "w_buckets w' VMRefClosure = []"
  from race_cycle [OF this(1) bucket_run_races [OF this(2)]] this(3) show "race_cycle env trace w w'"
    by (simp add: race_start_def race_over_def)
qed

text \<open>The program's runs, with these cycles.\<close>

inductive race_program ::
  "('m, 'v) gc_env \<Rightarrow> (('m, 'v) world \<Rightarrow> ('m, 'v) world \<Rightarrow> bool) \<Rightarrow>
   app_event list \<Rightarrow> ('m, 'v) world \<Rightarrow> ('m, 'v) world \<Rightarrow> bool" for env trace where
  race_nil: "race_program env trace [] w w"
| race_gc: "race_cycle env trace w u \<Longrightarrow> race_program env trace es u w' \<Longrightarrow>
    race_program env trace (Gc_run # es) w w'"
| race_app: "program_step env trace e w u \<Longrightarrow> e \<noteq> Gc_run \<Longrightarrow> race_program env trace es u w' \<Longrightarrow>
    race_program env trace (e # es) w w'"

lemma program_run_races: "program_run env trace es w w' \<Longrightarrow> race_program env trace es w w'"
proof (induction rule: program_run.induct)
  case (run_cons e w u es w')
  then show ?case
  proof (cases "e = Gc_run")
    case True
    with run_cons(1) have "gc_cycle env trace w u"
      by (auto elim: program_step.cases)
    with True run_cons(3) show ?thesis
      by (auto intro: race_gc gc_cycle_races)
  qed (auto intro: race_app)
qed (rule race_nil)

section \<open>The opened bucket\<close>

lemma entries_packet_closing:
  "is_entries_packet p \<Longrightarrow> closing_packet p \<and> resource_of p = None"
  by (cases p) (simp_all add: global_root_scanners_def)

lemma unpin_packet_closing:
  "is_unpin_packet p \<Longrightarrow> closing_packet p \<and> resource_of p = Some Pin_bits"
  by (cases p) (simp_all add: global_root_scanners_def)

lemma opened_bucket:
  assumes w4: "process_weak_refs cfg core up w3 = Inr (again, w4)" "latches_hold_bins w3" "w_buckets w3 VMRefClosure = []"
    and inv: "closing_inv pinned P w4"
  shows "\<forall>p \<in> set (w_buckets w4 VMRefClosure). closing_packet p" "one_owner (mset (w_buckets w4 VMRefClosure))"
    "{ProcessObjFreeCandidates, RemoveDeadPPPs, UpdateWbUnprotectedObjectsList, UpdateGenericIvTbl} \<subseteq>
       set (w_buckets w4 VMRefClosure)"
proof -
  obtain es us where b: "w_buckets w4 VMRefClosure = ProcessObjFreeCandidates # weak_packets @ es @ RemoveDeadPPPs # us"
    and es: "\<forall>p \<in> set es. is_entries_packet p" and us: "\<forall>u \<in> set us. is_unpin_packet u"
    using w4 by (rule process_weak_refs_bucket)
  have e: "filter is_unpin_packet es = []"
  proof -
    have "\<not> is_unpin_packet p" if "is_entries_packet p" for p
      using that by (cases p) simp_all
    with es show ?thesis
      by (auto simp: filter_empty_conv)
  qed
  have "length (filter is_unpin_packet (w_buckets w4 VMRefClosure)) \<le> 1"
    using inv by (auto simp: closing_inv_def)
  then have "length us \<le> 1"
    using us by (simp add: b e weak_packets_def filter_id_conv)
  then consider "us = []" | u where "us = [u]"
    by (cases us) auto
  moreover have n: "filter_mset (\<lambda>p. resource_of p = Some r) (mset es) = {#}" for r
    using es entries_packet_closing by fastforce
  ultimately show "one_owner (mset (w_buckets w4 VMRefClosure))"
    unfolding one_owner_def all_resources
    by cases (use us unpin_packet_closing in \<open>auto simp del: filter_mset_eq_mempty_iff simp: n b weak_packets_def\<close>)
  show "\<forall>p \<in> set (w_buckets w4 VMRefClosure). closing_packet p"
    using es us entries_packet_closing unpin_packet_closing
    by (auto simp: b weak_packets_def global_root_scanners_def)
  show "{ProcessObjFreeCandidates, RemoveDeadPPPs, UpdateWbUnprotectedObjectsList, UpdateGenericIvTbl} \<subseteq>
      set (w_buckets w4 VMRefClosure)"
    by (simp add: b weak_packets_def)
qed

text \<open>The PPPs whose children this GC pins.\<close>

definition pinned_for :: "('m, 'v) gc_env \<Rightarrow> ('m, 'v) world \<Rightarrow> objref set" where
  "pinned_for env w = (if gc_mode (env_core env) w then set (registered (ppp_reg (w_binding w))) else {})"

lemma opening_reached_ok:
  assumes c: "gc_contract env pinned trace" "gc_sound env good ec bc trace"
    and o: "opening_reached env w w1 s" and w: "settled w" "sound good ec bc w"
    and kids: "kids_reported (env_up env) kids"
  defines "mode \<equiv> gc_mode (env_core env) w"
  shows "opening_ok env pinned (pinned (w_core w)) mode (good_in (env_core env) good mode) ec bc kids (pinned_for env w) w1 s"
    "same_registries w w1"
proof -
  from o obtain tls visitor f' and f :: "address list" where stop:
    "stop_all_mutators (env_build env) (env_core env) (env_up env)
      (tls_view (env_workers env) :: address \<rightharpoonup> unit gc_thread_tls) tls visitor f w = Inr (f', w1)"
    "(opening_step env)\<^sup>*\<^sup>* (race_start w1) s"
    by cases
  show "same_registries w w1"
    using stop_all_mutators_registries [OF stop(1)] by simp
  have "prepare_ready env pinned (pinned (w_core w)) mode (good_in (env_core env) good mode) ec bc w1"
    unfolding mode_def using c w stop(1) by (rule cycle_prepare_ready)
  moreover have "children_coming pinned kids (pinned_for env w) w1 (mset (w_buckets w1 Prepare))"
    using stop_all_mutators_kids [OF stop(1), of pinned kids]
    by (auto simp: children_coming_def kids_pinned_def pinned_for_def gc_mode_def)
  ultimately have "opening_ok env pinned (pinned (w_core w)) mode (good_in (env_core env) good mode) ec bc kids
      (pinned_for env w) w1 (race_start w1)"
    using kids by (intro opening_ok_start)
  with stop(2) show "opening_ok env pinned (pinned (w_core w)) mode (good_in (env_core env) good mode) ec bc kids
      (pinned_for env w) w1 s"
    by (rule opening_ok_run)
qed

lemma closing_opened_ready:
  assumes c: "gc_contract env pinned trace" "gc_sound env good ec bc trace"
    and o: "closing_opened env trace w w2 w3 w4" and w: "settled w" "sound good ec bc w"
  defines "mode \<equiv> gc_mode (env_core env) w"
  shows "closing_ready env pinned (pinned (w_core w)) (good_in (env_core env) good mode) ec bc (w_core w3) w4"
    "race_ok env (good_in (env_core env) good mode) ec bc (w_core w3) pinned w4 (race_start w4)"
    "latches_hold_bins w3" "w_buckets w3 VMRefClosure = []" "trace w2 w3" "same_registries w w2" "same_registries w3 w4"
    "sound good ec bc w3" "\<exists>again. process_weak_refs (env_build env) (env_core env) (env_up env) w3 = Inr (again, w4)"
    "{ProcessObjFreeCandidates, RemoveDeadPPPs, UpdateWbUnprotectedObjectsList, UpdateGenericIvTbl} \<subseteq>
       set (w_buckets w4 VMRefClosure)"
proof -
  let ?good = "good_in (env_core env) good mode" and ?P = "pinned (w_core w)"
  from o obtain w1 s again where opened: "opening_reached env w w1 s" "race_over Prepare s" "w2 = race_world s"
    "trace w2 w3" "gc_mode (env_core env) w3 = gc_mode (env_core env) w"
    "process_weak_refs (env_build env) (env_core env) (env_up env) w3 = Inr (again, w4)"
    by cases auto
  note prepared = opening_reached_ok [OF c opened(1) w no_kids_reported]
  note ended = opening_ok_end [OF prepared(1) opened(2), folded opened(3)]
  have r2: "prepare_ready env pinned ?P mode ?good ec bc w2"
    unfolding mode_def by (rule ended(1))
  have e2: "w_buckets w2 Prepare = []"
    using opened(2,3) by (simp add: race_over_def)
  show "same_registries w w2"
    using prepared(2) ended(2) by (rule same_registries_trans)
  note t = cycle_traced [OF c r2 e2 opened(4)]
  show ready: "closing_ready env pinned ?P ?good ec bc (w_core w3) w4"
    using c r2 e2 opened(4,6) by (rule cycle_closing_ready)
  then have inv: "closing_inv pinned ?P w4"
    by (simp add: closing_ready_def)
  note bucket = opened_bucket [OF opened(6) t(3,5) inv]
  show "latches_hold_bins w3" "w_buckets w3 VMRefClosure = []" "trace w2 w3"
    "\<exists>again. process_weak_refs (env_build env) (env_core env) (env_up env) w3 = Inr (again, w4)"
    "{ProcessObjFreeCandidates, RemoveDeadPPPs, UpdateWbUnprotectedObjectsList, UpdateGenericIvTbl} \<subseteq>
       set (w_buckets w4 VMRefClosure)"
    using t(3,5) opened(4,6) bucket(3) by blast+
  show "same_registries w3 w4"
    using process_weak_refs_opens(1) [OF opened(6) t(3,5), of ProcessObjFreeCandidates] by simp
  show "sound good ec bc w3"
    using t(1) by (simp add: sound_good_in)
  have waits: "packet_waits pinned w4 w4 p" if p: "p \<in> set (w_buckets w4 VMRefClosure)" for p
  proof -
    have "distinct xs \<and> set xs \<subseteq> pinned (w_core w4)" if "p = UnpinPPPChildren xs" for xs
    proof -
      have "UnpinPPPChildren xs \<in> set (filter is_unpin_packet (w_buckets w4 VMRefClosure))"
        using p that by simp
      with inv show ?thesis
        by (auto simp del: set_filter simp: closing_inv_def)
    qed
    with p bucket(1) ready show ?thesis
      by (auto simp: packet_waits_def closing_ready_def)
  qed
  have i: "race_inv env ?good (w_core w3) w4" "mutexes_free (w_binding w4)"
    using ready by (simp_all add: closing_ready_def closing_ctx_def race_inv_def sound_def)
  then have "race_opens env ?good ec bc (w_core w3) pinned w4"
    using ready c(1) by (simp add: race_opens_def closing_ready_def gc_contract_def)
  with i waits bucket(2) show "race_ok env ?good ec bc (w_core w3) pinned w4 (race_start w4)"
    by (simp add: race_ok_def race_start_def closing_race.all_on_task_def job_packets_def owners_def)
qed

section \<open>What a cycle achieves\<close>

lemma race_run_ok:
  assumes "gc_contract env pinned trace" "gc_sound env good ec bc trace"
    and "closing_opened env trace w w2 w3 w4" and "settled w" "sound good ec bc w"
    and "(race_step env VMRefClosure)\<^sup>*\<^sup>* (race_start w4) s"
  shows "race_ok env (good_in (env_core env) good (gc_mode (env_core env) w)) ec bc (w_core w3) pinned w4 s"
  using assms(6) closing_opened_ready(2) [OF assms(1-5)] by (rule closing_run.run_keeps)

lemma race_cycle_pins:
  assumes ready: "closing_ready env pinned P good ec bc m w4" and ok: "race_ok env good ec bc m pinned w4 s"
    and over: "race_over VMRefClosure s"
  shows "pinned (w_core (race_world s)) = P"
proof -
  have inv: "closing_inv pinned P w4"
    using ready by (simp add: closing_ready_def)
  then consider (unpin) xs where "filter is_unpin_packet (w_buckets w4 VMRefClosure) = [UnpinPPPChildren xs]"
      "set xs \<inter> P = {}" "pinned (w_core w4) = P \<union> set xs"
    | (none) "filter is_unpin_packet (w_buckets w4 VMRefClosure) = []" "pinned (w_core w4) = P"
    by (auto simp: closing_inv_def)
  then show ?thesis
  proof cases
    case unpin
    then have "UnpinPPPChildren xs \<in> set (w_buckets w4 VMRefClosure)"
      by (metis filter_is_subset list.set_intros(1) subsetD)
    from race_over_done [OF ok over this] unpin(2,3) show ?thesis
      by auto
  next
    case none
    have "resource_of p \<noteq> Some Pin_bits" if "p \<in> set (w_buckets w4 VMRefClosure)" for p
      using none(1) that by (cases p) (auto simp: filter_empty_conv)
    then have "same_resource Pin_bits w4 (race_world s)"
      using race_okD(8) [OF ok] by blast
    with none(2) show ?thesis
      by simp
  qed
qed

text \<open>The registries after a cycle; every PPP was judged in a state the VM had during the cycle.\<close>

definition registries_raced ::
  "('m, 'v) gc_env \<Rightarrow> ('m \<Rightarrow> 'v \<Rightarrow> bool) \<Rightarrow> 'm \<Rightarrow> ruby_binding \<Rightarrow> ruby_binding \<Rightarrow> bool" where
  "registries_raced env good m b b' \<longleftrightarrow>
     candidates (weak_proc b') =
       map (forward (env_core env) m) (filter (\<lambda>ob. mc_is_reachable (env_core env) ob m) (candidates (weak_proc b))) \<and>
     ppps_judged (env_core env) (env_up env) good m (registered (ppp_reg b)) (registered (ppp_reg b')) \<and>
     mutex_data (wb_unprotected_objects b') = forward (env_core env) m `
       {ob \<in> mutex_data (wb_unprotected_objects b). mc_is_reachable (env_core env) ob m} \<and>
     mutex_data (moved_givtbl b') = Map.empty"

lemma registries_raced_mono:
  assumes "registries_raced env good m b b'" and "\<And>m v. good m v \<Longrightarrow> good' m v"
  shows "registries_raced env good' m b b'"
proof -
  have "ppps_judged core up good' m xs ys" if "ppps_judged core up good m xs ys" for core up xs ys
  proof -
    from that obtain vs where "length vs = length xs" "\<forall>v \<in> set vs. \<exists>m'. same_heap core m m' \<and> good m' v"
      "ys = map (\<lambda>(ob, v). forward core m ob) (filter (\<lambda>(ob, v). ppp_stays core up m v ob) (zip xs vs))"
      by (auto simp: ppps_judged_def)
    moreover from this(2) have "\<forall>v \<in> set vs. \<exists>m'. same_heap core m m' \<and> good' m' v"
      using assms(2) by blast
    ultimately show ?thesis
      unfolding ppps_judged_def by (intro exI [of _ vs]) simp
  qed
  with assms(1) show ?thesis
    by (simp add: registries_raced_def)
qed

lemma same_registries_binding:
  assumes "same_registries w w'"
  shows "candidates (weak_proc (w_binding w')) = candidates (weak_proc (w_binding w))"
    "registered (ppp_reg (w_binding w')) = registered (ppp_reg (w_binding w))"
    "wb_unprotected_objects (w_binding w') = wb_unprotected_objects (w_binding w)"
    "plan_name (w_binding w') = plan_name (w_binding w)"
  using assms by (auto simp: same_registries_def cand_view_def ppp_view_def wb_view_def registered_def candidates_def)

lemma pinned_list_same:
  "pinned_ppp_children (ppp_reg (w_binding w')) = pinned_ppp_children (ppp_reg (w_binding w)) \<Longrightarrow>
   pinned_list w' = pinned_list w"
  by (simp add: pinned_list_def)

lemma race_cycle_effect:
  assumes c: "gc_contract env pinned trace" "gc_sound env good ec bc trace"
    and g: "race_cycle env trace w w'" and w: "settled w" "sound good ec bc w"
  obtains w2 w3 where "trace w2 w3" "same_registries w w2" "settled w'" "sound good ec bc w'"
    "pinned (w_core w') = pinned (w_core w)"
    "registries_raced env (good_in (env_core env) good (gc_mode (env_core env) w)) (w_core w3) (w_binding w) (w_binding w')"
    "plan_name (w_binding w') = plan_name (w_binding w)"
  using g
proof cases
  case (race_cycle w2 w3 w4 s)
  let ?good = "good_in (env_core env) good (gc_mode (env_core env) w)" and ?m = "w_core w3" and ?core = "env_core env"
  note o = closing_opened_ready [OF c race_cycle(2) w]
  have ok: "race_ok env ?good ec bc ?m pinned w4 s"
    using c race_cycle(2) w race_cycle(3) by (rule race_run_ok)
  note d = race_okD [OF ok]
  have w': "w' = race_world s"
    by (rule race_cycle(1))
  have ended: "resource_done env ?good ?m pinned w4 p w'"
    if "p \<in> {ProcessObjFreeCandidates, RemoveDeadPPPs, UpdateWbUnprotectedObjectsList, UpdateGenericIvTbl}" for p
    unfolding w' using o(10) that by (intro race_over_done [OF ok race_cycle(4)]) blast
  have "same_registries w2 w3"
    using c(1) o(5) by (simp add: gc_contract_def trace_keeps_registries_def)
  with o(6,7) have same: "same_registries w w4"
    by (blast intro: same_registries_trans)
  note same' = same_registries_binding [OF same]
  have cands: "weak_proc (w_binding w') = (weak_proc (w_binding w4))\<lparr>obj_free_candidates :=
      mutex_new (survivors ?core ?m (candidates (weak_proc (w_binding w4))))\<rparr>"
    using ended [of ProcessObjFreeCandidates] by simp
  obtain ys where ys: "ppps (ppp_reg (w_binding w')) = mutex_new ys"
    "ppps_judged ?core (env_up env) ?good ?m (registered (ppp_reg (w_binding w4))) ys"
    using ended [of RemoveDeadPPPs] by (auto simp: registered_def)
  have "finite (mutex_data (wb_unprotected_objects (w_binding w4)))"
    using w(1) same'(3) by (simp add: settled_def wb_view_def)
  then have wb: "wb_unprotected_objects (w_binding w') = mutex_new (forward ?core ?m `
      {ob \<in> mutex_data (wb_unprotected_objects (w_binding w)). mc_is_reachable ?core ob ?m})"
    using ended [of UpdateWbUnprotectedObjectsList] c(1) same'(3)
    by (simp add: retain_wb_unprotected_eq gc_contract_def hash_set_order_def)
  have moved: "moved_givtbl (w_binding w') = mutex_new Map.empty"
    using ended [of UpdateGenericIvTbl] by simp
  have raced: "registries_raced env ?good ?m (w_binding w) (w_binding w')"
    unfolding registries_raced_def using cands ys wb moved same'(1,2)
    by (simp add: candidates_def registered_def survivors_def)
  have inv: "closing_inv pinned (pinned (w_core w)) w4" "mutexes_free (w_binding w4)"
    "st_entries_chunk_size (w_binding w4) = ec" "st_bins_chunk_size (w_binding w4) = bc"
    using o(1) by (simp_all add: closing_ready_def sound_def)
  have rest: "w_buckets w' Prepare = w_buckets w4 Prepare" "plan_name (w_binding w') = plan_name (w_binding w4)"
    "pinned_ppp_children (ppp_reg (w_binding w')) = pinned_ppp_children (ppp_reg (w_binding w4))"
    "st_entries_chunk_size (w_binding w') = ec" "st_bins_chunk_size (w_binding w') = bc"
    using d(4) inv(3,4) by (simp_all add: w' same_rest_def)
  have i: "latches_hold_bins w'" "?good (w_core w') (w_vm w')"
    using d(3) by (simp_all add: w' race_inv_def)
  have "w_buckets w' VMRefClosure = []"
    using race_cycle(4) by (simp add: w' race_over_def)
  moreover have "pinned_list w' = []" "w_buckets w' Prepare = []"
    using inv(1) rest(1) pinned_list_same [OF rest(3)] by (simp_all add: closing_inv_def)
  ultimately have "quiescent w'"
    using latches_hold_bins_ok [OF i(1)] by (simp add: quiescent_def)
  moreover have free: "registries_free (w_binding w')"
    by (simp add: registries_free_def cands ys(1) wb)
  moreover have "finite (mutex_data (wb_view w'))"
    using w(1) by (simp add: wb_view_def wb settled_def)
  ultimately have "settled w'"
    using i(1) by (simp add: settled_def)
  moreover have "mutexes_free (w_binding w')"
    using free inv(2) by (simp add: mutexes_free_def moved rest(3))
  then have "sound good ec bc w'"
    using i(2) rest(4,5) by (simp add: sound_def good_in_def)
  moreover have "pinned (w_core w') = pinned (w_core w)"
    unfolding w' using o(1) ok race_cycle(4) by (rule race_cycle_pins)
  moreover have "plan_name (w_binding w') = plan_name (w_binding w)"
    using rest(2) same'(4) by simp
  ultimately show thesis
    using o(5,6) raced by (intro that)
qed

lemma race_program_sound:
  assumes c: "gc_contract env pinned trace" "gc_sound env good ec bc trace"
    and "race_program env trace es w w'" "settled w" "sound good ec bc w"
  shows "settled w' \<and> sound good ec bc w'"
  using assms(3-5)
proof (induction rule: race_program.induct)
  case (race_gc w u es w')
  from race_cycle_effect [OF c race_gc(1,4,5)] race_gc(3) show ?case
    by metis
next
  case (race_app e w u es w')
  from program_step_sound [OF c race_app(1,5,6)] race_app(4) show ?case
    by blast
qed simp

lemma race_program_pins:
  assumes c: "gc_contract env pinned trace" "gc_sound env good ec bc trace"
    and "race_program env trace es w w'" "settled w" "sound good ec bc w"
  shows "pinned (w_core w') = fold event_pins es (pinned (w_core w))"
  using assms(3-5)
proof (induction rule: race_program.induct)
  case (race_gc w u es w')
  have "settled u" "sound good ec bc u" "pinned (w_core u) = pinned (w_core w)"
    by (rule race_cycle_effect [OF c race_gc(1,4,5)], assumption)+
  with race_gc(3) show ?case
    by simp
next
  case (race_app e w u es w')
  from program_step_sound [OF c race_app(1,5,6)] program_step_effect [OF c(1) race_app(1,5)] race_app(4) show ?case
    by simp
qed simp

section \<open>From any state to the end of the cycle\<close>

lemma opening_traced_returns:
  assumes c: "gc_contract env pinned trace" "gc_sound env good ec bc trace"
    and ok: "opening_ok env pinned P moving (good_in (env_core env) good moving) ec bc kids regs w1 s"
    and s: "race_over Prepare s" "trace (race_world s) w3"
  shows "gc_mode (env_core env) w3 = moving"
    "\<exists>again w4. process_weak_refs (env_build env) (env_core env) (env_up env) w3 = Inr (again, w4)"
proof -
  have e: "w_buckets (race_world s) Prepare = []"
    using s(1) by (simp add: race_over_def)
  note t = cycle_traced [OF c opening_ok_end(1) [OF ok s(1)] e s(2)]
  show "gc_mode (env_core env) w3 = moving"
    by (rule t(6))
  have "env_sound env (good_in (env_core env) good moving) ec bc"
    using c(2) by (simp add: gc_sound_def)
  from process_weak_refs_total [OF this t(1,2,5)]
  show "\<exists>again w4. process_weak_refs (env_build env) (env_core env) (env_up env) w3 = Inr (again, w4)"
    by blast
qed

lemma opening_reached_more:
  assumes "opening_reached env w w1 s" "(race_step env Prepare)\<^sup>*\<^sup>* s u"
  shows "opening_reached env w w1 u"
proof -
  have "race_step env Prepare \<le> opening_step env"
    by (auto intro: opening_packet)
  then have "(opening_step env)\<^sup>*\<^sup>* s u"
    using assms(2) rtranclp_mono by blast
  with assms(1) show ?thesis
    by cases (blast intro: reached rtranclp_trans)
qed

lemma closing_opened_exists:
  assumes c: "gc_contract env pinned trace" "gc_sound env good ec bc trace"
    and o: "opening_reached env w w1 s" and w: "settled w" "sound good ec bc w" and over: "race_over Prepare s"
  shows "\<exists>w3 w4. closing_opened env trace w (race_world s) w3 w4"
proof -
  note ok = opening_reached_ok(1) [OF c o w no_kids_reported]
  have "sound good ec bc (race_world s)"
    using opening_ok_end(1) [OF ok over] by (simp add: prepare_ready_def sound_good_in)
  then obtain w3 where t: "trace (race_world s) w3"
    using c(2) by (auto simp: gc_sound_def)
  note returns = opening_traced_returns [OF c ok over t]
  obtain again w4 where "process_weak_refs (env_build env) (env_core env) (env_up env) w3 = Inr (again, w4)"
    using returns(2) by (elim exE)
  then have "closing_opened env trace w (race_world s) w3 w4"
    by (rule opened [where trace = trace, OF o over t returns(1)])
  then show ?thesis
    by (intro exI)
qed

lemma closing_completes_race:
  assumes c: "gc_contract env pinned trace" "gc_sound env good ec bc trace"
    and o: "closing_opened env trace w w2 w3 w4" and w: "settled w" "sound good ec bc w"
    and r: "(race_step env VMRefClosure)\<^sup>*\<^sup>* (race_start w4) s" and t: "env_workers env tls = Some ctx"
  shows "\<exists>u. (race_step env VMRefClosure)\<^sup>*\<^sup>* s u \<and> race_over VMRefClosure u \<and> race_cycle env trace w (race_world u)"
proof -
  obtain u where u: "(race_step env VMRefClosure)\<^sup>*\<^sup>* s u" "race_over VMRefClosure u"
    using closing_run.completes [OF t race_run_ok [OF c o w r]] by blast
  with race_cycle [OF o rtranclp_trans [OF r u(1)]] show ?thesis
    by blast
qed

section \<open>An example\<close>

text \<open>Two workers, a PPP to pin, three candidates, and weak tables of 1500 entries and 8 bins.\<close>

definition racing_env :: "(objref set, objref \<rightharpoonup> address) gc_env" where
  "racing_env = example_env\<lparr>env_workers := [4096 \<mapsto> 8192, 4608 \<mapsto> 8704],
     env_up := ivar_upcalls\<lparr>up_st_get_size_info := \<lambda>_ _. (0, 1500, 8)\<rparr>\<rparr>"

definition racing_world :: "(objref set, objref \<rightharpoonup> address) world" where
  "racing_world = put_candidates [8, 24, 16] example_gc_world"

lemma racing_env_simps [simp]:
  "env_build racing_env = debug_build" "env_core racing_env = example_core"
  "env_up racing_env = ivar_upcalls\<lparr>up_st_get_size_info := \<lambda>_ _. (0, 1500, 8)\<rparr>"
  "env_workers racing_env = [4096 \<mapsto> 8192, 4608 \<mapsto> 8704]"
  by (simp_all add: racing_env_def)

lemma racing_contract: "gc_contract racing_env (\<lambda>m. m) (=)"
  using example_contract by (simp add: gc_contract_def racing_env_def)

lemma racing_sound: "gc_sound racing_env (\<lambda>_ _. True) 1024 4096 (=)" "sound (\<lambda>_ _. True) 1024 4096 racing_world"
proof -
  have "env_sound racing_env (good_in (env_core racing_env) (\<lambda>_ _. True) moving) 1024 4096" for moving
    by (rule quiet_env_sound [where eb = 1500 and bn = 8]) (simp_all add: example_core_def)
  then show "gc_sound racing_env (\<lambda>_ _. True) 1024 4096 (=)"
    by (simp add: gc_sound_def)
  show "sound (\<lambda>_ _. True) 1024 4096 racing_world"
    using example_sound(2) by (simp add: racing_world_def)
qed

lemma racing_settled: "settled racing_world"
  using example_settled by (simp add: racing_world_def settled_def quiescent_def pinned_list_def latches_ok_def
      latches_hold_bins_def wb_view_def registries_free_def put_candidates_def)

lemma racing_kids: "steady_kids (env_up racing_env) (\<lambda>ob. {ob + 64})"
proof -
  have "map fst (filter snd (visits (pin_body (env_up racing_env) chunk n v))) = map (\<lambda>ob. ob + 64) chunk"
    for chunk n v
    by (induction chunk arbitrary: n v) (simp_all add: ivar_upcalls_def null_upcalls_def)
  then show ?thesis
    by (auto simp: steady_kids_def reported_children_def)
qed

lemma racing_gc:
  obtains w2 w3 w4 where "closing_opened racing_env (=) racing_world w2 w3 w4"
proof -
  have "env_workers racing_env 4096 = Some 8192"
    by simp
  then obtain w' where "gc_cycle racing_env (=) racing_world w'"
    using gc_cycle_exists [OF racing_contract racing_sound(1) racing_settled racing_sound(2)] by blast
  then show thesis
    by (rule gc_cycle_opens) (rule that)
qed

text \<open>Both workers hold a lock of the binding.\<close>

lemma race_action:
  assumes "f w = Inr (x, w')"
  shows "race_step env st \<lparr>race_world = w, race_jobs = add_mset (tls, packet, action l f k) J\<rparr>
    \<lparr>race_world = w', race_jobs = add_mset (tls, packet, k x) J\<rparr>"
  using race_act [of env st w tls packet l "\<lambda>w. case f w of Inl e \<Rightarrow> w | Inr (x, w') \<Rightarrow> w'"
      "\<lambda>w. case f w of Inl e \<Rightarrow> Panics e | Inr (x, w') \<Rightarrow> k x" J] assms
  by (simp add: action_def)

definition two_locks :: "('m, 'v) race \<Rightarrow> bool" where
  "two_locks s \<longleftrightarrow> size (race_jobs s) = 2 \<and> mutex_held (obj_free_candidates (weak_proc (w_binding (race_world s)))) \<and>
     mutex_held (wb_unprotected_objects (w_binding (race_world s)))"

lemma racing_two:
  fixes w4 :: "(objref set, objref \<rightharpoonup> address) world"
  assumes "closing_opened racing_env (=) racing_world w2 w3 w4"
  obtains s where "(race_step racing_env VMRefClosure)\<^sup>*\<^sup>* (race_start w4) s" "two_locks s"
proof -
  note o = closing_opened_ready [OF racing_contract racing_sound(1) assms racing_settled racing_sound(2)]
  obtain again where "process_weak_refs (env_build racing_env) (env_core racing_env) (env_up racing_env) w3 = Inr (again, w4)"
    using o(9) by blast
  then obtain es us where b: "w_buckets w4 VMRefClosure = ProcessObjFreeCandidates # weak_packets @ es @ RemoveDeadPPPs # us"
    by (rule process_weak_refs_bucket [OF _ o(3,4)])
  let ?xs = "[UpdateGenericIvTbl, UpdateFinalizerAndObjIdTables, UpdateOverloadedCmeTable, UpdateCiTable]"
  let ?ys = "es @ RemoveDeadPPPs # us" and ?wb = "UpdateWbUnprotectedObjectsList"
  let ?p = "packet_code racing_env 4096 ProcessObjFreeCandidates" and ?q = "packet_code racing_env 4608 ?wb"
  let ?a = "w4\<lparr>w_buckets := (w_buckets w4)(VMRefClosure := ?xs @ ?wb # ?ys)\<rparr>"
  let ?b = "upd_candidates (\<lambda>m. m\<lparr>mutex_held := True\<rparr>) ?a"
  let ?c = "?b\<lparr>w_buckets := (w_buckets ?b)(VMRefClosure := ?xs @ ?ys)\<rparr>"
  let ?d = "upd_wb (\<lambda>m. m\<lparr>mutex_held := True\<rparr>) ?c"
  let ?cands = "candidates (weak_proc (w_binding w4))"
  let ?job = "(4096, ProcessObjFreeCandidates, candidates_loop racing_env (length ?cands) [] ?cands)"
  let ?old = "mutex_data (wb_unprotected_objects (w_binding w4))"
  let ?rest = "act (put_wb_unprotected {}) (wb_loop racing_env (card ?old) (env_set_order racing_env ?old))"
  have free: "mutexes_free (w_binding w4)"
    using o(1) by (simp add: closing_ready_def sound_def)
  have "race_step racing_env VMRefClosure (race_start w4)
      \<lparr>race_world = ?a, race_jobs = {#(4096, ProcessObjFreeCandidates, ?p)#}\<rparr>"
    unfolding race_start_def by (rule race_take [where xs = "[]", unfolded append_Nil]) (simp_all add: b weak_packets_def)
  moreover have "race_step racing_env VMRefClosure
      \<lparr>race_world = ?a, race_jobs = {#(4096, ProcessObjFreeCandidates, ?p)#}\<rparr> \<lparr>race_world = ?b, race_jobs = {#?job#}\<rparr>"
    using free unfolding packet_code_def Let_def gc_work.case candidates_code_def
    by (intro race_action) (simp add: try_lock_def mutexes_free_def registries_free_def candidates_def)
  moreover have "race_step racing_env VMRefClosure \<lparr>race_world = ?b, race_jobs = {#?job#}\<rparr>
      \<lparr>race_world = ?c, race_jobs = add_mset (4608, ?wb, ?q) {#?job#}\<rparr>"
    by (rule race_take) (simp_all add: upd_candidates_def)
  moreover have "race_step racing_env VMRefClosure \<lparr>race_world = ?c, race_jobs = add_mset (4608, ?wb, ?q) {#?job#}\<rparr>
      \<lparr>race_world = ?d, race_jobs = add_mset (4608, ?wb, ?rest) {#?job#}\<rparr>"
    using free unfolding packet_code_def Let_def gc_work.case wb_code_def
    by (intro race_action) (simp add: try_lock_def mutexes_free_def registries_free_def upd_candidates_def)
  ultimately have "(race_step racing_env VMRefClosure)\<^sup>*\<^sup>* (race_start w4)
      \<lparr>race_world = ?d, race_jobs = add_mset (4608, ?wb, ?rest) {#?job#}\<rparr>"
    by (meson converse_rtranclp_into_rtranclp rtranclp.rtrancl_refl)
  then show thesis
    by (rule that) (simp add: two_locks_def upd_candidates_def upd_wb_def)
qed

section \<open>Properties\<close>

text \<open>
  C1. No data race makes a GC thread panic: after any run of a program whose GC cycles interleave their packets
  action by action, in any GC, whenever each worker stops, at a lock, an upcall or a counter, whatever
  packets the others are in or roots they scan, no packet of the Prepare or of the closing bucket
  panics: each \<open>try_lock\<close> finds its mutex free, and each unpinned object is still pinned. Nor does
  \<open>process_weak_refs\<close> between them. At the end only the program's own pins are left.
\<close>

theorem racing_packets_never_panic:
  assumes c: "gc_contract env pinned trace" "gc_sound env good ec bc trace"
    and run: "race_program env trace es w0 w" "settled w0" "sound good ec bc w0"
  shows "(opening_reached env w w1 s \<longrightarrow> \<not> race_panics s \<and> (race_over Prepare s \<longrightarrow> trace (race_world s) w3 \<longrightarrow>
      (\<exists>again w4. process_weak_refs (env_build env) (env_core env) (env_up env) w3 = Inr (again, w4)))) \<and>
    (closing_opened env trace w w2 w3 w4 \<longrightarrow> (race_step env VMRefClosure)\<^sup>*\<^sup>* (race_start w4) s \<longrightarrow>
      \<not> race_panics s \<and> (race_over VMRefClosure s \<longrightarrow> settled (race_world s) \<and>
        pinned (w_core (race_world s)) = fold event_pins es (pinned (w_core w0))))"
proof (intro conjI impI)
  have w: "settled w" "sound good ec bc w"
    using race_program_sound [OF c run] by simp_all
  {
    assume "opening_reached env w w1 s"
    note ok = opening_reached_ok(1) [OF c this w no_kids_reported]
    then show "\<not> race_panics s"
      by (rule opening_ok_no_panic)
    assume "race_over Prepare s" "trace (race_world s) w3"
    then show "\<exists>again w4. process_weak_refs (env_build env) (env_core env) (env_up env) w3 = Inr (again, w4)"
      using opening_traced_returns [OF c ok] by blast
  next
    assume o: "closing_opened env trace w w2 w3 w4" "(race_step env VMRefClosure)\<^sup>*\<^sup>* (race_start w4) s"
    have "race_ok env (good_in (env_core env) good (gc_mode (env_core env) w)) ec bc (w_core w3) pinned w4 s"
      using c o(1) w o(2) by (rule race_run_ok)
    then show "\<not> race_panics s"
      by (rule race_ok_no_panic)
    assume "race_over VMRefClosure s"
    with o have g: "race_cycle env trace w (race_world s)"
      by (rule race_cycle)
    have "settled (race_world s)" "pinned (w_core (race_world s)) = pinned (w_core w)"
      by (rule race_cycle_effect [OF c g w], assumption)+
    then show "settled (race_world s)" "pinned (w_core (race_world s)) = fold event_pins es (pinned (w_core w0))"
      using race_program_pins [OF c run] by simp_all
  }
qed

text \<open>
  C4. Pinning in parallel, in the Prepare bucket of any GC: at every moment an object is pinned by the
  application, or it is in the registry's list, or exactly one packet under way owes it to the list, and
  never more than one of these, although two packets may race for the same child; and when the bucket is
  drained before a moving GC, the children of every PPP are pinned.
\<close>

theorem racing_packets_pin_once:
  assumes c: "gc_contract env pinned trace" "gc_sound env good ec bc trace" "steady_kids (env_up env) kids"
    and run: "race_program env trace es w0 w" "settled w0" "sound good ec bc w0"
    and o: "opening_reached env w w1 s"
  shows "pins_accounted pinned (pinned (w_core w)) (race_world s) (owes (race_jobs s)) \<and>
    (race_over Prepare s \<longrightarrow> (\<forall>ob \<in> pinned_for env w. kids ob \<subseteq> pinned (w_core (race_world s))))"
proof -
  have w: "settled w" "sound good ec bc w"
    using race_program_sound [OF c(1,2) run] by simp_all
  note ok = opening_reached_ok(1) [OF c(1,2) o w steady_kids_reported [OF c(3)]]
  obtain w' J where s: "s = \<lparr>race_world = w', race_jobs = J\<rparr>"
    by (cases s) simp
  from opening_okD(10) [OF ok [unfolded s]] opening_ok_end(3) [OF ok] show ?thesis
    by (simp add: s)
qed

text \<open>
  C12. Interleaved packets always come to an end: no run of actions in the Prepare or in the closing bucket is
  infinite, the workers are never stuck before all packets are executed, and from any state in either
  bucket the GC cycle can be brought to its end.
\<close>

theorem racing_packets_complete:
  assumes c: "gc_contract env pinned trace" "gc_sound env good ec bc trace"
    and run: "race_program env trace es w0 w" "settled w0" "sound good ec bc w0"
    and t: "env_workers env tls = Some ctx"
    and s: "st = Prepare \<and> opening_reached env w w1 s \<or>
      st = VMRefClosure \<and> closing_opened env trace w w2 w3 w4 \<and> (race_step env VMRefClosure)\<^sup>*\<^sup>* (race_start w4) s"
  shows "(\<nexists>f. f 0 = s \<and> (\<forall>i. race_step env st (f i) (f (Suc i)))) \<and>
    ((\<nexists>u. race_step env st s u) \<longrightarrow> race_over st s) \<and>
    (\<exists>u. (race_step env st)\<^sup>*\<^sup>* s u \<and> race_over st u \<and>
      (if st = Prepare then \<exists>w3 w4 v. closing_opened env trace w (race_world u) w3 w4 \<and>
         (race_step env VMRefClosure)\<^sup>*\<^sup>* (race_start w4) v \<and> race_cycle env trace w (race_world v)
       else race_cycle env trace w (race_world u)))"
proof -
  have w: "settled w" "sound good ec bc w"
    using race_program_sound [OF c run] by simp_all
  from s show ?thesis
  proof (elim disjE conjE)
    assume st: "st = Prepare" and o: "opening_reached env w w1 s"
    note ok = opening_reached_ok(1) [OF c o w no_kids_reported]
    obtain u where u: "(race_step env Prepare)\<^sup>*\<^sup>* s u" "race_over Prepare u"
      using opening_run.completes [OF t ok] by blast
    have "opening_reached env w w1 u"
      using o u(1) by (rule opening_reached_more)
    then obtain w3 w4 where o4: "closing_opened env trace w (race_world u) w3 w4"
      using closing_opened_exists [OF c _ w u(2)] by blast
    obtain v where v: "(race_step env VMRefClosure)\<^sup>*\<^sup>* (race_start w4) v" "race_cycle env trace w (race_world v)"
      using closing_completes_race [OF c o4 w _ t] by blast
    have "\<nexists>f. f 0 = s \<and> (\<forall>i. race_step env Prepare (f i) (f (Suc i)))"
      using opening_run.runs_end ok by metis
    with u o4 v opening_run.stuck [OF ok t] show ?thesis
      by (auto simp: st)
  next
    assume st: "st = VMRefClosure" and o: "closing_opened env trace w w2 w3 w4"
      and r: "(race_step env VMRefClosure)\<^sup>*\<^sup>* (race_start w4) s"
    have ok: "race_ok env (good_in (env_core env) good (gc_mode (env_core env) w)) ec bc (w_core w3) pinned w4 s"
      using c o w r by (rule race_run_ok)
    have "\<nexists>f. f 0 = s \<and> (\<forall>i. race_step env VMRefClosure (f i) (f (Suc i)))"
      using closing_run.runs_end ok by metis
    with closing_run.stuck [OF ok t] closing_completes_race [OF c o w r t] show ?thesis
      by (auto simp: st)
  qed
qed




section \<open>Witnesses\<close>

theorem racing_packets_never_panic_witness:
  "\<exists>w2 w3 w4 s. closing_opened racing_env (=) racing_world w2 w3 w4 \<and>
     (race_step racing_env VMRefClosure)\<^sup>*\<^sup>* (race_start w4) s \<and> two_locks s \<and> \<not> race_panics s"
proof -
  obtain w2 w3 w4 where o: "closing_opened racing_env (=) racing_world w2 w3 w4"
    by (rule racing_gc)
  from o obtain s where s: "(race_step racing_env VMRefClosure)\<^sup>*\<^sup>* (race_start w4) s" "two_locks s"
    by (rule racing_two)
  from racing_packets_never_panic [OF racing_contract racing_sound(1) race_nil racing_settled racing_sound(2)] o s
  show ?thesis
    by blast
qed

theorem racing_packets_pin_once_witness:
  "\<exists>w1 s. opening_reached racing_env racing_world w1 s \<and> race_over Prepare s \<and> 80 \<in> w_core (race_world s)"
proof -
  obtain w2 w3 w4 where "closing_opened racing_env (=) racing_world w2 w3 w4"
    by (rule racing_gc)
  then obtain w1 s where o: "opening_reached racing_env racing_world w1 s" "race_over Prepare s"
    by cases blast
  have "16 \<in> pinned_for racing_env racing_world"
    by (simp add: pinned_for_def gc_mode_def example_core_def racing_world_def example_gc_world_def registered_def
        put_ppps_def)
  with racing_packets_pin_once [OF racing_contract racing_sound(1) racing_kids race_nil racing_settled
      racing_sound(2) o(1)] o(2)
  have "80 \<in> w_core (race_world s)"
    by (auto simp: example_core_def)
  with o show ?thesis
    by (intro exI conjI)
qed

theorem racing_packets_complete_witness:
  "\<exists>w2 w3 w4 s t. closing_opened racing_env (=) racing_world w2 w3 w4 \<and> two_locks s \<and>
     (race_step racing_env VMRefClosure)\<^sup>*\<^sup>* s t \<and> race_over VMRefClosure t"
proof -
  obtain w2 w3 w4 where o: "closing_opened racing_env (=) racing_world w2 w3 w4"
    by (rule racing_gc)
  from o obtain s where s: "(race_step racing_env VMRefClosure)\<^sup>*\<^sup>* (race_start w4) s" "two_locks s"
    by (rule racing_two)
  have "env_workers racing_env 4096 = Some 8192"
    by simp
  from racing_packets_complete [where st = VMRefClosure, OF racing_contract racing_sound(1) race_nil racing_settled
      racing_sound(2) this disjI2 [OF conjI [OF refl conjI [OF o s(1)]]]]
  obtain t where "(race_step racing_env VMRefClosure)\<^sup>*\<^sup>* s t" "race_over VMRefClosure t"
    by auto
  with o s(2) show ?thesis
    by (intro exI conjI)
qed

lemma racing_cycle: obtains w where "race_cycle racing_env (=) racing_world w"
proof -
  have "env_workers racing_env 4096 = Some 8192"
    by simp
  then show thesis
    using gc_cycle_exists [OF racing_contract racing_sound(1) racing_settled racing_sound(2)] gc_cycle_races that by blast
qed




end
